(* ===== verification/Prelude.thy ===== *)
theory Prelude
  imports Main "HOL-Library.Multiset" "HOL-Library.Word"
begin

text \<open>
  Shared vocabulary of the development: the collections of simplification rules that the
  component theories fill, the outcome type for Go code that may panic, Go's \<open>time.Time\<close>
  and \<open>time.Duration\<close>, and the generic lemmas on lists that several components use.
\<close>

section \<open>Collections\<close>

named_theorems heap_simps \<open>rewrite rules on array heaps\<close>
named_theorems pq_simps \<open>rewrite rules on priority queues\<close>
named_theorems sched_simps \<open>rewrite rules on scheduler states\<close>
named_theorems path_simps \<open>rewrite rules on file paths\<close>

section \<open>Panics\<close>

text \<open>
  A Go function that may panic returns \<open>Inl (Panic msg)\<close> on the panicking path and
  \<open>Inr v\<close> otherwise.
\<close>

datatype panic = Panic string

type_synonym 'a may_panic = "panic + 'a"

section \<open>Time\<close>

text \<open>
  \<open>time.Time\<close> as nanoseconds since Go's zero time (January 1, year 1, UTC), so that the
  zero value of the struct is \<open>Time 0\<close>. \<open>time.Duration\<close> is an \<open>int64\<close> count of
  nanoseconds; \<open>Sub\<close> saturates at the bounds of \<open>int64\<close> as the library documents.
\<close>

datatype gotime = Time (nanos: int)

type_synonym duration = int

definition minDuration :: duration where "minDuration = - (2 ^ 63)"

definition maxDuration :: duration where "maxDuration = 2 ^ 63 - 1"

definition IsZero :: "gotime \<Rightarrow> bool" where
  "IsZero t \<longleftrightarrow> nanos t = 0"

instantiation gotime :: linorder
begin

definition less_eq_gotime :: "gotime \<Rightarrow> gotime \<Rightarrow> bool" where
  "s \<le> t \<longleftrightarrow> nanos s \<le> nanos t"

definition less_gotime :: "gotime \<Rightarrow> gotime \<Rightarrow> bool" where
  "s < t \<longleftrightarrow> nanos s < nanos t"

instance
  by standard (auto simp: less_eq_gotime_def less_gotime_def gotime.expand)

end

definition Before :: "gotime \<Rightarrow> gotime \<Rightarrow> bool" where
  "Before s t \<longleftrightarrow> s < t"

definition Sub :: "gotime \<Rightarrow> gotime \<Rightarrow> duration" where
  "Sub s t = max minDuration (min maxDuration (nanos s - nanos t))"

definition AddDur :: "gotime \<Rightarrow> duration \<Rightarrow> gotime" where
  "AddDur t d = Time (nanos t + d)"

lemma Sub_le_0_iff: "Sub s t \<le> 0 \<longleftrightarrow> s \<le> t"
  by (auto simp: Sub_def less_eq_gotime_def minDuration_def maxDuration_def)

lemma Sub_pos_iff: "0 < Sub s t \<longleftrightarrow> t < s"
  by (auto simp: Sub_def less_gotime_def minDuration_def maxDuration_def)

lemma AddDur_mono: "0 \<le> d \<Longrightarrow> t \<le> AddDur t d"
  by (simp add: AddDur_def less_eq_gotime_def)

lemma AddDur_Sub_le: "t \<le> s \<Longrightarrow> AddDur t (Sub s t) \<le> s"
  by (auto simp: AddDur_def Sub_def less_eq_gotime_def minDuration_def maxDuration_def)

text \<open>The result of \<open>int64\<close> arithmetic.\<close>

definition wrap64 :: "int \<Rightarrow> int" where
  "wrap64 z = (z + 2 ^ 63) mod 2 ^ 64 - 2 ^ 63"

lemma wrap64_id: "- (2 ^ 63) \<le> z \<Longrightarrow> z < 2 ^ 63 \<Longrightarrow> wrap64 z = z"
  by (simp add: wrap64_def)

lemma wrap64_range: "- (2 ^ 63) \<le> wrap64 z \<and> wrap64 z < 2 ^ 63"
  using pos_mod_bound [of "2 ^ 64" "z + 2 ^ 63"] pos_mod_sign [of "2 ^ 64" "z + 2 ^ 63"]
  unfolding wrap64_def by simp

section \<open>Lists\<close>

definition list_swap :: "'a list \<Rightarrow> nat \<Rightarrow> nat \<Rightarrow> 'a list" where
  "list_swap xs i j = xs[i := xs ! j, j := xs ! i]"

lemma length_list_swap [simp]: "length (list_swap xs i j) = length xs"
  by (simp add: list_swap_def)

lemma nth_list_swap:
  "i < length xs \<Longrightarrow> j < length xs \<Longrightarrow> k < length xs \<Longrightarrow>
   list_swap xs i j ! k = xs ! (if k = i then j else if k = j then i else k)"
  by (auto simp: list_swap_def nth_list_update)

lemma mset_list_swap [simp]:
  "i < length xs \<Longrightarrow> j < length xs \<Longrightarrow> mset (list_swap xs i j) = mset xs"
  unfolding list_swap_def by (rule mset_swap)

lemma set_list_swap [simp]:
  "i < length xs \<Longrightarrow> j < length xs \<Longrightarrow> set (list_swap xs i j) = set xs"
  using mset_list_swap [of i xs j] by (metis set_mset_mset)

lemma distinct_list_swap [simp]:
  "i < length xs \<Longrightarrow> j < length xs \<Longrightarrow> distinct (list_swap xs i j) = distinct xs"
  using mset_list_swap [of i xs j] by (metis distinct_count_atmost_1 set_mset_mset)

lemma map_list_swap:
  "i < length xs \<Longrightarrow> j < length xs \<Longrightarrow> map f (list_swap xs i j) = list_swap (map f xs) i j"
  by (simp add: list_swap_def map_update)

lemma list_swap_same [simp]: "list_swap xs i i = xs"
  by (simp add: list_swap_def)

lemma mset_butlast_add:
  "xs \<noteq> [] \<Longrightarrow> mset xs = add_mset (last xs) (mset (butlast xs))"
  by (metis add.right_neutral append_butlast_last_id mset.simps(1) mset.simps(2) mset_append
      union_mset_add_mset_right)

end
