(* ===== verification/HeapArray.thy ===== *)
theory HeapArray
  imports Prelude
begin

text \<open>
  The array heap of Go's \<open>container/heap\<close>, which \<open>internal/prioqueue\<close> drives through its
  \<open>heapAdapter\<close>. The functions here are the library's \<open>up\<close>, \<open>down\<close>, \<open>Push\<close>,
  \<open>Pop\<close>, \<open>Fix\<close> and \<open>Remove\<close> on a plain list of values with the comparison as an
  argument; theory \<open>PrioQueue\<close> runs the same loops on queue items and refines them to these.

  The locale \<open>heap_order\<close> states what the comparison has to satisfy \<^emph>\<open>on the values that
  are in the queue\<close>: the sequence-number comparison of the scheduler is no order on all
  64-bit numbers, so a global requirement could not be met.
\<close>

section \<open>The library's loops on lists\<close>

function up_list :: "('v \<Rightarrow> 'v \<Rightarrow> bool) \<Rightarrow> 'v list \<Rightarrow> nat \<Rightarrow> 'v list" where
  "up_list lt xs j =
     (let i = (j - 1) div 2 in
      if i = j \<or> \<not> lt (xs ! j) (xs ! i) then xs
      else up_list lt (list_swap xs i j) i)"
  by pat_completeness auto
termination
  by (relation "measure (\<lambda>(lt, xs, j). j)") auto

text \<open>The smaller child of \<open>i\<close> among the first \<open>n\<close> positions; the left one exists.\<close>

definition min_child :: "('v \<Rightarrow> 'v \<Rightarrow> bool) \<Rightarrow> 'v list \<Rightarrow> nat \<Rightarrow> nat \<Rightarrow> nat" where
  "min_child lt xs i n =
     (let j1 = 2 * i + 1; j2 = j1 + 1
      in if j2 < n \<and> lt (xs ! j2) (xs ! j1) then j2 else j1)"

lemma min_child_gt: "i < min_child lt xs i n"
  by (simp add: min_child_def Let_def)

lemma min_child_less: "2 * i + 1 < n \<Longrightarrow> min_child lt xs i n < n"
  by (simp add: min_child_def Let_def)

function down_list :: "('v \<Rightarrow> 'v \<Rightarrow> bool) \<Rightarrow> 'v list \<Rightarrow> nat \<Rightarrow> nat \<Rightarrow> 'v list \<times> nat" where
  "down_list lt xs i n =
     (if n \<le> 2 * i + 1 then (xs, i)
      else
        let j = min_child lt xs i n
        in if \<not> lt (xs ! j) (xs ! i) then (xs, i)
           else down_list lt (list_swap xs i j) j n)"
  by pat_completeness auto
termination
  by (relation "measure (\<lambda>(lt, xs, i, n). n - i)")
    (auto simp: Let_def intro!: diff_less_mono2 min_child_gt)

declare up_list.simps [simp del] down_list.simps [simp del]

definition push_list :: "('v \<Rightarrow> 'v \<Rightarrow> bool) \<Rightarrow> 'v \<Rightarrow> 'v list \<Rightarrow> 'v list" where
  "push_list lt x xs = up_list lt (xs @ [x]) (length xs)"

definition pop_list :: "('v \<Rightarrow> 'v \<Rightarrow> bool) \<Rightarrow> 'v list \<Rightarrow> 'v \<times> 'v list" where
  "pop_list lt xs =
     (let n = length xs - 1;
          ys = fst (down_list lt (list_swap xs 0 n) 0 n)
      in (last ys, butlast ys))"

definition fix_list :: "('v \<Rightarrow> 'v \<Rightarrow> bool) \<Rightarrow> 'v list \<Rightarrow> nat \<Rightarrow> nat \<Rightarrow> 'v list" where
  "fix_list lt xs i n =
     (let (ys, k) = down_list lt xs i n in if i < k then ys else up_list lt ys i)"

definition remove_list :: "('v \<Rightarrow> 'v \<Rightarrow> bool) \<Rightarrow> 'v list \<Rightarrow> nat \<Rightarrow> 'v \<times> 'v list" where
  "remove_list lt xs i =
     (let n = length xs - 1;
          ys = (if n \<noteq> i then fix_list lt (list_swap xs i n) i n else xs)
      in (last ys, butlast ys))"

section \<open>Facts that need no order\<close>

lemma up_list_stop:
  "j = 0 \<or> \<not> lt (xs ! j) (xs ! ((j - 1) div 2)) \<Longrightarrow> up_list lt xs j = xs"
  by (subst up_list.simps) (auto simp: Let_def)

lemma up_list_step:
  "0 < j \<Longrightarrow> lt (xs ! j) (xs ! ((j - 1) div 2)) \<Longrightarrow>
   up_list lt xs j = up_list lt (list_swap xs ((j - 1) div 2) j) ((j - 1) div 2)"
  by (subst up_list.simps) (auto simp: Let_def)

lemma down_list_stop:
  "n \<le> 2 * i + 1 \<or> \<not> lt (xs ! min_child lt xs i n) (xs ! i) \<Longrightarrow> down_list lt xs i n = (xs, i)"
  by (subst down_list.simps) (auto simp: Let_def)

lemma down_list_step:
  "2 * i + 1 < n \<Longrightarrow> lt (xs ! min_child lt xs i n) (xs ! i) \<Longrightarrow>
   down_list lt xs i n =
     down_list lt (list_swap xs i (min_child lt xs i n)) (min_child lt xs i n) n"
  by (subst down_list.simps) (auto simp: Let_def)

text \<open>Induction over the two loops, one case for the exit and one for an iteration.\<close>

lemma up_list_induct [case_names stop step]:
  assumes "\<And>xs j. j = 0 \<or> \<not> lt (xs ! j) (xs ! ((j - 1) div 2)) \<Longrightarrow> P xs j"
    and "\<And>xs j. 0 < j \<Longrightarrow> lt (xs ! j) (xs ! ((j - 1) div 2)) \<Longrightarrow>
           P (list_swap xs ((j - 1) div 2) j) ((j - 1) div 2) \<Longrightarrow> P xs j"
  shows "P xs j"
proof (induction j arbitrary: xs rule: less_induct)
  case (less j)
  show ?case
  proof (cases "j = 0 \<or> \<not> lt (xs ! j) (xs ! ((j - 1) div 2))")
    case True
    then show ?thesis by (rule assms(1))
  next
    case False
    then have "0 < j" by simp
    then have "(j - 1) div 2 < j" by linarith
    then have "P (list_swap xs ((j - 1) div 2) j) ((j - 1) div 2)" by (rule less.IH)
    then show ?thesis by (rule assms(2) [rotated 2]) (use False in auto)
  qed
qed

lemma down_list_induct [case_names stop step]:
  assumes "\<And>xs i. n \<le> 2 * i + 1 \<or> \<not> lt (xs ! min_child lt xs i n) (xs ! i) \<Longrightarrow> P xs i"
    and "\<And>xs i. 2 * i + 1 < n \<Longrightarrow> lt (xs ! min_child lt xs i n) (xs ! i) \<Longrightarrow>
           P (list_swap xs i (min_child lt xs i n)) (min_child lt xs i n) \<Longrightarrow> P xs i"
  shows "P xs i"
proof (induction "n - i" arbitrary: xs i rule: less_induct)
  case less
  show ?case
  proof (cases "n \<le> 2 * i + 1 \<or> \<not> lt (xs ! min_child lt xs i n) (xs ! i)")
    case True
    then show ?thesis by (rule assms(1))
  next
    case False
    then have "n - min_child lt xs i n < n - i"
      by (intro diff_less_mono2) (auto simp: min_child_gt)
    then have "P (list_swap xs i (min_child lt xs i n)) (min_child lt xs i n)" by (rule less)
    then show ?thesis by (rule assms(2) [rotated 2]) (use False in auto)
  qed
qed

lemma length_up_list [simp]: "length (up_list lt xs j) = length xs"
  by (induction xs j rule: up_list_induct [where lt = lt]) (simp_all add: up_list_stop up_list_step)

lemma mset_up_list [simp]: "j < length xs \<Longrightarrow> mset (up_list lt xs j) = mset xs"
  by (induction xs j rule: up_list_induct [where lt = lt]) (simp_all add: up_list_stop up_list_step)

lemma up_list_frame:
  "j < k \<Longrightarrow> k < length xs \<Longrightarrow> up_list lt xs j ! k = xs ! k"
  by (induction xs j rule: up_list_induct [where lt = lt])
    (simp_all add: up_list_stop up_list_step nth_list_swap)

lemma length_down_list [simp]: "length (fst (down_list lt xs i n)) = length xs"
  by (induction xs i rule: down_list_induct [where lt = lt and n = n])
    (simp_all add: down_list_stop down_list_step)

lemma mset_down_list [simp]:
  "i < length xs \<Longrightarrow> n \<le> length xs \<Longrightarrow> mset (fst (down_list lt xs i n)) = mset xs"
proof (induction xs i rule: down_list_induct [where lt = lt and n = n])
  case (step xs i)
  have "min_child lt xs i n < length xs"
    using min_child_less [OF step(1)] step.prems(2) by (rule less_le_trans)
  with step show ?case by (simp add: down_list_step)
qed (simp add: down_list_stop)

lemma down_list_frame:
  "n \<le> k \<Longrightarrow> k < length xs \<Longrightarrow> fst (down_list lt xs i n) ! k = xs ! k"
proof (induction xs i rule: down_list_induct [where lt = lt and n = n])
  case (step xs i)
  have "min_child lt xs i n < n" by (rule min_child_less [OF step(1)])
  with step show ?case by (simp add: down_list_step nth_list_swap)
qed (simp add: down_list_stop)

lemma down_list_index: "i \<le> snd (down_list lt xs i n)"
proof (induction xs i rule: down_list_induct [where lt = lt and n = n])
  case (step xs i)
  then show ?case
    using min_child_gt [of i lt xs n] by (simp add: down_list_step)
qed (simp add: down_list_stop)

lemma down_list_moved: "snd (down_list lt xs i n) = i \<Longrightarrow> fst (down_list lt xs i n) = xs"
proof (cases "n \<le> 2 * i + 1 \<or> \<not> lt (xs ! min_child lt xs i n) (xs ! i)")
  case False
  assume "snd (down_list lt xs i n) = i"
  with False show ?thesis
    using min_child_gt [of i lt xs n]
      down_list_index [of "min_child lt xs i n" lt "list_swap xs i (min_child lt xs i n)" n]
    by (simp add: down_list_step)
qed (simp add: down_list_stop)

lemma length_fix_list [simp]: "length (fix_list lt xs i n) = length xs"
  by (cases "down_list lt xs i n")
    (use length_down_list [of lt xs i n] in \<open>simp add: fix_list_def del: length_down_list\<close>)

lemma mset_fix_list [simp]:
  "i < length xs \<Longrightarrow> n \<le> length xs \<Longrightarrow> mset (fix_list lt xs i n) = mset xs"
  by (cases "down_list lt xs i n")
    (use mset_down_list [of i xs n lt] length_down_list [of lt xs i n] in
      \<open>simp add: fix_list_def del: mset_down_list length_down_list\<close>)

lemma fix_list_frame:
  "i < n \<Longrightarrow> n \<le> k \<Longrightarrow> k < length xs \<Longrightarrow> fix_list lt xs i n ! k = xs ! k"
  by (cases "down_list lt xs i n")
    (use down_list_frame [of n k xs lt i] length_down_list [of lt xs i n] in
      \<open>simp add: fix_list_def up_list_frame del: length_down_list\<close>)

lemma pop_list_mset:
  assumes "xs \<noteq> []"
  shows "mset xs = add_mset (fst (pop_list lt xs)) (mset (snd (pop_list lt xs)))"
proof -
  let ?n = "length xs - 1"
  let ?d = "fst (down_list lt (list_swap xs 0 ?n) 0 ?n)"
  have len: "length ?d = length xs" by simp
  have m: "mset ?d = mset xs" using assms by simp
  have "?d \<noteq> []" using len assms by (metis length_0_conv)
  from mset_butlast_add [OF this] m show ?thesis by (simp add: pop_list_def Let_def)
qed

lemma pop_list_fst:
  assumes "xs \<noteq> []"
  shows "fst (pop_list lt xs) = hd xs"
proof -
  let ?n = "length xs - 1"
  define d where "d = fst (down_list lt (list_swap xs 0 ?n) 0 ?n)"
  have n: "?n < length xs" "0 < length xs" using assms by auto
  have len: "length d = length xs" by (simp add: d_def)
  then have "d \<noteq> []" using assms by (metis length_0_conv)
  then have "last d = d ! ?n" using len by (simp add: last_conv_nth)
  also have "\<dots> = xs ! 0" using n by (simp add: d_def down_list_frame nth_list_swap)
  finally show ?thesis using assms by (simp add: pop_list_def Let_def d_def hd_conv_nth)
qed

section \<open>Heap shape\<close>

definition parent :: "nat \<Rightarrow> nat" where
  "parent k = (k - 1) div 2"

lemma parent_less: "0 < k \<Longrightarrow> parent k < k"
  by (simp add: parent_def)

lemma parent_children: "0 < k \<Longrightarrow> parent k = i \<longleftrightarrow> k = 2 * i + 1 \<or> k = 2 * i + 2"
  by (auto simp: parent_def)

text \<open>\<open>above lt xs k\<close>: the value at \<open>k\<close> is not less than the value at its parent.\<close>

definition above :: "('v \<Rightarrow> 'v \<Rightarrow> bool) \<Rightarrow> 'v list \<Rightarrow> nat \<Rightarrow> bool" where
  "above lt xs k \<longleftrightarrow> \<not> lt (xs ! k) (xs ! parent k)"

definition is_heap :: "('v \<Rightarrow> 'v \<Rightarrow> bool) \<Rightarrow> 'v list \<Rightarrow> nat \<Rightarrow> bool" where
  "is_heap lt xs n \<longleftrightarrow> (\<forall>k. 0 < k \<and> k < n \<longrightarrow> above lt xs k)"

text \<open>
  \<open>hole lt xs n i\<close>: the heap property holds except possibly between \<open>i\<close> and its parent or
  its children, and the children of \<open>i\<close> are in order with the parent of \<open>i\<close>.
\<close>

definition hole :: "('v \<Rightarrow> 'v \<Rightarrow> bool) \<Rightarrow> 'v list \<Rightarrow> nat \<Rightarrow> nat \<Rightarrow> bool" where
  "hole lt xs n i \<longleftrightarrow>
     (\<forall>k. 0 < k \<and> k < n \<and> k \<noteq> i \<and> parent k \<noteq> i \<longrightarrow> above lt xs k) \<and>
     (\<forall>k. 0 < k \<and> k < n \<and> parent k = i \<and> 0 < i \<longrightarrow> \<not> lt (xs ! k) (xs ! parent i))"

definition kids_above :: "('v \<Rightarrow> 'v \<Rightarrow> bool) \<Rightarrow> 'v list \<Rightarrow> nat \<Rightarrow> nat \<Rightarrow> bool" where
  "kids_above lt xs n i \<longleftrightarrow> (\<forall>k. 0 < k \<and> k < n \<and> parent k = i \<longrightarrow> above lt xs k)"

lemma hole_closed:
  "hole lt xs n i \<Longrightarrow> kids_above lt xs n i \<Longrightarrow> (0 < i \<Longrightarrow> above lt xs i) \<Longrightarrow> is_heap lt xs n"
  unfolding hole_def kids_above_def is_heap_def by blast

lemma is_heap_prefix: "is_heap lt xs n \<Longrightarrow> m \<le> n \<Longrightarrow> is_heap lt xs m"
  by (auto simp: is_heap_def)

lemma is_heap_cong:
  "(\<And>k. k < n \<Longrightarrow> xs ! k = ys ! k) \<Longrightarrow> is_heap lt xs n = is_heap lt ys n"
proof -
  assume eq: "\<And>k. k < n \<Longrightarrow> xs ! k = ys ! k"
  have "above lt xs k = above lt ys k" if "0 < k" "k < n" for k
    using that eq [of k] eq [of "parent k"] less_trans [OF parent_less that(2)]
    by (simp add: above_def)
  then show ?thesis unfolding is_heap_def by blast
qed

section \<open>What the comparison promises\<close>

locale heap_order =
  fixes lt :: "'v \<Rightarrow> 'v \<Rightarrow> bool" and V :: "'v set"
  assumes lt_asym: "x \<in> V \<Longrightarrow> y \<in> V \<Longrightarrow> lt x y \<Longrightarrow> \<not> lt y x"
    and nlt_trans: "x \<in> V \<Longrightarrow> y \<in> V \<Longrightarrow> z \<in> V \<Longrightarrow> \<not> lt y x \<Longrightarrow> \<not> lt z y \<Longrightarrow> \<not> lt z x"
begin

lemma nth_V: "set xs \<subseteq> V \<Longrightarrow> k < length xs \<Longrightarrow> xs ! k \<in> V"
  by (meson nth_mem subsetD)

lemma root_least:
  assumes "is_heap lt xs n" "n \<le> length xs" "set xs \<subseteq> V" "k < n"
  shows "\<not> lt (xs ! k) (xs ! 0)"
  using assms(4)
proof (induction k rule: less_induct)
  case (less k)
  show ?case
  proof (cases "k = 0")
    case True
    then show ?thesis
      using assms less.prems lt_asym [OF nth_V nth_V, of xs 0 xs 0] by fastforce
  next
    case False
    then have p: "parent k < k" by (simp add: parent_less)
    then have "\<not> lt (xs ! parent k) (xs ! 0)" using less by simp
    moreover have "\<not> lt (xs ! k) (xs ! parent k)"
      using assms(1) False less.prems by (simp add: is_heap_def above_def)
    moreover have "xs ! 0 \<in> V" "xs ! parent k \<in> V" "xs ! k \<in> V"
      using p less.prems assms(2) by (auto intro!: nth_V [OF assms(3)])
    ultimately show ?thesis using nlt_trans by blast
  qed
qed

text \<open>One iteration of \<open>up\<close> moves the hole to the parent.\<close>

lemma up_step:
  assumes h: "hole lt xs n j" "kids_above lt xs n j" and j: "0 < j" "j < n"
    and n: "n \<le> length xs" and V: "set xs \<subseteq> V" and lt: "lt (xs ! j) (xs ! parent j)"
  defines "ys \<equiv> list_swap xs (parent j) j"
  shows "hole lt ys n (parent j)" and "kids_above lt ys n (parent j)"
proof -
  let ?i = "parent j"
  have i: "?i < j" using j(1) by (rule parent_less)
  have nth: "ys ! k = xs ! (if k = ?i then j else if k = j then ?i else k)" if "k < n" for k
    using that j i n by (simp add: ys_def nth_list_swap)
  have inV: "k < n \<Longrightarrow> xs ! k \<in> V" for k
    using n by (intro nth_V [OF V]) simp
  have nlt_ij: "\<not> lt (xs ! ?i) (xs ! j)"
    using lt_asym [OF inV inV lt] i j by simp
  have old: "0 < k \<Longrightarrow> k < n \<Longrightarrow> k \<noteq> j \<Longrightarrow> parent k \<noteq> j \<Longrightarrow> \<not> lt (xs ! k) (xs ! parent k)"
    and grand: "0 < k \<Longrightarrow> k < n \<Longrightarrow> parent k = j \<Longrightarrow> \<not> lt (xs ! k) (xs ! ?i)" for k
    using h(1) j by (auto simp: hole_def above_def)
  have sib: "0 < k \<Longrightarrow> k < n \<Longrightarrow> parent k = ?i \<Longrightarrow> k \<noteq> j \<Longrightarrow> \<not> lt (xs ! k) (xs ! ?i)" for k
    using old [of k] i by auto
  have top: "0 < ?i \<Longrightarrow> \<not> lt (xs ! ?i) (xs ! parent ?i)"
    using old [of ?i] i j by (metis less_trans nat_neq_iff parent_less)
  have par_n: "0 < k \<Longrightarrow> k < n \<Longrightarrow> parent k < n" for k
    using parent_less [of k] by linarith
  show "kids_above lt ys n ?i"
    unfolding kids_above_def above_def
  proof (intro allI impI, elim conjE)
    fix k assume k: "0 < k" "k < n" "parent k = ?i"
    then have "k \<noteq> ?i" using parent_less [of k] by auto
    moreover have "k \<noteq> j \<Longrightarrow> \<not> lt (xs ! k) (xs ! j)"
      using nlt_trans [OF inV inV inV nlt_ij sib [OF k]] k j i by simp
    ultimately show "\<not> lt (ys ! k) (ys ! parent k)"
      using k i j nlt_ij par_n [OF k(1,2)] by (auto simp: nth)
  qed
  show "hole lt ys n ?i"
    unfolding hole_def above_def
  proof (intro conjI allI impI; elim conjE)
    fix k assume k: "0 < k" "k < n" "k \<noteq> ?i" "parent k \<noteq> ?i"
    then show "\<not> lt (ys ! k) (ys ! parent k)"
      using old [of k] grand [of k] par_n [of k] i by (auto simp: nth)
  next
    fix k assume k: "0 < k" "k < n" "parent k = ?i" "0 < ?i"
    then have ne: "k \<noteq> ?i" "parent ?i \<noteq> ?i" "parent ?i \<noteq> j" "parent ?i < n"
      using parent_less [of k] parent_less [of ?i] i j by auto
    have "k \<noteq> j \<Longrightarrow> \<not> lt (xs ! k) (xs ! parent ?i)"
      using nlt_trans [OF inV inV inV top sib] k ne i j by simp
    then show "\<not> lt (ys ! k) (ys ! parent ?i)"
      using k ne top by (auto simp: nth)
  qed
qed

lemma up_list_heap:
  "hole lt xs n j \<Longrightarrow> kids_above lt xs n j \<Longrightarrow> j < n \<Longrightarrow> n \<le> length xs \<Longrightarrow> set xs \<subseteq> V \<Longrightarrow>
   is_heap lt (up_list lt xs j) n"
proof (induction xs j rule: up_list_induct [where lt = lt])
  case (stop xs j)
  then show ?case
    by (auto simp: up_list_stop above_def parent_def intro: hole_closed)
next
  case (step xs j)
  have i: "parent j < j" "(j - 1) div 2 = parent j"
    using step(1) by (auto simp: parent_def)
  show ?case
    using step(1,2) step.IH step.prems up_step [of xs n j] i
    by (simp add: up_list_step)
qed

text \<open>One iteration of \<open>down\<close> moves the hole to the smaller child.\<close>

lemma down_step:
  assumes h: "hole lt xs n i" and n: "2 * i + 1 < n" "n \<le> length xs" and V: "set xs \<subseteq> V"
    and lt: "lt (xs ! min_child lt xs i n) (xs ! i)"
  defines "j \<equiv> min_child lt xs i n"
  defines "ys \<equiv> list_swap xs i j"
  shows "hole lt ys n j" and "above lt ys j"
proof -
  have j: "i < j" "j < n" "parent j = i"
    unfolding j_def using n(1)
    by (auto simp: min_child_gt min_child_less min_child_def Let_def parent_def)
  have nth: "ys ! k = xs ! (if k = i then j else if k = j then i else k)" if "k < n" for k
    using that j n by (simp add: ys_def nth_list_swap)
  have inV: "k < n \<Longrightarrow> xs ! k \<in> V" for k
    using n by (intro nth_V [OF V]) simp
  have nlt_ij: "\<not> lt (xs ! i) (xs ! j)"
    using lt_asym [OF inV inV lt [folded j_def]] j by simp
  have old: "0 < k \<Longrightarrow> k < n \<Longrightarrow> k \<noteq> i \<Longrightarrow> parent k \<noteq> i \<Longrightarrow> \<not> lt (xs ! k) (xs ! parent k)"
    and grand: "0 < k \<Longrightarrow> k < n \<Longrightarrow> parent k = i \<Longrightarrow> 0 < i \<Longrightarrow> \<not> lt (xs ! k) (xs ! parent i)" for k
    using h by (auto simp: hole_def above_def)
  have refl: "\<not> lt (xs ! j) (xs ! j)"
    using lt_asym [OF inV inV] j by blast
  have least: "0 < k \<Longrightarrow> k < n \<Longrightarrow> parent k = i \<Longrightarrow> \<not> lt (xs ! k) (xs ! j)" for k
    using refl lt_asym [OF inV inV, of "2 * i + 2" "2 * i + 1"] j(2)
    by (auto simp: parent_children j_def min_child_def Let_def split: if_splits)
  have par_n: "0 < k \<Longrightarrow> k < n \<Longrightarrow> parent k < n" for k
    using parent_less [of k] by linarith
  show "above lt ys j"
    using j nlt_ij by (simp add: above_def nth)
  show "hole lt ys n j"
    unfolding hole_def above_def
  proof (intro conjI allI impI; elim conjE)
    fix k assume k: "0 < k" "k < n" "k \<noteq> j" "parent k \<noteq> j"
    show "\<not> lt (ys ! k) (ys ! parent k)"
    proof (cases "k = i")
      case True
      then show ?thesis
        using k j grand [of j] par_n [OF k(1,2)] parent_less [OF k(1)] by (simp add: nth)
    next
      case False
      then show ?thesis
        using k old [of k] least [of k] par_n [of k] j by (auto simp: nth)
    qed
  next
    fix k assume k: "0 < k" "k < n" "parent k = j" "0 < j"
    then show "\<not> lt (ys ! k) (ys ! parent j)"
      using old [of k] j parent_less [of k] by (auto simp: nth)
  qed
qed

lemma down_list_hole:
  "hole lt xs n i \<Longrightarrow> i < n \<Longrightarrow> n \<le> length xs \<Longrightarrow> set xs \<subseteq> V \<Longrightarrow>
   down_list lt xs i n = (ys, k) \<Longrightarrow>
   hole lt ys n k \<and> kids_above lt ys n k \<and> (k \<noteq> i \<longrightarrow> above lt ys k)"
proof (induction xs i rule: down_list_induct [where lt = lt and n = n])
  case (stop xs i)
  have inV: "k < n \<Longrightarrow> xs ! k \<in> V" for k
    using stop.prems by (intro nth_V) simp_all
  have "kids_above lt xs n i"
    unfolding kids_above_def above_def
  proof (intro allI impI, elim conjE)
    fix k assume k: "0 < k" "k < n" "parent k = i"
    then have k': "k = 2 * i + 1 \<or> k = 2 * i + 2" and n: "2 * i + 1 < n"
      by (auto simp: parent_children)
    let ?j = "min_child lt xs i n"
    have j: "?j < n" by (rule min_child_less [OF n])
    have "\<not> lt (xs ! ?j) (xs ! i)" using stop.hyps n by simp
    moreover have "\<not> lt (xs ! k) (xs ! ?j)"
      using k' k(2) n lt_asym [OF inV inV, of "2 * i + 2" "2 * i + 1"]
        lt_asym [OF inV inV, of k k]
      by (auto simp: min_child_def Let_def)
    ultimately show "\<not> lt (xs ! k) (xs ! parent k)"
      using nlt_trans [OF inV inV inV, of i ?j k] k j stop.prems(2) by simp
  qed
  with stop show ?case by (auto simp: down_list_stop)
next
  case (step xs i)
  let ?j = "min_child lt xs i n"
  have j: "?j < n" "?j < length xs" "i < ?j"
    using min_child_less [OF step(1)] less_le_trans [OF min_child_less [OF step(1)] step.prems(3)]
    by (auto simp: min_child_gt)
  have ih: "hole lt ys n k \<and> kids_above lt ys n k \<and> (k \<noteq> ?j \<longrightarrow> above lt ys k)"
    using step.IH down_step [OF step.prems(1) step(1) step.prems(3,4) step(2)] j step
    by (simp add: down_list_step)
  moreover have "k = ?j \<Longrightarrow> above lt ys k"
    using down_list_moved [of lt "list_swap xs i ?j" ?j n] step.prems(5) step(1,2)
      down_step(2) [OF step.prems(1) step(1) step.prems(3,4) step(2)]
    by (simp add: down_list_step)
  ultimately show ?case by blast
qed

lemma fix_list_heap:
  assumes "hole lt xs n i" "i < n" "n \<le> length xs" "set xs \<subseteq> V"
  shows "is_heap lt (fix_list lt xs i n) n"
proof -
  obtain ys k where d: "down_list lt xs i n = (ys, k)" by fastforce
  have r: "hole lt ys n k" "kids_above lt ys n k" "k \<noteq> i \<longrightarrow> above lt ys k"
    using down_list_hole [OF assms d] by auto
  have len: "length ys = length xs" and set: "set ys = set xs" and k: "i \<le> k"
    using length_down_list [of lt xs i n] down_list_index [of i lt xs n] d
      mset_down_list [of i xs n lt] assms(2,3)
    by (auto dest: mset_eq_setD)
  show ?thesis
  proof (cases "i < k")
    case True
    with r show ?thesis by (auto simp: fix_list_def d intro: hole_closed)
  next
    case False
    with k have "k = i" by simp
    moreover have "is_heap lt (up_list lt ys k) n"
      using r assms(2-4) len set \<open>k = i\<close> by (intro up_list_heap) simp_all
    ultimately show ?thesis by (simp add: fix_list_def d)
  qed
qed

text \<open>Overwriting one position of a heap leaves a hole there.\<close>

lemma hole_of_change:
  assumes heap: "is_heap lt xs n" and i: "i < n" "n \<le> length xs" and V: "set xs \<subseteq> V"
    and eq: "\<And>k. k < n \<Longrightarrow> k \<noteq> i \<Longrightarrow> ys ! k = xs ! k"
  shows "hole lt ys n i"
proof -
  have inV: "k < n \<Longrightarrow> xs ! k \<in> V" for k
    using i by (intro nth_V [OF V]) simp
  have old: "0 < k \<Longrightarrow> k < n \<Longrightarrow> \<not> lt (xs ! k) (xs ! parent k)" for k
    using heap by (simp add: is_heap_def above_def)
  have par_n: "0 < k \<Longrightarrow> k < n \<Longrightarrow> parent k < n" for k
    using parent_less [of k] by linarith
  show ?thesis
    unfolding hole_def above_def
  proof (intro conjI allI impI; elim conjE)
    fix k assume "0 < k" "k < n" "k \<noteq> i" "parent k \<noteq> i"
    then show "\<not> lt (ys ! k) (ys ! parent k)"
      using old [of k] par_n [of k] by (simp add: eq)
  next
    fix k assume k: "0 < k" "k < n" "parent k = i" "0 < i"
    have ne: "k \<noteq> i" "parent i \<noteq> i" using parent_less [OF k(1)] parent_less [OF k(4)] k(3) by auto
    have "\<not> lt (xs ! k) (xs ! parent i)"
      using nlt_trans [OF inV inV inV, of "parent i" i k] old [of i] old [of k] k par_n [of i] i
      by simp
    then show "\<not> lt (ys ! k) (ys ! parent i)"
      using k ne par_n [of i] i by (simp add: eq)
  qed
qed

lemma push_list_heap:
  assumes "is_heap lt xs (length xs)" "set xs \<subseteq> V" "x \<in> V"
  shows "is_heap lt (push_list lt x xs) (length (push_list lt x xs))"
proof -
  let ?n = "Suc (length xs)"
  have *: "0 < k \<Longrightarrow> k < ?n \<Longrightarrow> parent k \<noteq> length xs" for k
    using parent_less [of k] by linarith
  have "0 < k \<Longrightarrow> k < length xs \<Longrightarrow> above lt (xs @ [x]) k" for k
    using assms(1) less_trans [OF parent_less, of k "length xs"]
    by (simp add: is_heap_def above_def nth_append)
  then have "hole lt (xs @ [x]) ?n (length xs)" "kids_above lt (xs @ [x]) ?n (length xs)"
    using * by (auto simp: hole_def kids_above_def less_Suc_eq)
  then show ?thesis
    using assms(2,3) up_list_heap [of "xs @ [x]" ?n "length xs"] by (simp add: push_list_def)
qed

lemma removed_heap:
  assumes "is_heap lt ys (length ys - 1)"
  shows "is_heap lt (butlast ys) (length (butlast ys))"
  using assms is_heap_cong [of "length ys - 1" "butlast ys" ys lt] by (simp add: nth_butlast)

lemma pop_list_heap:
  assumes h: "is_heap lt xs (length xs)" and V: "set xs \<subseteq> V" and ne: "xs \<noteq> []"
    and r: "pop_list lt xs = (x, ys)"
  shows "x = xs ! 0" and "mset xs = add_mset x (mset ys)" and "is_heap lt ys (length ys)"
proof -
  let ?n = "length xs - 1"
  let ?s = "list_swap xs 0 ?n"
  define d where "d = fst (down_list lt ?s 0 ?n)"
  have n: "?n < length xs" "0 < length xs" using ne by auto
  have x: "x = last d" and ys: "ys = butlast d"
    using r by (simp_all add: pop_list_def Let_def d_def)
  have len: "length d = length xs" by (simp add: d_def)
  then have dne: "d \<noteq> []" using ne by (metis length_0_conv)
  show "x = xs ! 0"
    using n len by (simp add: x last_conv_nth [OF dne]) (simp add: d_def down_list_frame nth_list_swap)
  have "mset d = mset xs" using n by (simp add: d_def)
  then show "mset xs = add_mset x (mset ys)"
    using mset_butlast_add [OF dne] by (simp add: x ys)
  have "is_heap lt d ?n"
  proof (cases "?n = 0")
    case False
    have hole: "hole lt ?s ?n 0"
      using is_heap_prefix [OF h, of ?n] n False
      by (intro hole_of_change [OF _ _ _ V]) (auto simp: nth_list_swap)
    have V': "set ?s \<subseteq> V" using V n by simp
    obtain k where dk: "down_list lt ?s 0 ?n = (d, k)" unfolding d_def by (metis prod.collapse)
    have "hole lt d ?n k \<and> kids_above lt d ?n k \<and> (k \<noteq> 0 \<longrightarrow> above lt d k)"
      using down_list_hole [OF hole _ _ V' dk] False by simp
    then show ?thesis by (auto intro: hole_closed)
  qed (simp add: is_heap_def)
  then show "is_heap lt ys (length ys)"
    using removed_heap [of d] len by (simp add: ys)
qed

lemma pop_list_least:
  assumes "is_heap lt xs (length xs)" "set xs \<subseteq> V" "xs \<noteq> []" "y \<in> set xs"
  shows "\<not> lt y (fst (pop_list lt xs))"
proof -
  obtain k where "k < length xs" "y = xs ! k" using assms(4) by (metis in_set_conv_nth)
  moreover obtain x ys where r: "pop_list lt xs = (x, ys)" by fastforce
  ultimately show ?thesis
    using root_least [OF assms(1) _ assms(2)] pop_list_heap(1) [OF assms(1-3) r] by (simp add: r)
qed

lemma remove_list_heap:
  assumes h: "is_heap lt xs (length xs)" and V: "set xs \<subseteq> V" and i: "i < length xs"
    and r: "remove_list lt xs i = (x, ys)"
  shows "x = xs ! i" and "mset xs = add_mset x (mset ys)" and "is_heap lt ys (length ys)"
proof -
  let ?n = "length xs - 1"
  let ?s = "list_swap xs i ?n"
  define e where "e = (if ?n \<noteq> i then fix_list lt ?s i ?n else xs)"
  have n: "?n < length xs" using i by auto
  have x: "x = last e" and ys: "ys = butlast e"
    using r unfolding remove_list_def Let_def e_def [symmetric] by auto
  have len: "length e = length xs" by (simp add: e_def)
  then have dne: "e \<noteq> []" using i by (metis length_0_conv less_zeroE)
  have last: "e ! ?n = xs ! i" and mset: "mset e = mset xs"
    using n i by (auto simp: e_def fix_list_frame nth_list_swap)
  show "x = xs ! i"
    using last len by (simp add: x last_conv_nth [OF dne])
  show "mset xs = add_mset x (mset ys)"
    using mset_butlast_add [OF dne] mset by (simp add: x ys)
  have "is_heap lt e ?n"
  proof (cases "?n = i")
    case True
    then show ?thesis using is_heap_prefix [OF h, of ?n] by (simp add: e_def)
  next
    case False
    then have "i < ?n" using i by simp
    moreover have "hole lt ?s ?n i"
      using is_heap_prefix [OF h, of ?n] n \<open>i < ?n\<close>
      by (intro hole_of_change [OF _ _ _ V]) (auto simp: nth_list_swap)
    ultimately show ?thesis
      using fix_list_heap [of ?s ?n i] False V n i by (simp add: e_def)
  qed
  then show "is_heap lt ys (length ys)"
    using removed_heap [of e] len by (simp add: ys)
qed

end

end
