(* ===== verification/PrioQueue.thy ===== *)
theory PrioQueue
  imports HeapArray
begin

text \<open>
  \<open>internal/prioqueue/prioqueue.go\<close>: a min-heap of items behind \<open>container/heap\<close>.

  An \<open>Item\<close> is shared: the queue keeps the pointer in \<open>items\<close> and the caller keeps the
  pointer that \<open>Push\<close> returned, to hand it to \<open>Update\<close> or \<open>Remove\<close> later. So items live
  in a store: a pointer is an address, \<open>mem\<close> maps addresses to items and \<open>fresh\<close> is the
  next unused address. The comparison of the \<open>Less\<close> field is an argument of the operations,
  since in the scheduler it reads task objects that are mutable themselves.
\<close>

section \<open>State\<close>

definition undefinedIndex :: int where
  "undefinedIndex = - (2 ^ 63)"

record 'v item =
  Value :: 'v
  index :: int

record 'v prioqueue =
  items :: "nat list"
  mem :: "nat \<Rightarrow> 'v item"
  fresh :: nat

type_synonym 'v less_func = "'v \<Rightarrow> 'v \<Rightarrow> bool"

section \<open>The heap adapter\<close>

definition heapLen :: "'v prioqueue \<Rightarrow> nat" where
  "heapLen q = length (items q)"

definition heapLess :: "'v less_func \<Rightarrow> 'v prioqueue \<Rightarrow> nat \<Rightarrow> nat \<Rightarrow> bool" where
  "heapLess lt q i j = lt (Value (mem q (items q ! i))) (Value (mem q (items q ! j)))"

definition set_index :: "nat \<Rightarrow> int \<Rightarrow> 'v prioqueue \<Rightarrow> 'v prioqueue" where
  "set_index a k q = q\<lparr>mem := (mem q)(a := (mem q a)\<lparr>index := k\<rparr>)\<rparr>"

definition heapSwap :: "'v prioqueue \<Rightarrow> nat \<Rightarrow> nat \<Rightarrow> 'v prioqueue" where
  "heapSwap q i j =
     (let q1 = q\<lparr>items := list_swap (items q) i j\<rparr>;
          q2 = set_index (items q1 ! i) (int i) q1
      in set_index (items q2 ! j) (int j) q2)"

definition heapPush :: "'v prioqueue \<Rightarrow> nat \<Rightarrow> 'v prioqueue may_panic" where
  "heapPush q a =
     (if index (mem q a) \<noteq> undefinedIndex then Inl (Panic ''item already part of a heap'')
      else
        let q1 = q\<lparr>items := items q @ [a]\<rparr>
        in Inr (set_index a (int (length (items q1)) - 1) q1))"

definition heapPop :: "'v prioqueue \<Rightarrow> nat \<times> 'v prioqueue" where
  "heapPop q =
     (let n = length (items q);
          a = items q ! (n - 1)
      in (a, set_index a undefinedIndex (q\<lparr>items := take (n - 1) (items q)\<rparr>)))"

section \<open>The loops of the heap library on queue items\<close>

function heap_up :: "'v less_func \<Rightarrow> 'v prioqueue \<Rightarrow> nat \<Rightarrow> 'v prioqueue" where
  "heap_up lt q j =
     (let i = (j - 1) div 2 in
      if i = j \<or> \<not> heapLess lt q j i then q
      else heap_up lt (heapSwap q i j) i)"
  by pat_completeness auto
termination
  by (relation "measure (\<lambda>(lt, q, j). j)") auto

function heap_down :: "'v less_func \<Rightarrow> 'v prioqueue \<Rightarrow> nat \<Rightarrow> nat \<Rightarrow> 'v prioqueue \<times> nat" where
  "heap_down lt q i n =
     (let j1 = 2 * i + 1 in
      if n \<le> j1 then (q, i)
      else
        let j2 = j1 + 1;
            j = (if j2 < n \<and> heapLess lt q j2 j1 then j2 else j1)
        in if \<not> heapLess lt q j i then (q, i)
           else heap_down lt (heapSwap q i j) j n)"
  by pat_completeness auto
termination
  by (relation "measure (\<lambda>(lt, q, i, n). n - i)") (auto split: if_splits)

declare heap_up.simps [simp del] heap_down.simps [simp del]

definition heap_fix :: "'v less_func \<Rightarrow> 'v prioqueue \<Rightarrow> nat \<Rightarrow> nat \<Rightarrow> 'v prioqueue" where
  "heap_fix lt q i n = (let (q1, k) = heap_down lt q i n in if i < k then q1 else heap_up lt q1 i)"

section \<open>The queue\<close>

definition Len :: "'v prioqueue \<Rightarrow> nat" where
  "Len q = length (items q)"

definition Push :: "'v less_func \<Rightarrow> 'v prioqueue \<Rightarrow> 'v \<Rightarrow> (nat \<times> 'v prioqueue) may_panic" where
  "Push lt q v =
     (let a = fresh q;
          q1 = q\<lparr>mem := (mem q)(a := \<lparr>Value = v, index = undefinedIndex\<rparr>), fresh := Suc a\<rparr>
      in case heapPush q1 a of
           Inl p \<Rightarrow> Inl p
         | Inr q2 \<Rightarrow> Inr (a, heap_up lt q2 (heapLen q2 - 1)))"

definition Pop :: "'v less_func \<Rightarrow> 'v prioqueue \<Rightarrow> 'v option \<times> 'v prioqueue" where
  "Pop lt q =
     (if length (items q) = 0 then (None, q)
      else
        let n = heapLen q - 1;
            q1 = heapSwap q 0 n;
            q2 = fst (heap_down lt q1 0 n);
            (a, q3) = heapPop q2
        in (Some (Value (mem q3 a)), q3))"

definition Peek :: "'v prioqueue \<Rightarrow> 'v option" where
  "Peek q = (if length (items q) = 0 then None else Some (Value (mem q (items q ! 0))))"

fun Clear_loop :: "'v less_func \<Rightarrow> nat \<Rightarrow> 'v prioqueue \<Rightarrow> 'v prioqueue" where
  "Clear_loop lt 0 q = q"
| "Clear_loop lt (Suc c) q = Clear_loop lt c (snd (Pop lt q))"

definition Clear :: "'v less_func \<Rightarrow> 'v prioqueue \<Rightarrow> 'v prioqueue" where
  "Clear lt q = Clear_loop lt (length (items q)) q"

text \<open>
  \<open>heap.Fix\<close> and \<open>heap.Remove\<close> index the slice with the item's \<open>index\<close>; Go panics when it
  is out of range, which is the case for an item that is in no queue (\<open>undefinedIndex\<close>).
\<close>

definition in_range :: "'v prioqueue \<Rightarrow> int \<Rightarrow> bool" where
  "in_range q i \<longleftrightarrow> 0 \<le> i \<and> i < int (length (items q))"

definition Update :: "'v less_func \<Rightarrow> 'v prioqueue \<Rightarrow> nat \<Rightarrow> 'v prioqueue may_panic" where
  "Update lt q a =
     (let i = index (mem q a)
      in if in_range q i then Inr (heap_fix lt q (nat i) (heapLen q))
         else Inl (Panic ''index out of range''))"

definition Remove :: "'v less_func \<Rightarrow> 'v prioqueue \<Rightarrow> nat \<Rightarrow> 'v prioqueue may_panic" where
  "Remove lt q a =
     (let i = index (mem q a) in
      if in_range q i then
        let n = heapLen q - 1;
            q1 = (if n \<noteq> nat i then heap_fix lt (heapSwap q (nat i) n) (nat i) n else q)
        in Inr (snd (heapPop q1))
      else Inl (Panic ''index out of range''))"

definition new_queue :: "'v prioqueue" where
  "new_queue = \<lparr>items = [], mem = (\<lambda>_. \<lparr>Value = undefined, index = undefinedIndex\<rparr>), fresh = 0\<rparr>"

section \<open>Values of a queue and refinement to lists\<close>

definition vals :: "'v prioqueue \<Rightarrow> 'v list" where
  "vals q = map (\<lambda>a. Value (mem q a)) (items q)"

lemma length_vals [simp]: "length (vals q) = length (items q)"
  by (simp add: vals_def)

lemma set_index_simps [pq_simps]:
  "items (set_index a k q) = items q"
  "fresh (set_index a k q) = fresh q"
  "Value (mem (set_index a k q) b) = Value (mem q b)"
  "index (mem (set_index a k q) b) = (if b = a then k else index (mem q b))"
  by (auto simp: set_index_def)

lemma heapSwap_simps [pq_simps]:
  "items (heapSwap q i j) = list_swap (items q) i j"
  "fresh (heapSwap q i j) = fresh q"
  "Value (mem (heapSwap q i j) b) = Value (mem q b)"
  by (simp_all add: heapSwap_def Let_def pq_simps)

lemma heapLess_vals:
  "i < length (items q) \<Longrightarrow> j < length (items q) \<Longrightarrow> heapLess lt q i j = lt (vals q ! i) (vals q ! j)"
  by (simp add: heapLess_def vals_def)

lemma vals_heapSwap:
  "i < length (items q) \<Longrightarrow> j < length (items q) \<Longrightarrow> vals (heapSwap q i j) = list_swap (vals q) i j"
  by (simp add: vals_def pq_simps map_list_swap)

lemma vals_set_index [simp]: "vals (set_index a k q) = vals q"
  by (simp add: vals_def pq_simps)

text \<open>\<open>same_items q p\<close>: \<open>p\<close> holds the same item objects as \<open>q\<close>, possibly elsewhere.\<close>

definition same_items :: "'v prioqueue \<Rightarrow> 'v prioqueue \<Rightarrow> bool" where
  "same_items q p \<longleftrightarrow>
     mset (items p) = mset (items q) \<and> fresh p = fresh q \<and>
     (\<forall>a. Value (mem p a) = Value (mem q a)) \<and>
     (\<forall>a. a \<notin> set (items q) \<longrightarrow> index (mem p a) = index (mem q a))"

definition indexed :: "'v prioqueue \<Rightarrow> bool" where
  "indexed q \<longleftrightarrow> (\<forall>k < length (items q). index (mem q (items q ! k)) = int k)"

lemma same_items_refl [simp]: "same_items q q"
  by (simp add: same_items_def)

lemma same_items_trans: "same_items q p \<Longrightarrow> same_items p r \<Longrightarrow> same_items q r"
  unfolding same_items_def by (metis mset_eq_setD)

lemma same_items_heapSwap:
  "i < length (items q) \<Longrightarrow> j < length (items q) \<Longrightarrow> same_items q (heapSwap q i j)"
  by (auto simp: same_items_def pq_simps heapSwap_def Let_def nth_list_swap)

lemma indexed_heapSwap:
  assumes "distinct (items q)" "indexed q" "i < length (items q)" "j < length (items q)"
  shows "indexed (heapSwap q i j)"
  using assms
  by (auto simp: indexed_def heapSwap_def Let_def pq_simps nth_list_swap nth_eq_iff_index_eq)

lemma same_items_length: "same_items q p \<Longrightarrow> length (items p) = length (items q)"
  unfolding same_items_def by (metis size_mset)

lemma same_items_set: "same_items q p \<Longrightarrow> set (items p) = set (items q)"
  unfolding same_items_def by (metis mset_eq_setD)

lemma same_items_distinct: "same_items q p \<Longrightarrow> distinct (items p) = distinct (items q)"
  unfolding same_items_def by (metis mset_eq_imp_distinct_iff)

text \<open>\<open>refines q p xs\<close>: \<open>p\<close> reorders the items of \<open>q\<close> so that their values form \<open>xs\<close>.\<close>

definition refines :: "'v prioqueue \<Rightarrow> 'v prioqueue \<Rightarrow> 'v list \<Rightarrow> bool" where
  "refines q p xs \<longleftrightarrow> same_items q p \<and> indexed p \<and> vals p = xs"

lemma refines_step:
  "i < length (items q) \<Longrightarrow> j < length (items q) \<Longrightarrow> refines (heapSwap q i j) p xs \<Longrightarrow> refines q p xs"
  unfolding refines_def using same_items_heapSwap same_items_trans by blast

lemma heap_up_refines:
  "distinct (items q) \<Longrightarrow> indexed q \<Longrightarrow> j < length (items q) \<Longrightarrow>
   refines q (heap_up lt q j) (up_list lt (vals q) j)"
proof (induction lt q j rule: heap_up.induct)
  case (1 lt q j)
  let ?i = "(j - 1) div 2"
  have i: "?i < length (items q)" using "1.prems" by simp
  have less: "heapLess lt q j ?i = lt (vals q ! j) (vals q ! ?i)"
    using "1.prems" i by (intro heapLess_vals)
  show ?case
  proof (cases "?i = j \<or> \<not> heapLess lt q j ?i")
    case True
    then show ?thesis
      using "1.prems" less
      by (simp add: heap_up.simps [of lt q j] up_list.simps [of lt "vals q" j] Let_def refines_def)
  next
    case False
    have "refines (heapSwap q ?i j) (heap_up lt (heapSwap q ?i j) ?i)
            (up_list lt (vals (heapSwap q ?i j)) ?i)"
      using "1.IH" [OF refl False] "1.prems" i by (simp add: pq_simps indexed_heapSwap)
    then show ?thesis
      using False less "1.prems" i refines_step [of ?i q j]
      by (simp add: heap_up.simps [of lt q j] up_list.simps [of lt "vals q" j] Let_def vals_heapSwap)
  qed
qed

lemma heap_down_refines:
  "distinct (items q) \<Longrightarrow> indexed q \<Longrightarrow> n \<le> length (items q) \<Longrightarrow> i < length (items q) \<Longrightarrow>
   refines q (fst (heap_down lt q i n)) (fst (down_list lt (vals q) i n)) \<and>
   snd (heap_down lt q i n) = snd (down_list lt (vals q) i n)"
proof (induction lt q i n rule: heap_down.induct)
  case (1 lt q i n)
  let ?j1 = "2 * i + 1"
  define j where "j = (if ?j1 + 1 < n \<and> heapLess lt q (?j1 + 1) ?j1 then ?j1 + 1 else ?j1)"
  show ?case
  proof (cases "n \<le> ?j1")
    case True
    then show ?thesis
      using "1.prems" by (simp add: heap_down.simps [of lt q i n] down_list_stop Let_def refines_def)
  next
    case False
    have j: "j = min_child lt (vals q) i n"
      using False "1.prems" by (auto simp: j_def min_child_def Let_def heapLess_vals)
    have jn: "j < length (items q)"
      using False "1.prems" by (auto simp: j_def)
    have down: "heap_down lt q i n =
        (if \<not> heapLess lt q j i then (q, i) else heap_down lt (heapSwap q i j) j n)"
      using False by (subst heap_down.simps) (simp add: j_def Let_def)
    have less: "heapLess lt q j i = lt (vals q ! j) (vals q ! i)"
      using jn "1.prems" by (intro heapLess_vals)
    show ?thesis
    proof (cases "heapLess lt q j i")
      case stop: False
      then show ?thesis
        using "1.prems" less by (simp add: down down_list_stop j [symmetric] refines_def)
    next
      case True
      have "refines (heapSwap q i j) (fst (heap_down lt (heapSwap q i j) j n))
              (fst (down_list lt (vals (heapSwap q i j)) j n)) \<and>
            snd (heap_down lt (heapSwap q i j) j n) = snd (down_list lt (vals (heapSwap q i j)) j n)"
        using "1.IH" [OF refl False refl j_def] True "1.prems" jn
        by (simp add: pq_simps indexed_heapSwap)
      then show ?thesis
        using True less False "1.prems" jn refines_step [of i q j]
        by (simp add: down down_list_step j [symmetric] vals_heapSwap)
    qed
  qed
qed

lemma heap_fix_refines:
  assumes "distinct (items q)" "indexed q" "n \<le> length (items q)" "i < length (items q)"
  shows "refines q (heap_fix lt q i n) (fix_list lt (vals q) i n)"
proof -
  obtain p k where d: "heap_down lt q i n = (p, k)" by fastforce
  have p: "refines q p (fst (down_list lt (vals q) i n))"
    and k: "k = snd (down_list lt (vals q) i n)"
    using heap_down_refines [OF assms, of lt] d by auto
  then have "refines p (heap_up lt p i) (up_list lt (vals p) i)"
    using assms
    by (intro heap_up_refines) (auto simp: refines_def same_items_distinct same_items_length)
  with p k show ?thesis
    by (auto simp: heap_fix_def fix_list_def d refines_def split: prod.split intro: same_items_trans)
qed

text \<open>Items beyond the part of the array a loop works on stay where they are.\<close>

lemma length_heap_up [simp]: "length (items (heap_up lt q j)) = length (items q)"
proof (induction lt q j rule: heap_up.induct)
  case (1 lt q j)
  then show ?case by (subst heap_up.simps) (auto simp: Let_def pq_simps)
qed

lemma heap_up_frame:
  "j < k \<Longrightarrow> k < length (items q) \<Longrightarrow> items (heap_up lt q j) ! k = items q ! k"
proof (induction lt q j rule: heap_up.induct)
  case (1 lt q j)
  then show ?case by (subst heap_up.simps) (auto simp: Let_def pq_simps nth_list_swap)
qed

lemma heap_down_frame:
  "n \<le> k \<Longrightarrow> k < length (items q) \<Longrightarrow> i < n \<Longrightarrow>
   items (fst (heap_down lt q i n)) ! k = items q ! k \<and>
   length (items (fst (heap_down lt q i n))) = length (items q)"
proof (induction lt q i n rule: heap_down.induct)
  case (1 lt q i n)
  then show ?case
    by (subst (1 2) heap_down.simps) (auto simp: Let_def pq_simps nth_list_swap)
qed

lemma heap_fix_frame:
  assumes "i < n" "n \<le> k" "k < length (items q)"
  shows "items (heap_fix lt q i n) ! k = items q ! k"
  using heap_down_frame [of n k q i lt] assms
  by (cases "heap_down lt q i n") (auto simp: heap_fix_def heap_up_frame)

section \<open>Well-formed queues\<close>

text \<open>
  The invariant of a queue: items are distinct allocated objects that know their position,
  every other object is marked as not queued, and the values form a heap.
\<close>

definition pq_wf :: "'v prioqueue \<Rightarrow> bool" where
  "pq_wf q \<longleftrightarrow>
     distinct (items q) \<and> (\<forall>a \<in> set (items q). a < fresh q) \<and> indexed q \<and>
     (\<forall>a. a < fresh q \<and> a \<notin> set (items q) \<longrightarrow> index (mem q a) = undefinedIndex)"

definition pq_inv :: "'v less_func \<Rightarrow> 'v set \<Rightarrow> 'v prioqueue \<Rightarrow> bool" where
  "pq_inv lt V q \<longleftrightarrow> pq_wf q \<and> set (vals q) \<subseteq> V \<and> is_heap lt (vals q) (length (items q))"

lemma pq_wf_refines:
  assumes "pq_wf q" "refines q p xs"
  shows "pq_wf p"
proof -
  have s: "same_items q p" and ix: "indexed p" using assms(2) by (auto simp: refines_def)
  have "set (items p) = set (items q)" by (rule same_items_set [OF s])
  with s ix assms(1) same_items_distinct [OF s] show ?thesis
    by (auto simp: pq_wf_def same_items_def)
qed

lemma new_queue_inv [simp]: "pq_inv lt V new_queue"
  by (simp add: pq_inv_def pq_wf_def new_queue_def vals_def indexed_def is_heap_def)

lemma undefinedIndex_neg: "undefinedIndex < 0"
  by (simp add: undefinedIndex_def)

section \<open>The operations on well-formed queues\<close>

lemma heapPop_spec:
  assumes wf: "pq_wf q" and ne: "items q \<noteq> []" and r: "heapPop q = (a, p)"
  shows "a = last (items q)" "items p = butlast (items q)" "pq_wf p" "vals p = butlast (vals q)"
    "Value (mem p a) = last (vals q)" "index (mem p a) = undefinedIndex" "fresh p = fresh q"
    "\<And>b. Value (mem p b) = Value (mem q b)"
proof -
  have p: "p = set_index a undefinedIndex (q\<lparr>items := butlast (items q)\<rparr>)"
    and a: "a = last (items q)"
    using r ne by (auto simp: heapPop_def Let_def last_conv_nth butlast_conv_take)
  show "a = last (items q)" by (rule a)
  show items: "items p = butlast (items q)" "fresh p = fresh q"
    "\<And>b. Value (mem p b) = Value (mem q b)" "index (mem p a) = undefinedIndex"
    by (simp_all add: p pq_simps)
  show "Value (mem p a) = last (vals q)"
    using ne by (simp add: p pq_simps vals_def last_map a)
  show "vals p = butlast (vals q)"
    by (simp add: p vals_def pq_simps map_butlast)
  have "items q = butlast (items q) @ [a]" using ne a by simp
  with wf have d: "distinct (butlast (items q))" "a \<notin> set (butlast (items q))"
    "set (items q) = insert a (set (butlast (items q)))"
    by (metis pq_wf_def distinct_butlast, metis pq_wf_def distinct_append disjoint_insert(1)
        list.simps(15), metis Un_insert_right append_Nil2 list.simps(15) set_append)
  have "k < length (butlast (items q)) \<Longrightarrow> butlast (items q) ! k \<noteq> a" for k
    using d(2) by (metis nth_mem)
  with wf d show "pq_wf p"
    by (auto simp: pq_wf_def p pq_simps indexed_def nth_butlast)
qed

lemma Push_spec:
  assumes wf: "pq_wf q"
  obtains p where "Push lt q v = Inr (fresh q, p)" "pq_wf p" "vals p = push_list lt v (vals q)"
    "fresh p = Suc (fresh q)" "set (items p) = insert (fresh q) (set (items q))"
    "\<And>a. a \<noteq> fresh q \<Longrightarrow> Value (mem p a) = Value (mem q a)" "Value (mem p (fresh q)) = v"
proof -
  let ?a = "fresh q"
  define q1 where
    "q1 = q\<lparr>mem := (mem q)(?a := \<lparr>Value = v, index = undefinedIndex\<rparr>), fresh := Suc ?a\<rparr>"
  define q2 where "q2 = set_index ?a (int (length (items q))) (q1\<lparr>items := items q @ [?a]\<rparr>)"
  have new: "?a \<notin> set (items q)" using wf by (auto simp: pq_wf_def)
  have q2: "items q2 = items q @ [?a]" "fresh q2 = Suc ?a"
    "\<And>b. Value (mem q2 b) = (if b = ?a then v else Value (mem q b))"
    "\<And>b. index (mem q2 b) = (if b = ?a then int (length (items q)) else index (mem q b))"
    by (simp_all add: q2_def q1_def pq_simps)
  have push: "Push lt q v = Inr (?a, heap_up lt q2 (length (items q)))"
    by (simp add: Push_def heapPush_def Let_def q1_def [symmetric] heapLen_def q2(1) pq_simps
        split: sum.split) (simp add: q2_def q1_def pq_simps)
  have "k < length (items q) \<Longrightarrow> items q ! k \<noteq> ?a" for k
    using new nth_mem by metis
  then have ix: "indexed q2"
    using wf by (auto simp: pq_wf_def indexed_def q2 nth_append less_Suc_eq)
  have wf2: "pq_wf q2"
    using wf new ix by (auto simp: pq_wf_def q2)
  have vals2: "vals q2 = vals q @ [v]"
    using new by (auto simp: vals_def q2)
  have r: "refines q2 (heap_up lt q2 (length (items q))) (push_list lt v (vals q))"
    using heap_up_refines [of q2 "length (items q)" lt] wf2 ix
    by (simp add: pq_wf_def q2(1) vals2 push_list_def)
  then have s: "same_items q2 (heap_up lt q2 (length (items q)))" by (simp add: refines_def)
  show thesis
  proof (rule that [OF push])
    show "pq_wf (heap_up lt q2 (length (items q)))" by (rule pq_wf_refines [OF wf2 r])
    show "vals (heap_up lt q2 (length (items q))) = push_list lt v (vals q)"
      using r by (simp add: refines_def)
    show "set (items (heap_up lt q2 (length (items q)))) = insert ?a (set (items q))"
      using same_items_set [OF s] by (simp add: q2(1))
  qed (use s q2 in \<open>auto simp: same_items_def\<close>)
qed

lemma Pop_spec:
  assumes wf: "pq_wf q" and ne: "items q \<noteq> []"
  obtains a p where "Pop lt q = (Some (fst (pop_list lt (vals q))), p)" "pq_wf p"
    "vals p = snd (pop_list lt (vals q))" "fresh p = fresh q"
    "set (items q) = insert a (set (items p))" "a \<notin> set (items p)"
    "\<And>b. Value (mem p b) = Value (mem q b)" "Value (mem p a) = fst (pop_list lt (vals q))"
proof -
  let ?n = "length (items q) - 1"
  define q1 where "q1 = heapSwap q 0 ?n"
  define q2 where "q2 = fst (heap_down lt q1 0 ?n)"
  obtain a p where hp: "heapPop q2 = (a, p)" by fastforce
  have n: "?n < length (items q)" "0 < length (items q)" using ne by auto
  have w1: "distinct (items q1)" "indexed q1" "length (items q1) = length (items q)"
    using wf n by (auto simp: q1_def pq_wf_def pq_simps intro: indexed_heapSwap)
  have v1: "vals q1 = list_swap (vals q) 0 ?n" using n by (simp add: q1_def vals_heapSwap)
  have "refines q1 q2 (fst (down_list lt (list_swap (vals q) 0 ?n) 0 ?n))"
    unfolding q2_def v1 [symmetric]
    by (rule heap_down_refines [THEN conjunct1]) (use w1 n in simp_all)
  then have r: "refines q q2 (fst (down_list lt (list_swap (vals q) 0 ?n) 0 ?n))"
    unfolding q1_def by (rule refines_step [OF n(2,1)])
  then have s: "same_items q q2" and len: "length (items q2) = length (items q)"
    by (auto simp: refines_def same_items_length)
  have wf2: "pq_wf q2" by (rule pq_wf_refines [OF wf r])
  have ne2: "items q2 \<noteq> []" using len ne by (metis length_0_conv)
  note hps = heapPop_spec [OF wf2 ne2 hp]
  have pop: "pop_list lt (vals q) = (last (vals q2), butlast (vals q2))"
    using r by (simp add: pop_list_def Let_def refines_def)
  have "Pop lt q = (Some (Value (mem p a)), p)"
    using ne hp [unfolded q2_def q1_def] by (simp add: Pop_def heapLen_def Let_def)
  moreover have "set (items q) = set (items q2)" by (rule same_items_set [OF s, symmetric])
  moreover have "set (items q2) = insert a (set (items p))" "a \<notin> set (items p)"
    using wf2 hps(1,2) ne2 append_butlast_last_id [OF ne2]
    by (metis Un_insert_right append_Nil2 list.simps(15) set_append,
        metis distinct_append pq_wf_def disjoint_insert(1) list.simps(15))
  ultimately show thesis
    using that [of p a] hps pop s by (simp add: same_items_def)
qed

lemma item_index:
  assumes "pq_wf q" "a \<in> set (items q)"
  obtains i where "index (mem q a) = int i" "i < length (items q)" "items q ! i = a"
    "Value (mem q a) = vals q ! i" "in_range q (index (mem q a))"
  using assms by (auto simp: pq_wf_def indexed_def in_set_conv_nth vals_def in_range_def)

lemma Remove_spec:
  assumes wf: "pq_wf q" and a: "a \<in> set (items q)"
  obtains p i where "Remove lt q a = Inr p" "pq_wf p" "i < length (items q)"
    "Value (mem q a) = vals q ! i" "vals p = snd (remove_list lt (vals q) i)"
    "index (mem p a) = undefinedIndex" "set (items p) = set (items q) - {a}"
proof -
  from wf a obtain i where i: "index (mem q a) = int i" "i < length (items q)" "items q ! i = a"
    "Value (mem q a) = vals q ! i" "in_range q (index (mem q a))"
    by (rule item_index)
  let ?n = "length (items q) - 1"
  define q1 where
    "q1 = (if ?n \<noteq> i then heap_fix lt (heapSwap q i ?n) i ?n else q)"
  define xs where
    "xs = (if ?n \<noteq> i then fix_list lt (list_swap (vals q) i ?n) i ?n else vals q)"
  obtain b p where hp: "heapPop q1 = (b, p)" by fastforce
  have n: "?n < length (items q)" using i by auto
  have sw: "distinct (items (heapSwap q i ?n))" "indexed (heapSwap q i ?n)"
    using wf n i by (auto simp: pq_wf_def pq_simps intro: indexed_heapSwap)
  have r: "refines q q1 xs"
  proof (cases "?n = i")
    case True
    then show ?thesis using wf by (simp add: q1_def xs_def refines_def pq_wf_def)
  next
    case False
    have "refines (heapSwap q i ?n) (heap_fix lt (heapSwap q i ?n) i ?n)
            (fix_list lt (list_swap (vals q) i ?n) i ?n)"
      unfolding vals_heapSwap [OF i(2) n, symmetric]
      by (rule heap_fix_refines) (use sw i n in \<open>simp_all add: pq_simps\<close>)
    with False show ?thesis using refines_step [OF i(2) n] by (simp add: q1_def xs_def)
  qed
  then have s: "same_items q q1" and len: "length (items q1) = length (items q)"
    and xs: "vals q1 = xs"
    by (auto simp: refines_def same_items_length)
  have ne: "items q1 \<noteq> []" using len i by auto
  have wf1: "pq_wf q1" by (rule pq_wf_refines [OF wf r])
  note hps = heapPop_spec [OF wf1 ne hp]
  have rem: "Remove lt q a = Inr p"
    using i(5) hp unfolding Remove_def heapLen_def Let_def q1_def i(1) nat_int by simp
  have "items q1 ! ?n = a"
  proof (cases "?n = i")
    case False
    then have "i < ?n" using i(2) by simp
    then show ?thesis
      using n i by (simp add: q1_def heap_fix_frame pq_simps nth_list_swap)
  qed (simp add: q1_def i(3))
  then have b: "b = a" using hps(1) ne len by (simp add: last_conv_nth)
  have "items q1 = items p @ [b]" using ne hps(1,2) by simp
  then have "distinct (items p @ [b])" "set (items q1) = insert b (set (items p))"
    using wf1 by (auto simp: pq_wf_def)
  then have "set (items p) = set (items q) - {a}" using same_items_set [OF s] b by auto
  moreover have "vals p = snd (remove_list lt (vals q) i)"
    by (simp add: remove_list_def Let_def hps(4) xs xs_def)
  ultimately show thesis
    using that [OF rem hps(3) i(2)] i(4) hps(6) b by simp
qed

text \<open>
  An item that has left the queue (or was never in it) cannot be removed or updated: Go's
  slice access panics.
\<close>

lemma stale_item_panics:
  assumes "pq_wf q" "a < fresh q" "a \<notin> set (items q)"
  shows "Remove lt q a = Inl (Panic ''index out of range'')"
    and "Update lt q a = Inl (Panic ''index out of range'')"
  using assms undefinedIndex_neg
  by (auto simp: Remove_def Update_def Let_def in_range_def pq_wf_def)

lemma Update_spec:
  assumes wf: "pq_wf q" and a: "a \<in> set (items q)"
  obtains p i where "Update lt q a = Inr p" "pq_wf p" "i < length (items q)" "items q ! i = a"
    "vals p = fix_list lt (vals q) i (length (items q))" "same_items q p"
proof -
  from wf a obtain i where i: "index (mem q a) = int i" "i < length (items q)" "items q ! i = a"
    "in_range q (index (mem q a))"
    by (rule item_index)
  let ?p = "heap_fix lt q i (length (items q))"
  have r: "refines q ?p (fix_list lt (vals q) i (length (items q)))"
    using wf i by (intro heap_fix_refines) (auto simp: pq_wf_def)
  have "Update lt q a = Inr ?p" using i by (simp add: Update_def heapLen_def)
  then show thesis
    using that [of ?p i] pq_wf_refines [OF wf r] r i by (simp add: refines_def)
qed

text \<open>What the operations do to the contents, for any comparison whatsoever.\<close>

lemma Push_wf:
  assumes "pq_wf q"
  shows "\<exists>p. Push lt q v = Inr (fresh q, p) \<and> pq_wf p \<and> mset (vals p) = add_mset v (mset (vals q))"
proof (rule Push_spec [OF assms, of lt v])
  fix p assume "Push lt q v = Inr (fresh q, p)" "pq_wf p" "vals p = push_list lt v (vals q)"
  then show ?thesis by (simp add: push_list_def)
qed

lemma Pop_wf:
  assumes "pq_wf q" "items q \<noteq> []"
  shows "\<exists>p. Pop lt q = (Some (hd (vals q)), p) \<and> pq_wf p \<and>
    mset (vals q) = add_mset (hd (vals q)) (mset (vals p))"
proof (rule Pop_spec [OF assms, of lt])
  fix p assume "Pop lt q = (Some (fst (pop_list lt (vals q))), p)" "pq_wf p"
    "vals p = snd (pop_list lt (vals q))"
  moreover have "mset (vals q) = add_mset (fst (pop_list lt (vals q))) (mset (snd (pop_list lt (vals q))))"
    using assms(2) by (intro pop_list_mset) (simp add: vals_def)
  moreover have "fst (pop_list lt (vals q)) = hd (vals q)"
    using assms(2) by (intro pop_list_fst) (simp add: vals_def)
  ultimately show ?thesis by auto
qed

lemma Pop_None [simp]: "items q = [] \<Longrightarrow> Pop lt q = (None, q)"
  by (simp add: Pop_def)

lemma Clear_loop_wf:
  "pq_wf q \<Longrightarrow> n = length (items q) \<Longrightarrow> pq_wf (Clear_loop lt n q) \<and> items (Clear_loop lt n q) = []"
proof (induction n arbitrary: q)
  case (Suc n)
  then have "items q \<noteq> []" by auto
  then obtain v p where p: "Pop lt q = (Some v, p)" "pq_wf p" "mset (vals q) = add_mset v (mset (vals p))"
    using Pop_wf [OF Suc.prems(1), of lt] by blast
  from p(3) have "length (items p) = n"
    using Suc.prems(2) by (metis length_vals size_add_mset size_mset old.nat.inject)
  with p Suc.IH [of p] show ?case by simp
qed simp

lemma Clear_wf: "pq_wf q \<Longrightarrow> pq_wf (Clear lt q) \<and> items (Clear lt q) = []"
  unfolding Clear_def by (rule Clear_loop_wf) simp_all

lemma pq_inv_cong:
  assumes "pq_inv lt V q" "set (vals q) \<subseteq> V'"
    and "\<And>x y. x \<in> set (vals q) \<Longrightarrow> y \<in> set (vals q) \<Longrightarrow> lt' x y = lt x y"
  shows "pq_inv lt' V' q"
proof -
  have "above lt' (vals q) k" if k: "0 < k" "k < length (items q)" "above lt (vals q) k" for k
    using k assms(3) [of "vals q ! k" "vals q ! parent k"] less_trans [OF parent_less [OF k(1)] k(2)]
    by (simp add: above_def)
  with assms(1,2) show ?thesis by (simp add: pq_inv_def is_heap_def)
qed

section \<open>The interface of a priority queue\<close>

text \<open>
  What a client of the queue may rely on. \<open>contents\<close> is the abstract state: the multiset of
  queued values. The client lemma \<open>drain_sorted\<close> is proved from these laws alone: popping until
  the queue is empty yields every value once, in an order that never puts a smaller value later.
\<close>

fun drain :: "('q \<Rightarrow> 'v option \<times> 'q) \<Rightarrow> nat \<Rightarrow> 'q \<Rightarrow> 'v list" where
  "drain pop 0 q = []"
| "drain pop (Suc n) q =
     (case pop q of (None, _) \<Rightarrow> [] | (Some v, q') \<Rightarrow> v # drain pop n q')"

locale prio_queue =
  fixes lt :: "'v \<Rightarrow> 'v \<Rightarrow> bool"
    and V :: "'v set"
    and invar :: "'q \<Rightarrow> bool"
    and contents :: "'q \<Rightarrow> 'v multiset"
    and len :: "'q \<Rightarrow> nat"
    and push :: "'q \<Rightarrow> 'v \<Rightarrow> (nat \<times> 'q) may_panic"
    and pop :: "'q \<Rightarrow> 'v option \<times> 'q"
    and peek :: "'q \<Rightarrow> 'v option"
  assumes len_contents: "invar q \<Longrightarrow> len q = size (contents q)"
    and push_contents: "invar q \<Longrightarrow> v \<in> V \<Longrightarrow>
      \<exists>a q'. push q v = Inr (a, q') \<and> invar q' \<and> contents q' = add_mset v (contents q)"
    and pop_empty: "invar q \<Longrightarrow> contents q = {#} \<Longrightarrow> pop q = (None, q)"
    and pop_min: "invar q \<Longrightarrow> contents q \<noteq> {#} \<Longrightarrow>
      \<exists>v q'. pop q = (Some v, q') \<and> invar q' \<and> contents q = add_mset v (contents q') \<and>
        (\<forall>w \<in># contents q. \<not> lt w v)"
    and peek_pop: "invar q \<Longrightarrow> peek q = fst (pop q)"
begin

lemma drain_sorted:
  "invar q \<Longrightarrow> n = size (contents q) \<Longrightarrow>
   mset (drain pop n q) = contents q \<and> sorted_wrt (\<lambda>v w. \<not> lt w v) (drain pop n q)"
proof (induction n arbitrary: q)
  case 0
  then have "contents q = {#}" by (metis size_eq_0_iff_empty)
  then show ?case by simp
next
  case (Suc n)
  then obtain v q' where p: "pop q = (Some v, q')" "invar q'"
    "contents q = add_mset v (contents q')" "\<forall>w \<in># contents q. \<not> lt w v"
    using pop_min [of q] by (metis size_empty nat.distinct(1))
  with Suc have ih: "mset (drain pop n q') = contents q'"
    "sorted_wrt (\<lambda>v w. \<not> lt w v) (drain pop n q')"
    by simp_all
  have "w \<in> set (drain pop n q') \<Longrightarrow> \<not> lt w v" for w
    using ih(1) p(3,4) by (metis set_mset_mset insert_iff set_mset_add_mset_insert)
  with p ih show ?case by simp
qed

lemma push_then_pop_len: "invar q \<Longrightarrow> v \<in> V \<Longrightarrow> push q v = Inr (a, q') \<Longrightarrow> len q' = Suc (len q)"
  using push_contents [of q v] len_contents by fastforce

end

text \<open>The queue of the repository meets the contract for every comparison that is a heap order.\<close>

sublocale heap_order \<subseteq> pq: prio_queue lt V "pq_inv lt V" "\<lambda>q. mset (vals q)" Len "Push lt" "Pop lt" Peek
proof (unfold_locales, goal_cases)
  case (1 q)
  then show ?case by (simp add: Len_def)
next
  case (2 q v)
  then have wf: "pq_wf q" by (simp add: pq_inv_def)
  obtain p where p: "Push lt q v = Inr (fresh q, p)" "pq_wf p" "vals p = push_list lt v (vals q)"
    using Push_spec [OF wf, of lt v] by metis
  have m: "mset (push_list lt v (vals q)) = add_mset v (mset (vals q))"
    by (simp add: push_list_def)
  have "set (vals p) \<subseteq> V" using m 2 p(3) by (metis pq_inv_def insert_subset set_mset_add_mset_insert set_mset_mset)
  moreover have "length (items p) = length (push_list lt v (vals q))"
    using p(3) by (metis length_vals)
  ultimately have "pq_inv lt V p"
    using push_list_heap [of "vals q" v] 2 p by (simp add: pq_inv_def)
  with p m show ?case by simp
next
  case (3 q)
  then show ?case by (simp add: Pop_def vals_def)
next
  case (4 q)
  then have wf: "pq_wf q" and ne: "items q \<noteq> []" and h: "is_heap lt (vals q) (length (vals q))"
    and V: "set (vals q) \<subseteq> V" and vne: "vals q \<noteq> []"
    by (auto simp: pq_inv_def vals_def)
  obtain p where p: "Pop lt q = (Some (fst (pop_list lt (vals q))), p)" "pq_wf p"
    "vals p = snd (pop_list lt (vals q))"
    using Pop_spec [OF wf ne, of lt] by metis
  obtain x ys where r: "pop_list lt (vals q) = (x, ys)" by fastforce
  note ph = pop_list_heap [OF h V vne r]
  have "length (items p) = length ys" using p(3) r by (metis length_vals snd_conv)
  moreover have "set ys \<subseteq> V" using ph(2) V by (metis insert_subset set_mset_add_mset_insert set_mset_mset)
  ultimately have "pq_inv lt V p" using p r ph by (simp add: pq_inv_def)
  moreover have "\<forall>w \<in># mset (vals q). \<not> lt w x"
    using pop_list_least [OF h V vne] r by simp
  ultimately show ?case using p r ph(2) by auto
next
  case (5 q)
  show ?case
  proof (cases "items q = []")
    case True
    then show ?thesis by (simp add: Peek_def Pop_def)
  next
    case False
    then have wf: "pq_wf q" and h: "is_heap lt (vals q) (length (vals q))"
      and V: "set (vals q) \<subseteq> V" and vne: "vals q \<noteq> []"
      using 5 by (auto simp: pq_inv_def vals_def)
    obtain x ys where r: "pop_list lt (vals q) = (x, ys)" by fastforce
    show ?thesis
    proof (rule Pop_spec [OF wf False, of lt])
      fix p assume "Pop lt q = (Some (fst (pop_list lt (vals q))), p)"
      then show ?thesis
        using pop_list_heap(1) [OF h V vne r] r False by (simp add: Peek_def vals_def)
    qed
  qed
qed

section \<open>Properties of the queue\<close>

text \<open>Pushing a list of values one after the other.\<close>

fun PushAll :: "'v less_func \<Rightarrow> 'v prioqueue \<Rightarrow> 'v list \<Rightarrow> 'v prioqueue may_panic" where
  "PushAll lt q [] = Inr q"
| "PushAll lt q (v # vs) =
     (case Push lt q v of Inl p \<Rightarrow> Inl p | Inr (_, q') \<Rightarrow> PushAll lt q' vs)"

text \<open>
  The comparison may change its mind about one value: \<open>agree_except lt lt' q a\<close> says that two
  comparisons order all queued values the same way but for the value of item \<open>a\<close>.
\<close>

definition agree_except :: "'v less_func \<Rightarrow> 'v less_func \<Rightarrow> 'v prioqueue \<Rightarrow> nat \<Rightarrow> bool" where
  "agree_except lt lt' q a \<longleftrightarrow>
     (\<forall>b \<in> set (items q). \<forall>c \<in> set (items q). b \<noteq> a \<longrightarrow> c \<noteq> a \<longrightarrow>
        lt' (Value (mem q b)) (Value (mem q c)) = lt (Value (mem q b)) (Value (mem q c)))"

lemma hole_agree:
  assumes "agree_except lt lt' q a" "pq_wf q" "items q ! i = a" "i < length (items q)"
    "hole lt (vals q) (length (items q)) i"
  shows "hole lt' (vals q) (length (items q)) i"
proof -
  have *: "lt' (vals q ! k) (vals q ! j) = lt (vals q ! k) (vals q ! j)"
    if "k < length (items q)" "j < length (items q)" "k \<noteq> i" "j \<noteq> i" for k j
    using assms(1-4) that
    by (auto simp: agree_except_def pq_wf_def vals_def nth_eq_iff_index_eq)
  have par: "0 < k \<Longrightarrow> k < length (items q) \<Longrightarrow> parent k < length (items q)" for k
    using parent_less [of k] by linarith
  show ?thesis
    unfolding hole_def above_def
  proof (intro conjI allI impI; elim conjE)
    fix k assume "0 < k" "k < length (items q)" "k \<noteq> i" "parent k \<noteq> i"
    then show "\<not> lt' (vals q ! k) (vals q ! parent k)"
      using assms(5) par [of k] * [of k "parent k"] by (simp add: hole_def above_def)
  next
    fix k assume "0 < k" "k < length (items q)" "parent k = i" "0 < i"
    then show "\<not> lt' (vals q ! k) (vals q ! parent i)"
      using assms(4,5) par [of i] * [of k "parent i"] parent_less [of k] parent_less [of i]
      by (auto simp: hole_def)
  qed
qed

context heap_order
begin

lemma PushAll_inv:
  "pq_inv lt V q \<Longrightarrow> set vs \<subseteq> V \<Longrightarrow>
    \<exists>p. PushAll lt q vs = Inr p \<and> pq_inv lt V p \<and> mset (vals p) = mset (vals q) + mset vs"
proof (induction vs arbitrary: q)
  case (Cons v vs)
  then obtain a q' where "Push lt q v = Inr (a, q')" "pq_inv lt V q'"
    "mset (vals q') = add_mset v (mset (vals q))"
    using pq.push_contents by (metis insert_subset list.simps(15))
  with Cons.IH [of q'] Cons.prems show ?case by auto
qed simp

lemmas drain_pops = pq.drain_sorted

lemmas Pop_inv = pq.pop_min

lemma Clear_loop_empty:
  "pq_inv lt V q \<Longrightarrow> n = Len q \<Longrightarrow> Len (Clear_loop lt n q) = 0 \<and> pq_inv lt V (Clear_loop lt n q)"
proof (induction n arbitrary: q)
  case (Suc n)
  then have "mset (vals q) \<noteq> {#}"
    using pq.len_contents [OF Suc.prems(1)] by (metis nat.distinct(1) size_empty)
  then obtain v q' where "Pop lt q = (Some v, q')" "pq_inv lt V q'"
    "mset (vals q) = add_mset v (mset (vals q'))"
    using pq.pop_min [OF Suc.prems(1)] by blast
  moreover from this have "Len q' = n"
    using pq.len_contents [OF Suc.prems(1)] pq.len_contents [of q'] Suc.prems(2) by simp
  ultimately show ?case using Suc.IH [of q'] by simp
qed simp

lemma Clear_empty: "pq_inv lt V q \<Longrightarrow> Len (Clear lt q) = 0 \<and> pq_inv lt V (Clear lt q)"
  unfolding Clear_def by (rule Clear_loop_empty) (simp_all add: Len_def)

lemma Remove_inv:
  assumes inv: "pq_inv lt V q" and a: "a \<in> set (items q)"
  shows "\<exists>p. Remove lt q a = Inr p \<and> pq_inv lt V p \<and> set (items p) = set (items q) - {a} \<and>
    mset (vals q) = add_mset (Value (mem q a)) (mset (vals p)) \<and>
    index (mem p a) = undefinedIndex"
proof -
  have wf: "pq_wf q" and h: "is_heap lt (vals q) (length (vals q))" and V: "set (vals q) \<subseteq> V"
    using inv by (auto simp: pq_inv_def)
  obtain p i where p: "Remove lt q a = Inr p" "pq_wf p" "i < length (items q)"
    "Value (mem q a) = vals q ! i" "vals p = snd (remove_list lt (vals q) i)"
    "index (mem p a) = undefinedIndex" "set (items p) = set (items q) - {a}"
    by (rule Remove_spec [OF wf a])
  obtain x ys where r: "remove_list lt (vals q) i = (x, ys)" by fastforce
  have "i < length (vals q)" using p(3) by simp
  note rl = remove_list_heap [OF h V this r]
  have "length (items p) = length ys" using p(5) r by (metis length_vals snd_conv)
  moreover have "set ys \<subseteq> V" using rl(2) V by (metis insert_subset set_mset_add_mset_insert set_mset_mset)
  ultimately have "pq_inv lt V p" using p r rl by (simp add: pq_inv_def)
  with p r rl show ?thesis by auto
qed

lemma Update_inv:
  assumes wf: "pq_wf q" and V: "set (vals q) \<subseteq> V" and a: "a \<in> set (items q)"
    and h: "hole lt (vals q) (length (items q)) i" "items q ! i = a" "i < length (items q)"
  shows "\<exists>p. Update lt q a = Inr p \<and> pq_inv lt V p \<and> same_items q p"
proof -
  obtain p k where p: "Update lt q a = Inr p" "pq_wf p" "k < length (items q)" "items q ! k = a"
    "vals p = fix_list lt (vals q) k (length (items q))" "same_items q p"
    by (rule Update_spec [OF wf a])
  have "k = i" using wf p(3,4) h(2,3) by (auto simp: pq_wf_def nth_eq_iff_index_eq)
  then have "is_heap lt (vals p) (length (items q))"
    using p(5) h V by (auto intro: fix_list_heap)
  moreover have "set (vals p) \<subseteq> V"
    using p(3,5) V mset_fix_list [of k "vals q" "length (items q)" lt]
    by (metis length_vals mset_eq_setD order_refl)
  ultimately show ?thesis using p same_items_length [OF p(6)] by (auto simp: pq_inv_def)
qed

end

text \<open>
  C15 (functional): values pushed in any order come out of repeated \<open>Pop\<close> calls completely, each
  as often as it was pushed, and sorted: no value is followed by one that is less than it.
\<close>

theorem push_all_pop_all_sorted:
  assumes "heap_order lt V" "set vs \<subseteq> V"
  shows "\<exists>q. PushAll lt new_queue vs = Inr q \<and> Len q = length vs \<and>
    mset (drain (Pop lt) (Len q) q) = mset vs \<and>
    sorted_wrt (\<lambda>v w. \<not> lt w v) (drain (Pop lt) (Len q) q)"
proof -
  obtain q where q: "PushAll lt new_queue vs = Inr q" "pq_inv lt V q" "mset (vals q) = mset vs"
    using heap_order.PushAll_inv [OF assms(1) new_queue_inv assms(2)]
    by (auto simp: new_queue_def vals_def)
  have "Len q = size (mset (vals q))" by (simp add: Len_def)
  with heap_order.drain_pops [OF assms(1) q(2)] q show ?thesis by simp
qed

lemma int_heap_order: "heap_order ((<) :: int \<Rightarrow> int \<Rightarrow> bool) UNIV"
  by unfold_locales auto

text \<open>A queue with two items, used as a concrete input below.\<close>

definition sample_queue :: "int prioqueue" where
  "sample_queue =
     \<lparr>items = [1, 0],
      mem = (\<lambda>a. if a = 1 then \<lparr>Value = 5, index = 0\<rparr>
                 else if a = 0 then \<lparr>Value = 8, index = 1\<rparr>
                 else \<lparr>Value = 0, index = undefinedIndex\<rparr>),
      fresh = 3\<rparr>"

lemma sample_queue_inv: "pq_inv (<) UNIV sample_queue"
  by (auto simp: pq_inv_def pq_wf_def sample_queue_def indexed_def vals_def is_heap_def above_def
      parent_def less_Suc_eq)

lemma rank_heap_order: "heap_order (\<lambda>v w. f v < (f w :: int)) UNIV"
  by unfold_locales auto

theorem push_all_pop_all_sorted_witness:
  "heap_order ((<) :: int \<Rightarrow> int \<Rightarrow> bool) UNIV \<and> set [3, 1, 2, 1 :: int] \<subseteq> UNIV \<and>
   (\<exists>q. PushAll (<) new_queue [3, 1, 2, 1 :: int] = Inr q \<and> Len q = 4 \<and>
      drain (Pop (<)) (Len q) q = [1, 1, 2, 3])"
proof -
  obtain q where q: "PushAll (<) new_queue [3, 1, 2, 1 :: int] = Inr q"
    "Len q = length [3, 1, 2, 1 :: int]"
    "mset (drain (Pop (<)) (Len q) q) = mset [3, 1, 2, 1]"
    "sorted_wrt (\<lambda>v w. \<not> w < v) (drain (Pop (<)) (Len q) q)"
    using push_all_pop_all_sorted [OF int_heap_order, of "[3, 1, 2, 1]"] by blast
  then have "sorted (drain (Pop (<)) (Len q) q)" by (simp add: not_less)
  then have "drain (Pop (<)) (Len q) q = sort [3, 1, 2, 1]"
    using q(3) by (metis properties_for_sort)
  then have "drain (Pop (<)) (Len q) q = [1, 1, 2, 3]" by simp
  moreover have "Len q = 4" using q(2) by simp
  ultimately show ?thesis using q(1) int_heap_order by blast
qed

text \<open>
  C16 (invariant): \<open>Remove\<close> takes exactly the given item out of the queue, wherever it is: the
  other items and their values stay, the heap order and the positions recorded in the items are
  kept, and the removed item is marked, so that removing or updating it again panics.
\<close>

theorem remove_exact:
  assumes "heap_order lt V" "pq_inv lt V q" "a \<in> set (items q)"
  shows "\<exists>p. Remove lt q a = Inr p \<and> pq_inv lt V p \<and> set (items p) = set (items q) - {a} \<and>
    mset (vals q) = add_mset (Value (mem q a)) (mset (vals p)) \<and>
    Remove lt p a = Inl (Panic ''index out of range'') \<and>
    Update lt p a = Inl (Panic ''index out of range'')"
proof -
  obtain p where p: "Remove lt q a = Inr p" "pq_inv lt V p" "set (items p) = set (items q) - {a}"
    "mset (vals q) = add_mset (Value (mem q a)) (mset (vals p))" "index (mem p a) = undefinedIndex"
    using heap_order.Remove_inv [OF assms] by blast
  then have "\<not> in_range p (index (mem p a))"
    by (simp add: in_range_def undefinedIndex_def)
  then have "Remove lt p a = Inl (Panic ''index out of range'')"
    "Update lt p a = Inl (Panic ''index out of range'')"
    by (simp_all add: Remove_def Update_def Let_def)
  with p show ?thesis by blast
qed

theorem remove_exact_witness:
  "heap_order ((<) :: int \<Rightarrow> int \<Rightarrow> bool) UNIV \<and> pq_inv (<) UNIV sample_queue \<and>
   1 \<in> set (items sample_queue) \<and>
   (\<exists>p. Remove (<) sample_queue 1 = Inr p \<and> set (items p) = {0} \<and>
      Remove (<) p 1 = Inl (Panic ''index out of range''))"
proof -
  have m: "1 \<in> set (items sample_queue)" "set (items sample_queue) - {1} = {0}"
    by (auto simp: sample_queue_def)
  show ?thesis
    using remove_exact [OF int_heap_order sample_queue_inv m(1)] m int_heap_order sample_queue_inv
    by auto
qed

text \<open>
  C12 (functional): after the rank of one queued value has changed, \<open>Update\<close> on its item
  restores the heap order, moving items but neither adding nor losing any.
\<close>

theorem update_restores_heap:
  assumes "heap_order lt V" "heap_order lt' V" "pq_inv lt V q" "a \<in> set (items q)"
    "agree_except lt lt' q a"
  shows "\<exists>p. Update lt' q a = Inr p \<and> pq_inv lt' V p \<and> same_items q p"
proof -
  have q: "pq_wf q" "set (vals q) \<subseteq> V" "is_heap lt (vals q) (length (items q))"
    using assms(3) by (auto simp: pq_inv_def)
  obtain i where i: "i < length (items q)" "items q ! i = a"
    using assms(4) by (metis in_set_conv_nth)
  have "hole lt (vals q) (length (items q)) i"
    using heap_order.hole_of_change [OF assms(1) q(3) i(1) _ q(2)] by simp
  then have "hole lt' (vals q) (length (items q)) i"
    by (rule hole_agree [OF assms(5) q(1) i(2,1)])
  then show ?thesis
    using heap_order.Update_inv [OF assms(2) q(1,2) assms(4) _ i(2,1)] by blast
qed

theorem update_restores_heap_witness:
  "pq_inv (<) UNIV sample_queue \<and> 1 \<in> set (items sample_queue) \<and>
   agree_except (<) (\<lambda>v w. (if v = 5 then 9 else v) < (if w = 5 then 9 else w)) sample_queue 1 \<and>
   (\<exists>p. Update (\<lambda>v w. (if v = 5 then 9 else v) < (if w = 5 then 9 else w)) sample_queue 1 = Inr p \<and>
      pq_inv (\<lambda>v w. (if v = 5 then 9 else v) < (if w = 5 then 9 else w)) UNIV p \<and>
      same_items sample_queue p)"
proof -
  have m: "1 \<in> set (items sample_queue)" by (simp add: sample_queue_def)
  have ag: "agree_except (<) (\<lambda>v w. (if v = 5 then 9 else v) < (if w = 5 then 9 else w)) sample_queue 1"
    by (auto simp: agree_except_def sample_queue_def)
  show ?thesis
    using update_restores_heap [OF int_heap_order rank_heap_order sample_queue_inv m ag]
      sample_queue_inv m ag by blast
qed

end
