(* ===== verification/GoErrors.thy ===== *)
theory GoErrors
  imports Prelude
begin

text \<open>
  Go error values and \<open>internal/scheduler/taskerror.go\<close>.

  An error is a tree: \<open>errors.New\<close> makes a leaf, \<open>fmt.Errorf\<close> with \<open>%w\<close> wraps one error,
  an error whose \<open>Unwrap\<close> method returns a slice joins several. A system call failure is a leaf
  that carries its number, a \<open>cmdemu.ExitCodeError\<close> a leaf that is one. A \<open>*scheduler.TaskError\<close> is an error of its own; the nil pointer of
  that type is an error value too. The nil error is \<open>None\<close> in the type \<open>goerr option\<close>.
\<close>

datatype errno = EEXIST | ENOTEMPTY | ENOENT | ENOTDIR | EISDIR | ELOOP | EINVAL | ENAMETOOLONG | EACCES | EXDEV | EOTHER int

datatype goerr =
    ErrNew string
  | ErrNo errno
  | ErrWrap string goerr
  | ErrJoin "goerr list"
  | ErrTask "goerr option" duration
  | ErrTaskNil
  | ErrExitCode int

type_synonym err = "goerr option"

text \<open>
  \<open>os.IsExist\<close> and \<open>os.IsNotExist\<close> look at the error of the failed system call only: they
  predate error wrapping and do not unwrap. Two error numbers count as \<open>ErrExist\<close>.
\<close>

definition os_IsExist :: "goerr \<Rightarrow> bool" where
  "os_IsExist e \<longleftrightarrow> e = ErrNo EEXIST \<or> e = ErrNo ENOTEMPTY"

definition os_IsNotExist :: "goerr \<Rightarrow> bool" where
  "os_IsNotExist e \<longleftrightarrow> e = ErrNo ENOENT"

text \<open>\<open>errors.Is\<close>: the target occurs in the error's tree.\<close>

fun errors_Is :: "goerr \<Rightarrow> goerr \<Rightarrow> bool"
and errors_Is_any :: "goerr list \<Rightarrow> goerr \<Rightarrow> bool" where
  "errors_Is (ErrWrap m e) t = (ErrWrap m e = t \<or> errors_Is e t)"
| "errors_Is (ErrJoin es) t = (ErrJoin es = t \<or> errors_Is_any es t)"
| "errors_Is (ErrTask (Some e) d) t = (ErrTask (Some e) d = t \<or> errors_Is e t)"
| "errors_Is e t = (e = t)"
| "errors_Is_any [] t = False"
| "errors_Is_any (e # es) t = (errors_Is e t \<or> errors_Is_any es t)"

text \<open>A \<open>*TaskError\<close>: \<open>None\<close> is the nil pointer.\<close>

record TaskError =
  Err :: err
  RetryDelay :: duration

type_synonym task_error_ptr = "TaskError option"

definition Stop_delay :: duration where
  "Stop_delay = -1"

text \<open>
  \<open>errors.As(err, &te)\<close>: the first \<open>*TaskError\<close> in a depth-first, pre-order traversal of the
  error tree; the outer \<open>None\<close> means that there is none.
\<close>

fun errors_As_task :: "goerr \<Rightarrow> task_error_ptr option"
and errors_As_any :: "goerr list \<Rightarrow> task_error_ptr option" where
  "errors_As_task (ErrNew _) = None"
| "errors_As_task (ErrNo _) = None"
| "errors_As_task (ErrWrap _ e) = errors_As_task e"
| "errors_As_task (ErrJoin es) = errors_As_any es"
| "errors_As_task (ErrTask e d) = Some (Some \<lparr>Err = e, RetryDelay = d\<rparr>)"
| "errors_As_task ErrTaskNil = Some None"
| "errors_As_task (ErrExitCode _) = None"
| "errors_As_any [] = None"
| "errors_As_any (e # es) =
     (case errors_As_task e of Some p \<Rightarrow> Some p | None \<Rightarrow> errors_As_any es)"

definition AsTaskError :: "err \<Rightarrow> task_error_ptr" where
  "AsTaskError err =
     (case err of
        None \<Rightarrow> None
      | Some e \<Rightarrow>
          (case errors_As_task e of
             Some te \<Rightarrow> te
           | None \<Rightarrow> Some \<lparr>Err = err, RetryDelay = Stop_delay\<rparr>))"

definition Unwrap :: "task_error_ptr \<Rightarrow> err" where
  "Unwrap te = (case te of None \<Rightarrow> None | Some e \<Rightarrow> Err e)"

definition Permanent :: "task_error_ptr \<Rightarrow> bool" where
  "Permanent te = (case te of None \<Rightarrow> True | Some e \<Rightarrow> RetryDelay e < 0)"

text \<open>\<open>no_task_error e\<close>: the tree of \<open>e\<close> contains no \<open>*TaskError\<close>.\<close>

definition no_task_error :: "goerr \<Rightarrow> bool" where
  "no_task_error e \<longleftrightarrow> errors_As_task e = None"

lemma no_task_error_simps [simp]:
  "no_task_error (ErrNew m)" "no_task_error (ErrNo n)"
  "no_task_error (ErrWrap m e) = no_task_error e"
  "no_task_error (ErrJoin es) = (\<forall>e \<in> set es. no_task_error e)"
  "\<not> no_task_error (ErrTask x d)" "\<not> no_task_error ErrTaskNil" "no_task_error (ErrExitCode c)"
proof -
  have "errors_As_any es = None \<longleftrightarrow> (\<forall>e \<in> set es. no_task_error e)" for es
    by (induction es) (auto simp: no_task_error_def split: option.splits)
  then show "no_task_error (ErrJoin es) = (\<forall>e \<in> set es. no_task_error e)"
    by (simp add: no_task_error_def)
qed (simp_all add: no_task_error_def)

lemma Permanent_nil [simp]: "Permanent (AsTaskError None)"
  by (simp add: AsTaskError_def Permanent_def)

lemma Permanent_plain: "no_task_error e \<Longrightarrow> Permanent (AsTaskError (Some e))"
  by (simp add: AsTaskError_def Permanent_def no_task_error_def Stop_delay_def)

lemma Permanent_ErrTask [simp]: "Permanent (AsTaskError (Some (ErrTask e d))) \<longleftrightarrow> d < 0"
  by (simp add: AsTaskError_def Permanent_def)

lemma not_Permanent_Some:
  "\<not> Permanent te \<Longrightarrow> \<exists>e. te = Some e \<and> 0 \<le> RetryDelay e"
  by (cases te) (auto simp: Permanent_def)

section \<open>Combining errors\<close>

text \<open>
  \<open>go.uber.org/multierr\<close> is a dependency whose code is not part of the repository. Functions
  that call \<open>multierr.Append\<close> or \<open>multierr.AppendInto\<close> take it as an argument of type
  \<open>err \<Rightarrow> err \<Rightarrow> err\<close>; the predicate states what the package documents: nil errors are
  ignored, a nil result means that both were nil, and the combined error gives access to exactly
  the errors it was made from.
\<close>

type_synonym append_func = "err \<Rightarrow> err \<Rightarrow> err"

definition multierr_law :: "append_func \<Rightarrow> bool" where
  "multierr_law app \<longleftrightarrow>
     (\<forall>e. app None e = e) \<and> (\<forall>e. app e None = e) \<and>
     (\<forall>a b. \<exists>c. app (Some a) (Some b) = Some c \<and>
        (no_task_error c \<longleftrightarrow> no_task_error a \<and> no_task_error b))"

definition join_errors :: append_func where
  "join_errors a b =
     (case (a, b) of
        (None, e) \<Rightarrow> e
      | (e, None) \<Rightarrow> e
      | (Some x, Some y) \<Rightarrow> Some (ErrJoin [x, y]))"

lemma multierr_law_join_errors: "multierr_law join_errors"
  by (auto simp: multierr_law_def join_errors_def split: option.splits)

lemma multierr_law_None_iff:
  "multierr_law app \<Longrightarrow> app a b = None \<longleftrightarrow> a = None \<and> b = None"
  unfolding multierr_law_def by (cases a; cases b) (auto, metis option.distinct(1))

lemma multierr_law_simps:
  "multierr_law app \<Longrightarrow> app None e = e" "multierr_law app \<Longrightarrow> app e None = e"
  by (simp_all add: multierr_law_def)

lemma multierr_law_Some:
  "multierr_law app \<Longrightarrow> \<exists>c. app (Some a) (Some b) = Some c \<and>
     (no_task_error c \<longleftrightarrow> no_task_error a \<and> no_task_error b)"
  by (simp add: multierr_law_def)

lemma multierr_no_task_error:
  assumes "multierr_law app" "app a b = Some e"
    "\<And>x. a = Some x \<Longrightarrow> no_task_error x" "\<And>x. b = Some x \<Longrightarrow> no_task_error x"
  shows "no_task_error e"
proof (cases a)
  case None
  then show ?thesis using assms multierr_law_simps(1) [OF assms(1), of b] by simp
next
  case (Some x)
  show ?thesis
  proof (cases b)
    case None
    then show ?thesis using assms(2-) Some multierr_law_simps(2) [OF assms(1), of a] by simp
  next
    case y: (Some y)
    then show ?thesis using multierr_law_Some [OF assms(1), of x y] assms(2-) Some by auto
  qed
qed

end
