(* ===== verification/Scheduler.thy ===== *)
theory Scheduler
  imports PrioQueue GoErrors
begin

text \<open>
  \<open>internal/scheduler/scheduler.go\<close>, \<open>task.go\<close> and \<open>event.go\<close>: the state of the
  scheduler and the code of its critical sections as functions. Every access to the
  scheduler's fields in the source happens with \<open>mu\<close> held, so one critical section is one
  function here; theory \<open>SchedulerSystem\<close> interleaves them.

  Task objects are shared between the queues and the goroutine that runs them, so a queue holds
  task identities and \<open>tasks\<close> maps an identity to the object.
\<close>

section \<open>State\<close>

record 'f task =
  fn :: 'f
  seq :: "64 word"
  nextAfter :: gotime
  attemptCount :: int
  seqItem :: "nat option"
  timeItem :: "nat option"

text \<open>
  An \<open>event\<close> is a channel with room for one token: \<open>Set\<close> puts a token if there is none and
  never blocks, a receive takes it.
\<close>

type_synonym event = bool

definition newEvent :: event where
  "newEvent = False"

definition Set :: "event \<Rightarrow> event" where
  "Set c = True"

record 'f scheduler =
  slots :: int
  tasksByOrder :: "nat prioqueue"
  tasksByTime :: "nat prioqueue"
  loopActiveCount :: int
  loopStopRequested :: bool
  loopNotification :: event
  loopFinished :: event
  taskContextCancelled :: bool
  taskActiveCount :: int
  taskFinished :: event
  tasks :: "nat \<Rightarrow> 'f task"
  taskFresh :: nat
  seqCounter :: "64 word"

definition set_task :: "nat \<Rightarrow> ('f task \<Rightarrow> 'f task) \<Rightarrow> 'f scheduler \<Rightarrow> 'f scheduler" where
  "set_task t f s = s\<lparr>tasks := (tasks s)(t := f (tasks s t))\<rparr>"

section \<open>Comparisons\<close>

text \<open>The \<open>Less\<close> functions of the two queues. Sequence numbers are compared by the sign of their
  difference in 64-bit arithmetic.\<close>

definition seq_less :: "64 word \<Rightarrow> 64 word \<Rightarrow> bool" where
  "seq_less a b \<longleftrightarrow> sint (a - b) < 0"

definition order_less :: "'f scheduler \<Rightarrow> nat less_func" where
  "order_less s a b = seq_less (seq (tasks s a)) (seq (tasks s b))"

definition time_less :: "'f scheduler \<Rightarrow> nat less_func" where
  "time_less s a b = Before (nextAfter (tasks s a)) (nextAfter (tasks s b))"

section \<open>Operations\<close>

function nextSequenceNumber :: "64 word \<Rightarrow> 64 word" where
  "nextSequenceNumber c = (let n = c + 1 in if n = 0 then nextSequenceNumber n else n)"
  by pat_completeness auto
termination
proof (relation "measure (\<lambda>c :: 64 word. if c + 1 = 0 then 1 else 0)")
  fix c n :: "64 word"
  assume "n = c + 1" "n = 0"
  then show "(n, c) \<in> measure (\<lambda>c :: 64 word. if c + 1 = 0 then 1 else 0)" by auto
qed simp

declare nextSequenceNumber.simps [simp del]

definition New :: "int \<Rightarrow> 64 word \<Rightarrow> (nat \<Rightarrow> 'f task) \<Rightarrow> 'f scheduler" where
  "New numCPU counter objs =
     \<lparr>slots = numCPU, tasksByOrder = new_queue, tasksByTime = new_queue,
      loopActiveCount = 0, loopStopRequested = False,
      loopNotification = newEvent, loopFinished = newEvent,
      taskContextCancelled = False, taskActiveCount = 0, taskFinished = newEvent,
      tasks = objs, taskFresh = 0, seqCounter = counter\<rparr>"

definition SetSlots :: "int \<Rightarrow> 'f scheduler \<Rightarrow> 'f scheduler" where
  "SetSlots n s = s\<lparr>slots := (if n < 1 then 1 else n)\<rparr>"

definition enqueue :: "nat \<Rightarrow> 'f scheduler \<Rightarrow> 'f scheduler may_panic" where
  "enqueue t s =
     (if seq (tasks s t) = 0 then Inl (Panic ''task lacks a sequence number'')
      else if \<not> (seqItem (tasks s t) = None \<and> timeItem (tasks s t) = None)
      then Inl (Panic ''task already in queue'')
      else if IsZero (nextAfter (tasks s t)) then
        (case Push (order_less s) (tasksByOrder s) t of
           Inl p \<Rightarrow> Inl p
         | Inr (a, q) \<Rightarrow>
             Inr (set_task t (\<lambda>x. x\<lparr>seqItem := Some a\<rparr>) (s\<lparr>tasksByOrder := q\<rparr>)))
      else
        (case Push (time_less s) (tasksByTime s) t of
           Inl p \<Rightarrow> Inl p
         | Inr (a, q) \<Rightarrow>
             Inr (set_task t (\<lambda>x. x\<lparr>timeItem := Some a\<rparr>) (s\<lparr>tasksByTime := q\<rparr>))))"

text \<open>A \<open>ScheduleOption\<close> configures a task; \<open>NextAfterDuration\<close> is the only one.\<close>

type_synonym 'f schedule_option = "'f task \<Rightarrow> 'f task"

definition NextAfterDuration :: "gotime \<Rightarrow> duration \<Rightarrow> 'f schedule_option" where
  "NextAfterDuration now d t = t\<lparr>nextAfter := AddDur now d\<rparr>"

text \<open>
  \<open>Add\<close> first makes the task object, outside the lock: \<open>newTask\<close> returns its identity.
  Then it enqueues it with the lock held, and finally signals the loop.
\<close>

definition newTask :: "'f option \<Rightarrow> 'f schedule_option list \<Rightarrow> 'f scheduler \<Rightarrow> (nat \<times> 'f scheduler) may_panic" where
  "newTask f opts s =
     (case f of
        None \<Rightarrow> Inl (Panic ''Function is nil'')
      | Some g \<Rightarrow>
          let n = nextSequenceNumber (seqCounter s);
              t = \<lparr>fn = g, seq = n, nextAfter = Time 0, attemptCount = 0,
                   seqItem = None, timeItem = None\<rparr>;
              t' = fold (\<lambda>opt x. opt x) opts t
          in Inr (taskFresh s,
               s\<lparr>tasks := (tasks s)(taskFresh s := t'), taskFresh := Suc (taskFresh s),
                 seqCounter := n\<rparr>))"

definition Add_locked :: "nat \<Rightarrow> 'f scheduler \<Rightarrow> 'f scheduler may_panic" where
  "Add_locked t s = enqueue t s"

definition notifyLoop :: "'f scheduler \<Rightarrow> 'f scheduler" where
  "notifyLoop s = s\<lparr>loopNotification := Set (loopNotification s)\<rparr>"

definition Add :: "'f option \<Rightarrow> 'f schedule_option list \<Rightarrow> 'f scheduler \<Rightarrow> 'f scheduler may_panic" where
  "Add f opts s =
     (case newTask f opts s of
        Inl p \<Rightarrow> Inl p
      | Inr (t, s1) \<Rightarrow>
          (case Add_locked t s1 of Inl p \<Rightarrow> Inl p | Inr s2 \<Rightarrow> Inr (notifyLoop s2)))"

definition popNextLocked :: "gotime \<Rightarrow> 'f scheduler \<Rightarrow> (nat option \<times> duration) \<times> 'f scheduler" where
  "popNextLocked now s =
     (let byOrder = (\<lambda>remaining.
            (case Pop (order_less s) (tasksByOrder s) of
               (None, q) \<Rightarrow> ((None, remaining), s\<lparr>tasksByOrder := q\<rparr>)
             | (Some t, q) \<Rightarrow>
                 ((Some t, remaining),
                  set_task t (\<lambda>x. x\<lparr>seqItem := None\<rparr>) (s\<lparr>tasksByOrder := q\<rparr>))))
      in case Peek (tasksByTime s) of
           None \<Rightarrow> byOrder (-1)
         | Some p \<Rightarrow>
             let remaining = Sub (nextAfter (tasks s p)) now
             in if remaining \<le> 0 then
                  (case Pop (time_less s) (tasksByTime s) of
                     (Some t, q) \<Rightarrow>
                       ((Some t, -1),
                        set_task t (\<lambda>x. x\<lparr>timeItem := None\<rparr>) (s\<lparr>tasksByTime := q\<rparr>))
                   | (None, q) \<Rightarrow> ((None, -1), s\<lparr>tasksByTime := q\<rparr>))
                else byOrder remaining)"

text \<open>
  One iteration of \<open>loop\<close>, from taking the lock to releasing it. It ends with the loop
  returning, with the loop waiting for a notification and, if a timer was armed, for the given
  point in time, or with a goroutine started for a task; that goroutine counts itself as active
  before it releases the lock it inherited.
\<close>

datatype loop_action = LoopReturn | LoopWait "gotime option" | LoopLaunch nat

definition loop_iteration :: "gotime \<Rightarrow> 'f scheduler \<Rightarrow> loop_action \<times> 'f scheduler" where
  "loop_iteration now s =
     (if loopStopRequested s then (LoopReturn, s)
      else
        let ((runtask, nextTaskDue), s1) =
              (if taskActiveCount s < slots s then
                 let ((runtask, remaining), s1) = popNextLocked now s
                 in ((runtask, if remaining > 0 then Some (AddDur now remaining) else None), s1)
               else ((None, None), s))
        in case runtask of
             None \<Rightarrow> (LoopWait nextTaskDue, s1)
           | Some t \<Rightarrow> (LoopLaunch t, s1\<lparr>taskActiveCount := taskActiveCount s1 + 1\<rparr>))"

text \<open>
  \<open>Task.run\<close>: the task function is called with its outcome \<open>err\<close>; the result says
  whether the task is finished.
\<close>

definition run :: "gotime \<Rightarrow> err \<Rightarrow> 'f task \<Rightarrow> bool \<times> 'f task" where
  "run now err t =
     (let t1 = t\<lparr>attemptCount := attemptCount t + 1\<rparr>
      in case err of
           None \<Rightarrow> (True, t1)
         | Some _ \<Rightarrow>
             (case AsTaskError err of
                None \<Rightarrow> (True, t1)
              | Some te \<Rightarrow>
                  if Permanent (Some te) then (True, t1)
                  else (False, t1\<lparr>nextAfter := AddDur now (RetryDelay te)\<rparr>)))"

definition runTask_locked :: "nat \<Rightarrow> bool \<Rightarrow> 'f scheduler \<Rightarrow> 'f scheduler may_panic" where
  "runTask_locked t finished s =
     (let s1 = s\<lparr>taskActiveCount := taskActiveCount s - 1\<rparr>
      in case (if finished then Inr s1 else enqueue t s1) of
           Inl p \<Rightarrow> Inl p
         | Inr s2 \<Rightarrow>
             if Len (tasksByOrder s2) > 0 \<or> Len (tasksByTime s2) > 0 then Inr (notifyLoop s2)
             else Inr s2)"

definition Start :: "'f scheduler \<Rightarrow> 'f scheduler may_panic" where
  "Start s =
     (if loopStopRequested s \<or> loopActiveCount s \<noteq> 0 then Inl (Panic ''Scheduler may only start once'')
      else Inr (s\<lparr>loopActiveCount := loopActiveCount s + 1\<rparr>))"

definition loop_exit :: "'f scheduler \<Rightarrow> 'f scheduler" where
  "loop_exit s = s\<lparr>loopActiveCount := loopActiveCount s - 1\<rparr>"

definition Quiesce_done :: "'f scheduler \<Rightarrow> bool" where
  "Quiesce_done s \<longleftrightarrow>
     taskActiveCount s = 0 \<and> Len (tasksByOrder s) = 0 \<and> Len (tasksByTime s) = 0"

definition Stop_request :: "'f scheduler \<Rightarrow> 'f scheduler" where
  "Stop_request s = s\<lparr>loopStopRequested := True\<rparr>"

definition Stop_check :: "'f scheduler \<Rightarrow> bool \<times> 'f scheduler" where
  "Stop_check s =
     (if loopActiveCount s = 0 \<and> taskActiveCount s = 0 then
        (True, s\<lparr>tasksByOrder := Clear (order_less s) (tasksByOrder s),
                  tasksByTime := Clear (time_less s) (tasksByTime s)\<rparr>)
      else (False, s))"

definition cancelTasks :: "'f scheduler \<Rightarrow> 'f scheduler" where
  "cancelTasks s = s\<lparr>taskContextCancelled := True\<rparr>"

section \<open>The orders of the queues\<close>

text \<open>
  Sequence numbers wrap around. Within a window of \<open>2 ^ 63\<close> consecutive numbers the comparison
  is the order in which the numbers were handed out; across a larger range it is no order at all.
\<close>

definition seq_window :: "64 word \<Rightarrow> (64 word) set" where
  "seq_window b = {x. unat (x - b) < 2 ^ 63}"

lemma sint_small:
  fixes u :: "64 word"
  assumes "unat u < 2 ^ 63"
  shows "sint u = int (unat u)" and "int (unat u) < 2 ^ 63"
proof -
  have "int (unat u) < int (2 ^ 63)" using assms by (simp only: of_nat_less_iff)
  then show "int (unat u) < 2 ^ 63" by simp
  moreover have "- (2 ^ 63) \<le> int (unat u)" by (rule order_trans [of _ 0]) simp_all
  ultimately have "signed_take_bit 63 (int (unat u)) = int (unat u)"
    by (intro signed_take_bit_int_eq_self)
  then show "sint u = int (unat u)" by (simp add: sint_uint)
qed

lemma sint_diff_small:
  fixes u v :: "64 word"
  assumes "unat u < 2 ^ 63" "unat v < 2 ^ 63"
  shows "sint (u - v) = int (unat u) - int (unat v)"
proof -
  note u = sint_small [OF assms(1)] and v = sint_small [OF assms(2)]
  have b: "0 \<le> int (unat u)" "0 \<le> int (unat v)" by simp_all
  have "sint (u - v) = signed_take_bit 63 (int (unat u) - int (unat v))"
    by (simp only: sint_word_diff u(1) v(1)) simp
  also have "\<dots> = int (unat u) - int (unat v)"
    using u(2) v(2) b by (intro signed_take_bit_int_eq_self) linarith+
  finally show ?thesis .
qed

lemma seq_less_window:
  assumes "x \<in> seq_window b" "y \<in> seq_window b"
  shows "seq_less x y \<longleftrightarrow> unat (x - b) < unat (y - b)"
proof -
  have "x - y = (x - b) - (y - b)" by simp
  then have "sint (x - y) = int (unat (x - b)) - int (unat (y - b))"
    using sint_diff_small [of "x - b" "y - b"] assms by (simp only: seq_window_def mem_Collect_eq)
  then show ?thesis unfolding seq_less_def by linarith
qed

interpretation seq_order: heap_order seq_less "seq_window b" for b
  by unfold_locales (auto simp: seq_less_window)

interpretation due_order: heap_order "time_less s" UNIV for s :: "'f scheduler"
  by unfold_locales (auto simp: time_less_def Before_def)

lemma order_less_heap_order:
  "heap_order (order_less s) {t. seq (tasks s t) \<in> seq_window b}"
  by unfold_locales
    (auto simp: order_less_def dest: seq_order.lt_asym seq_order.nlt_trans)

section \<open>Well-formed schedulers\<close>

definition byOrder :: "'f scheduler \<Rightarrow> nat list" where
  "byOrder s = vals (tasksByOrder s)"

definition byTime :: "'f scheduler \<Rightarrow> nat list" where
  "byTime s = vals (tasksByTime s)"

text \<open>The multiset of queued tasks.\<close>

definition queued :: "'f scheduler \<Rightarrow> nat multiset" where
  "queued s = mset (byOrder s) + mset (byTime s)"

text \<open>
  The structural invariant: both queues are well formed, no task is queued twice, every task
  object has a sequence number, and a queued task records an item of the queue it is in only;
  tasks with a due time are in the time queue, the others in the insertion-order queue.
\<close>

definition sched_wf :: "'f scheduler \<Rightarrow> bool" where
  "sched_wf s \<longleftrightarrow>
     pq_wf (tasksByOrder s) \<and> pq_wf (tasksByTime s) \<and>
     distinct (byOrder s @ byTime s) \<and>
     (\<forall>t \<in> set (byOrder s @ byTime s). t < taskFresh s) \<and>
     (\<forall>t < taskFresh s. seq (tasks s t) \<noteq> 0) \<and>
     (\<forall>t \<in> set (byOrder s). timeItem (tasks s t) = None \<and> IsZero (nextAfter (tasks s t))) \<and>
     (\<forall>t \<in> set (byTime s). seqItem (tasks s t) = None \<and> \<not> IsZero (nextAfter (tasks s t)))"

text \<open>A task that records no queue item.\<close>

definition unqueued :: "'f scheduler \<Rightarrow> nat \<Rightarrow> bool" where
  "unqueued s t \<longleftrightarrow> seqItem (tasks s t) = None \<and> timeItem (tasks s t) = None"

text \<open>\<open>same_control s s'\<close>: the states differ at most in the queues and the queue items
  recorded in the tasks.\<close>

definition same_control :: "'f scheduler \<Rightarrow> 'f scheduler \<Rightarrow> bool" where
  "same_control s s' \<longleftrightarrow>
     slots s' = slots s \<and> loopActiveCount s' = loopActiveCount s \<and>
     loopStopRequested s' = loopStopRequested s \<and> loopNotification s' = loopNotification s \<and>
     loopFinished s' = loopFinished s \<and> taskContextCancelled s' = taskContextCancelled s \<and>
     taskActiveCount s' = taskActiveCount s \<and> taskFinished s' = taskFinished s \<and>
     taskFresh s' = taskFresh s \<and> seqCounter s' = seqCounter s \<and>
     (\<forall>t. fn (tasks s' t) = fn (tasks s t) \<and> seq (tasks s' t) = seq (tasks s t) \<and>
        nextAfter (tasks s' t) = nextAfter (tasks s t) \<and>
        attemptCount (tasks s' t) = attemptCount (tasks s t))"

lemma same_control_refl [simp]: "same_control s s"
  by (simp add: same_control_def)

lemma set_task_simps [sched_simps]:
  "slots (set_task t f s) = slots s" "tasksByOrder (set_task t f s) = tasksByOrder s"
  "tasksByTime (set_task t f s) = tasksByTime s" "loopActiveCount (set_task t f s) = loopActiveCount s"
  "loopStopRequested (set_task t f s) = loopStopRequested s"
  "loopNotification (set_task t f s) = loopNotification s"
  "loopFinished (set_task t f s) = loopFinished s"
  "taskContextCancelled (set_task t f s) = taskContextCancelled s"
  "taskActiveCount (set_task t f s) = taskActiveCount s"
  "taskFinished (set_task t f s) = taskFinished s" "taskFresh (set_task t f s) = taskFresh s"
  "seqCounter (set_task t f s) = seqCounter s"
  "tasks (set_task t f s) u = (if u = t then f (tasks s t) else tasks s u)"
  by (simp_all add: set_task_def)

lemma vals_eq_Nil [simp]: "vals q = [] \<longleftrightarrow> items q = []"
  by (simp add: vals_def)

lemma Peek_vals: "Peek q = (if items q = [] then None else Some (hd (vals q)))"
  by (cases "items q") (simp_all add: Peek_def vals_def)

lemma New_wf [simp]: "sched_wf (New n c objs)"
  by (simp add: sched_wf_def New_def byOrder_def byTime_def new_queue_def pq_wf_def vals_def indexed_def)

lemma queued_New [simp]: "queued (New n c objs) = {#}"
  by (simp add: queued_def New_def byOrder_def byTime_def new_queue_def vals_def)

lemma mset_add_facts:
  assumes "mset xs = add_mset t (mset ys)"
  shows "set xs = insert t (set ys)" and "distinct xs \<longleftrightarrow> distinct ys \<and> t \<notin> set ys"
proof -
  show "set xs = insert t (set ys)"
    using assms by (metis set_mset_add_mset_insert set_mset_mset)
  have "mset xs = mset (t # ys)" using assms by simp
  then show "distinct xs \<longleftrightarrow> distinct ys \<and> t \<notin> set ys"
    by (metis distinct.simps(2) mset_eq_imp_distinct_iff)
qed

lemma enqueue_spec:
  assumes wf: "sched_wf s" and t: "t < taskFresh s" "t \<notin># queued s" "unqueued s t"
  shows "\<exists>s'. enqueue t s = Inr s' \<and> sched_wf s' \<and> same_control s s' \<and>
    queued s' = add_mset t (queued s) \<and> (\<forall>u. u \<noteq> t \<longrightarrow> tasks s' u = tasks s u) \<and>
    (if IsZero (nextAfter (tasks s t))
     then \<exists>a. Push (order_less s) (tasksByOrder s) t = Inr (a, tasksByOrder s') \<and>
       tasksByTime s' = tasksByTime s
     else \<exists>a. Push (time_less s) (tasksByTime s) t = Inr (a, tasksByTime s') \<and>
       tasksByOrder s' = tasksByOrder s)"
proof -
  have nq: "t \<notin> set (byOrder s)" "t \<notin> set (byTime s)"
    using t(2) by (auto simp: queued_def)
  then have items: "seqItem (tasks s t) = None" "timeItem (tasks s t) = None" "seq (tasks s t) \<noteq> 0"
    using wf t by (auto simp: sched_wf_def unqueued_def)
  show ?thesis
  proof (cases "IsZero (nextAfter (tasks s t))")
    case True
    obtain a q where q: "Push (order_less s) (tasksByOrder s) t = Inr (a, q)" "pq_wf q"
      "mset (vals q) = add_mset t (mset (byOrder s))"
      using Push_wf [of "tasksByOrder s" "order_less s" t] wf unfolding sched_wf_def byOrder_def by blast
    let ?s = "set_task t (\<lambda>x. x\<lparr>seqItem := Some a\<rparr>) (s\<lparr>tasksByOrder := q\<rparr>)"
    have e: "enqueue t s = Inr ?s" using True items q by (simp add: enqueue_def)
    have "sched_wf ?s"
      using wf nq t(1) items q True mset_add_facts [OF q(3)]
      by (auto simp: sched_wf_def sched_simps byOrder_def byTime_def)
    moreover have "same_control s ?s" by (simp add: same_control_def sched_simps)
    moreover have "queued ?s = add_mset t (queued s)"
      using q by (simp add: queued_def byOrder_def byTime_def sched_simps)
    ultimately show ?thesis using e True q by (auto simp: sched_simps)
  next
    case False
    obtain a q where q: "Push (time_less s) (tasksByTime s) t = Inr (a, q)" "pq_wf q"
      "mset (vals q) = add_mset t (mset (byTime s))"
      using Push_wf [of "tasksByTime s" "time_less s" t] wf unfolding sched_wf_def byTime_def by blast
    let ?s = "set_task t (\<lambda>x. x\<lparr>timeItem := Some a\<rparr>) (s\<lparr>tasksByTime := q\<rparr>)"
    have e: "enqueue t s = Inr ?s" using False items q by (simp add: enqueue_def)
    have "sched_wf ?s"
      using wf nq t(1) items q False mset_add_facts [OF q(3)]
      by (auto simp: sched_wf_def sched_simps byOrder_def byTime_def)
    moreover have "same_control s ?s" by (simp add: same_control_def sched_simps)
    moreover have "queued ?s = add_mset t (queued s)"
      using q by (simp add: queued_def byOrder_def byTime_def sched_simps)
    ultimately show ?thesis using e False q by (auto simp: sched_simps)
  qed
qed

text \<open>Taking the first task out of one of the queues.\<close>

definition take_order :: "nat \<Rightarrow> nat prioqueue \<Rightarrow> 'f scheduler \<Rightarrow> 'f scheduler" where
  "take_order t q s = set_task t (\<lambda>x. x\<lparr>seqItem := None\<rparr>) (s\<lparr>tasksByOrder := q\<rparr>)"

definition take_time :: "nat \<Rightarrow> nat prioqueue \<Rightarrow> 'f scheduler \<Rightarrow> 'f scheduler" where
  "take_time t q s = set_task t (\<lambda>x. x\<lparr>timeItem := None\<rparr>) (s\<lparr>tasksByTime := q\<rparr>)"

lemma take_order_wf:
  assumes "sched_wf s" "pq_wf q" "mset (byOrder s) = add_mset t (mset (vals q))"
  shows "sched_wf (take_order t q s)" "same_control s (take_order t q s)"
    "queued s = add_mset t (queued (take_order t q s))" "unqueued (take_order t q s) t"
    "\<And>u. u \<noteq> t \<Longrightarrow> tasks (take_order t q s) u = tasks s u"
  using assms mset_add_facts [OF assms(3)]
  by (auto simp: sched_wf_def same_control_def take_order_def sched_simps byOrder_def byTime_def queued_def
      unqueued_def)

lemma take_time_wf:
  assumes "sched_wf s" "pq_wf q" "mset (byTime s) = add_mset t (mset (vals q))"
  shows "sched_wf (take_time t q s)" "same_control s (take_time t q s)"
    "queued s = add_mset t (queued (take_time t q s))" "unqueued (take_time t q s) t"
    "\<And>u. u \<noteq> t \<Longrightarrow> tasks (take_time t q s) u = tasks s u"
  using assms mset_add_facts [OF assms(3)]
  by (auto simp: sched_wf_def same_control_def take_time_def sched_simps byOrder_def byTime_def queued_def
      unqueued_def)

text \<open>The four ways through \<open>popNextLocked\<close>.\<close>

definition due :: "gotime \<Rightarrow> 'f scheduler \<Rightarrow> bool" where
  "due now s \<longleftrightarrow> byTime s \<noteq> [] \<and> nextAfter (tasks s (hd (byTime s))) \<le> now"

definition remaining_of :: "gotime \<Rightarrow> 'f scheduler \<Rightarrow> duration" where
  "remaining_of now s =
     (if byTime s = [] then -1 else Sub (nextAfter (tasks s (hd (byTime s)))) now)"

lemma remaining_of_pos: "0 < remaining_of now s \<longleftrightarrow> byTime s \<noteq> [] \<and> \<not> due now s"
  by (auto simp: remaining_of_def due_def Sub_pos_iff)

lemma popNext_due:
  assumes wf: "sched_wf s" and d: "due now s"
  defines "t \<equiv> hd (byTime s)"
  shows "\<exists>q. Pop (time_less s) (tasksByTime s) = (Some t, q) \<and> pq_wf q \<and>
    mset (byTime s) = add_mset t (mset (vals q)) \<and>
    popNextLocked now s = ((Some t, -1), take_time t q s)"
proof -
  have "pq_wf (tasksByTime s)" "items (tasksByTime s) \<noteq> []"
    using wf d by (auto simp: sched_wf_def due_def byTime_def)
  from Pop_wf [OF this, of "time_less s"] obtain q where
    q: "Pop (time_less s) (tasksByTime s) = (Some t, q)" "pq_wf q"
      "mset (byTime s) = add_mset t (mset (vals q))"
    unfolding byTime_def t_def by blast
  have "popNextLocked now s = ((Some t, -1), take_time t q s)"
    using d q(1)
    by (simp add: popNextLocked_def Peek_vals due_def byTime_def Sub_le_0_iff take_time_def)
  with q show ?thesis by blast
qed

lemma popNext_order:
  assumes wf: "sched_wf s" and d: "\<not> due now s" and ne: "byOrder s \<noteq> []"
  defines "t \<equiv> hd (byOrder s)"
  shows "\<exists>q. Pop (order_less s) (tasksByOrder s) = (Some t, q) \<and> pq_wf q \<and>
    mset (byOrder s) = add_mset t (mset (vals q)) \<and>
    popNextLocked now s = ((Some t, remaining_of now s), take_order t q s)"
proof -
  have "pq_wf (tasksByOrder s)" "items (tasksByOrder s) \<noteq> []"
    using wf ne by (auto simp: sched_wf_def byOrder_def)
  from Pop_wf [OF this, of "order_less s"] obtain q where
    q: "Pop (order_less s) (tasksByOrder s) = (Some t, q)" "pq_wf q"
      "mset (byOrder s) = add_mset t (mset (vals q))"
    unfolding byOrder_def t_def by blast
  have "popNextLocked now s = ((Some t, remaining_of now s), take_order t q s)"
    using d q(1)
    by (cases "items (tasksByTime s) = []")
      (auto simp: popNextLocked_def Peek_vals due_def byTime_def Sub_le_0_iff take_order_def
        remaining_of_def Let_def)
  with q show ?thesis by blast
qed

lemma popNext_none:
  assumes "\<not> due now s" "byOrder s = []"
  shows "popNextLocked now s = ((None, remaining_of now s), s)"
  using assms
  by (cases "items (tasksByTime s) = []")
    (auto simp: popNextLocked_def Peek_vals due_def byTime_def byOrder_def Sub_le_0_iff
      remaining_of_def Let_def)

lemma popNextLocked_cases:
  assumes wf: "sched_wf s"
  obtains (time) t q where "due now s" "t = hd (byTime s)"
      "Pop (time_less s) (tasksByTime s) = (Some t, q)"
      "pq_wf q" "mset (byTime s) = add_mset t (mset (vals q))"
      "popNextLocked now s = ((Some t, -1), take_time t q s)"
    | (order) t q where "\<not> due now s" "byOrder s \<noteq> []" "t = hd (byOrder s)"
      "Pop (order_less s) (tasksByOrder s) = (Some t, q)"
      "pq_wf q" "mset (byOrder s) = add_mset t (mset (vals q))"
      "popNextLocked now s = ((Some t, remaining_of now s), take_order t q s)"
    | (none) "\<not> due now s" "byOrder s = []"
      "popNextLocked now s = ((None, remaining_of now s), s)"
proof (cases "due now s")
  case True
  then show ?thesis using popNext_due [OF wf] time by blast
next
  case d: False
  show ?thesis
  proof (cases "byOrder s = []")
    case True
    then show ?thesis using popNext_none [OF d True] none d by blast
  next
    case False
    then show ?thesis using popNext_order [OF wf d] order d by blast
  qed
qed

text \<open>One iteration of the loop, structurally.\<close>

lemma loop_iteration_stop [simp]: "loopStopRequested s \<Longrightarrow> loop_iteration now s = (LoopReturn, s)"
  by (simp add: loop_iteration_def)

lemma loop_iteration_full:
  "\<not> loopStopRequested s \<Longrightarrow> \<not> taskActiveCount s < slots s \<Longrightarrow>
   loop_iteration now s = (LoopWait None, s)"
  by (simp add: loop_iteration_def)

lemma loop_iteration_pop:
  "\<not> loopStopRequested s \<Longrightarrow> taskActiveCount s < slots s \<Longrightarrow>
   popNextLocked now s = ((r, d), s1) \<Longrightarrow>
   loop_iteration now s =
     (case r of
        None \<Rightarrow> (LoopWait (if d > 0 then Some (AddDur now d) else None), s1)
      | Some t \<Rightarrow> (LoopLaunch t, s1\<lparr>taskActiveCount := taskActiveCount s1 + 1\<rparr>))"
  by (simp add: loop_iteration_def split: option.split)

lemma sched_wf_active [simp]: "sched_wf (s\<lparr>taskActiveCount := n\<rparr>) = sched_wf s"
  by (simp add: sched_wf_def byOrder_def byTime_def)

lemma queued_active [simp]: "queued (s\<lparr>taskActiveCount := n\<rparr>) = queued s"
  by (simp add: queued_def byOrder_def byTime_def)

lemma loop_launch_facts:
  assumes wf: "sched_wf s" and l: "loop_iteration now s = (LoopLaunch t, s')"
  shows "\<not> loopStopRequested s" "taskActiveCount s < slots s" "sched_wf s'"
    "queued s = add_mset t (queued s')"
    "same_control (s\<lparr>taskActiveCount := taskActiveCount s + 1\<rparr>) s'"
    "unqueued s' t" "\<And>u. u \<noteq> t \<Longrightarrow> tasks s' u = tasks s u"
    "if due now s then t = hd (byTime s) else byOrder s \<noteq> [] \<and> t = hd (byOrder s)"
proof -
  show ns: "\<not> loopStopRequested s" using l by auto
  show a: "taskActiveCount s < slots s"
    using l ns loop_iteration_full [OF ns, of now] by force
  have "sched_wf s' \<and> queued s = add_mset t (queued s') \<and>
      same_control (s\<lparr>taskActiveCount := taskActiveCount s + 1\<rparr>) s' \<and> unqueued s' t \<and>
      (\<forall>u. u \<noteq> t \<longrightarrow> tasks s' u = tasks s u) \<and>
      (if due now s then t = hd (byTime s) else byOrder s \<noteq> [] \<and> t = hd (byOrder s))"
    using wf
  proof (cases rule: popNextLocked_cases [where now = now])
    case (time u q)
    note tk = take_time_wf [OF wf time(4,5)]
    have "u = t" "s' = (take_time t q s)\<lparr>taskActiveCount := taskActiveCount s + 1\<rparr>"
      using l loop_iteration_pop [OF ns a time(6)] tk(2) by (auto simp: same_control_def)
    with time tk show ?thesis by (auto simp: same_control_def unqueued_def)
  next
    case (order u q)
    note tk = take_order_wf [OF wf order(5,6)]
    have "u = t" "s' = (take_order t q s)\<lparr>taskActiveCount := taskActiveCount s + 1\<rparr>"
      using l loop_iteration_pop [OF ns a order(7)] tk(2) by (auto simp: same_control_def)
    with order tk show ?thesis by (auto simp: same_control_def unqueued_def)
  next
    case none
    then show ?thesis using l loop_iteration_pop [OF ns a none(3)] by simp
  qed
  then show "sched_wf s'" "queued s = add_mset t (queued s')"
    "same_control (s\<lparr>taskActiveCount := taskActiveCount s + 1\<rparr>) s'"
    "unqueued s' t" "\<And>u. u \<noteq> t \<Longrightarrow> tasks s' u = tasks s u"
    "if due now s then t = hd (byTime s) else byOrder s \<noteq> [] \<and> t = hd (byOrder s)"
    by auto
qed

lemma loop_wait_facts:
  assumes wf: "sched_wf s" and l: "loop_iteration now s = (LoopWait d, s')"
  shows "s' = s" "\<not> loopStopRequested s"
    "taskActiveCount s < slots s \<Longrightarrow> byOrder s = [] \<and> \<not> due now s \<and>
      d = (if byTime s = [] then None else Some (AddDur now (remaining_of now s)))"
proof -
  show ns: "\<not> loopStopRequested s" using l by auto
  have "s' = s \<and> (taskActiveCount s < slots s \<longrightarrow> byOrder s = [] \<and> \<not> due now s \<and>
      d = (if byTime s = [] then None else Some (AddDur now (remaining_of now s))))"
  proof (cases "taskActiveCount s < slots s")
    case False
    then show ?thesis using l loop_iteration_full [OF ns False] by simp
  next
    case a: True
    from wf show ?thesis
    proof (cases rule: popNextLocked_cases [where now = now])
      case none
      then show ?thesis
        using l loop_iteration_pop [OF ns a none(3)] remaining_of_pos [of now s] by auto
    next
      case (time u q)
      then show ?thesis using l loop_iteration_pop [OF ns a time(6)] by simp
    next
      case (order u q)
      then show ?thesis using l loop_iteration_pop [OF ns a order(7)] by simp
    qed
  qed
  then show "s' = s" "taskActiveCount s < slots s \<Longrightarrow> byOrder s = [] \<and> \<not> due now s \<and>
      d = (if byTime s = [] then None else Some (AddDur now (remaining_of now s)))"
    by auto
qed

lemma loop_return_facts:
  "sched_wf s \<Longrightarrow> loop_iteration now s = (LoopReturn, s') \<Longrightarrow> s' = s \<and> loopStopRequested s"
  by (auto simp: loop_iteration_def split: if_splits prod.splits option.splits)

section \<open>Heap order of the queues\<close>

definition time_heap :: "'f scheduler \<Rightarrow> bool" where
  "time_heap s \<longleftrightarrow> pq_inv (time_less s) UNIV (tasksByTime s)"

definition order_heap :: "64 word \<Rightarrow> 'f scheduler \<Rightarrow> bool" where
  "order_heap b s \<longleftrightarrow>
     pq_inv (order_less s) {t. seq (tasks s t) \<in> seq_window b} (tasksByOrder s)"

lemma same_control_less:
  "same_control s s' \<Longrightarrow> time_less s' = time_less s \<and> order_less s' = order_less s"
  by (auto simp: same_control_def time_less_def order_less_def fun_eq_iff)

lemma New_heaps [simp]: "time_heap (New n c objs)" "order_heap b (New n c objs)"
  by (simp_all add: time_heap_def order_heap_def New_def new_queue_def pq_inv_def pq_wf_def vals_def
      indexed_def is_heap_def)

text \<open>The invariants depend on the task objects and the queues only.\<close>

lemma heap_fields:
  assumes "tasks r = tasks s"
  shows "tasksByTime r = tasksByTime s \<Longrightarrow> time_heap r = time_heap s"
    "tasksByOrder r = tasksByOrder s \<Longrightarrow> order_heap b r = order_heap b s"
proof -
  have "time_less r = time_less s" "order_less r = order_less s"
    using assms by (simp_all add: fun_eq_iff time_less_def order_less_def)
  with assms show "tasksByTime r = tasksByTime s \<Longrightarrow> time_heap r = time_heap s"
    "tasksByOrder r = tasksByOrder s \<Longrightarrow> order_heap b r = order_heap b s"
    by (simp_all add: time_heap_def order_heap_def)
qed

lemma wf_fields:
  assumes "tasksByTime r = tasksByTime s" "tasksByOrder r = tasksByOrder s"
  shows "queued r = queued s" "byOrder r = byOrder s" "byTime r = byTime s"
    "tasks r = tasks s \<Longrightarrow> taskFresh r = taskFresh s \<Longrightarrow> sched_wf r = sched_wf s"
  using assms by (simp_all add: queued_def byOrder_def byTime_def sched_wf_def)

lemma time_heap_cong:
  assumes "time_heap s" "tasksByTime s' = tasksByTime s"
    "\<And>t. t \<in> set (byTime s) \<Longrightarrow> nextAfter (tasks s' t) = nextAfter (tasks s t)"
  shows "time_heap s'"
  using pq_inv_cong [of "time_less s" UNIV "tasksByTime s" UNIV "time_less s'"] assms
  by (simp add: time_heap_def byTime_def time_less_def)

lemma order_heap_cong:
  assumes "order_heap b s" "tasksByOrder s' = tasksByOrder s"
    "\<And>t. t \<in> set (byOrder s) \<Longrightarrow> seq (tasks s' t) = seq (tasks s t)"
  shows "order_heap b s'"
proof -
  have "set (byOrder s) \<subseteq> {t. seq (tasks s' t) \<in> seq_window b}"
    using assms(1,3) by (auto simp: order_heap_def pq_inv_def byOrder_def)
  then show ?thesis
    using pq_inv_cong [of "order_less s" _ "tasksByOrder s" _ "order_less s'"] assms
    by (simp add: order_heap_def byOrder_def order_less_def)
qed

lemma time_heap_push:
  assumes "time_heap s" "same_control s s'"
    "Push (time_less s) (tasksByTime s) t = Inr (a, tasksByTime s')"
  shows "time_heap s'"
  using due_order.pq.push_contents [of s "tasksByTime s" t] assms same_control_less [OF assms(2)]
  by (auto simp: time_heap_def)

lemma order_heap_push:
  assumes "order_heap b s" "same_control s s'" "seq (tasks s t) \<in> seq_window b"
    "Push (order_less s) (tasksByOrder s) t = Inr (a, tasksByOrder s')"
  shows "order_heap b s'"
proof -
  let ?V = "{t. seq (tasks s t) \<in> seq_window b}"
  have "\<exists>a q. Push (order_less s) (tasksByOrder s) t = Inr (a, q) \<and> pq_inv (order_less s) ?V q"
    using heap_order.PushAll_inv [OF order_less_heap_order, of s b "tasksByOrder s" "[t]"] assms
    by (auto simp: order_heap_def)
  moreover have "{t. seq (tasks s' t) \<in> seq_window b} = ?V"
    using assms(2) by (simp add: same_control_def)
  ultimately show ?thesis
    using assms(4) same_control_less [OF assms(2)] by (auto simp: order_heap_def)
qed

lemma enqueue_heap:
  assumes "sched_wf s" "t < taskFresh s" "t \<notin># queued s" "unqueued s t" "enqueue t s = Inr s'"
  shows "time_heap s \<Longrightarrow> time_heap s'"
    and "order_heap b s \<Longrightarrow> seq (tasks s t) \<in> seq_window b \<Longrightarrow> order_heap b s'"
proof -
  have sc: "same_control s s'"
    and push: "if IsZero (nextAfter (tasks s t))
     then \<exists>a. Push (order_less s) (tasksByOrder s) t = Inr (a, tasksByOrder s') \<and>
       tasksByTime s' = tasksByTime s
     else \<exists>a. Push (time_less s) (tasksByTime s) t = Inr (a, tasksByTime s') \<and>
       tasksByOrder s' = tasksByOrder s"
    using enqueue_spec [OF assms(1-4)] assms(5) by auto
  then show "time_heap s \<Longrightarrow> time_heap s'"
    using time_heap_push [OF _ sc] time_heap_cong [of s s']
    by (auto simp: same_control_def split: if_splits)
  show "order_heap b s \<Longrightarrow> seq (tasks s t) \<in> seq_window b \<Longrightarrow> order_heap b s'"
    using order_heap_push [OF _ sc] order_heap_cong [of b s s'] sc push
    by (auto simp: same_control_def split: if_splits)
qed

lemma take_time_heap:
  assumes wf: "sched_wf s" and q: "Pop (time_less s) (tasksByTime s) = (Some t, q)" "pq_wf q"
    "mset (byTime s) = add_mset t (mset (vals q))"
  shows "time_heap s \<Longrightarrow> time_heap (take_time t q s)" "order_heap b s \<Longrightarrow> order_heap b (take_time t q s)"
proof -
  have less: "time_less (take_time t q s) = time_less s"
    using same_control_less [OF take_time_wf(2) [OF wf q(2,3)]] by simp
  have ne: "mset (vals (tasksByTime s)) \<noteq> {#}" using q(3) unfolding byTime_def by (metis empty_not_add_mset)
  show "time_heap s \<Longrightarrow> time_heap (take_time t q s)"
    using due_order.pq.pop_min [OF _ ne, of s] q(1) less
    by (auto simp: time_heap_def take_time_def sched_simps)
  show "order_heap b s \<Longrightarrow> order_heap b (take_time t q s)"
    by (erule order_heap_cong) (auto simp: take_time_def sched_simps)
qed

lemma take_order_heap:
  assumes wf: "sched_wf s" and q: "Pop (order_less s) (tasksByOrder s) = (Some t, q)" "pq_wf q"
    "mset (byOrder s) = add_mset t (mset (vals q))"
  shows "time_heap s \<Longrightarrow> time_heap (take_order t q s)" "order_heap b s \<Longrightarrow> order_heap b (take_order t q s)"
proof -
  let ?V = "{t. seq (tasks s t) \<in> seq_window b}"
  have less: "order_less (take_order t q s) = order_less s"
    using same_control_less [OF take_order_wf(2) [OF wf q(2,3)]] by simp
  have V: "{u. seq (tasks (take_order t q s) u) \<in> seq_window b} = ?V"
    by (auto simp: take_order_def sched_simps)
  have ne: "mset (vals (tasksByOrder s)) \<noteq> {#}" using q(3) unfolding byOrder_def by (metis empty_not_add_mset)
  have "pq_inv (order_less s) ?V (tasksByOrder s) \<Longrightarrow> pq_inv (order_less s) ?V q"
    using heap_order.Pop_inv [OF order_less_heap_order _ ne] q(1) by fastforce
  then show "order_heap b s \<Longrightarrow> order_heap b (take_order t q s)"
    using less V by (simp add: order_heap_def) (simp add: take_order_def sched_simps)
  show "time_heap s \<Longrightarrow> time_heap (take_order t q s)"
    by (erule time_heap_cong) (auto simp: take_order_def sched_simps)
qed

lemma loop_launch_heap:
  assumes wf: "sched_wf s" and l: "loop_iteration now s = (LoopLaunch t, s')"
  shows "time_heap s \<Longrightarrow> time_heap s'" "order_heap b s \<Longrightarrow> order_heap b s'"
proof -
  note f = loop_launch_facts [OF wf l]
  have act: "time_heap (r\<lparr>taskActiveCount := n\<rparr>) = time_heap r"
    "order_heap b (r\<lparr>taskActiveCount := n\<rparr>) = order_heap b r" for r :: "'a scheduler" and n
    by (rule heap_fields; simp)+
  have "(time_heap s \<longrightarrow> time_heap s') \<and> (order_heap b s \<longrightarrow> order_heap b s')"
    using wf
  proof (cases rule: popNextLocked_cases [where now = now])
    case (time u q)
    have "s' = (take_time u q s)\<lparr>taskActiveCount := taskActiveCount s + 1\<rparr>"
      using l loop_iteration_pop [OF f(1,2) time(6)] take_time_wf(2) [OF wf time(4,5)]
      by (auto simp: same_control_def)
    then show ?thesis using take_time_heap [OF wf time(3-5)] by (simp add: act)
  next
    case (order u q)
    have "s' = (take_order u q s)\<lparr>taskActiveCount := taskActiveCount s + 1\<rparr>"
      using l loop_iteration_pop [OF f(1,2) order(7)] take_order_wf(2) [OF wf order(5,6)]
      by (auto simp: same_control_def)
    then show ?thesis using take_order_heap [OF wf order(4-6)] by (simp add: act)
  next
    case none
    then show ?thesis using l loop_iteration_pop [OF f(1,2) none(3)] by simp
  qed
  then show "time_heap s \<Longrightarrow> time_heap s'" "order_heap b s \<Longrightarrow> order_heap b s'" by auto
qed

text \<open>The head of a heap-ordered queue is a task that no other queued task precedes.\<close>

lemma time_heap_hd:
  assumes "time_heap s" "t \<in> set (byTime s)"
  shows "nextAfter (tasks s (hd (byTime s))) \<le> nextAfter (tasks s t)"
proof -
  obtain k where k: "k < length (byTime s)" "byTime s ! k = t"
    using assms(2) by (metis in_set_conv_nth)
  have h: "is_heap (time_less s) (byTime s) (length (byTime s))"
    using assms(1) by (simp add: time_heap_def pq_inv_def byTime_def)
  have "\<not> time_less s (byTime s ! k) (byTime s ! 0)"
    by (rule due_order.root_least [OF h]) (use k in auto)
  then show ?thesis
    using k assms(2) by (cases "byTime s") (auto simp: time_less_def Before_def not_less)
qed

lemma order_heap_hd:
  assumes "order_heap b s" "t \<in> set (byOrder s)"
  shows "\<not> seq_less (seq (tasks s t)) (seq (tasks s (hd (byOrder s))))"
proof -
  obtain k where k: "k < length (byOrder s)" "byOrder s ! k = t"
    using assms(2) by (metis in_set_conv_nth)
  have h: "is_heap (order_less s) (byOrder s) (length (byOrder s))"
    "set (byOrder s) \<subseteq> {t. seq (tasks s t) \<in> seq_window b}"
    using assms(1) by (auto simp: order_heap_def pq_inv_def byOrder_def)
  have "\<not> order_less s (byOrder s ! k) (byOrder s ! 0)"
    by (rule heap_order.root_least [OF order_less_heap_order h(1) _ h(2)]) (use k in auto)
  then show ?thesis
    using k assms(2) by (cases "byOrder s") (auto simp: order_less_def)
qed

section \<open>The other operations\<close>

lemma nextSequenceNumber_eq: "nextSequenceNumber c = (if c + 1 = 0 then 1 else c + 1)"
  by (subst nextSequenceNumber.simps, subst nextSequenceNumber.simps) (simp add: Let_def)

lemma fold_NextAfterDuration:
  "fold (\<lambda>opt x. opt x) (map (NextAfterDuration now) ds) t =
     t\<lparr>nextAfter := (if ds = [] then nextAfter t else AddDur now (last ds))\<rparr>"
  by (induction ds arbitrary: t) (auto simp: NextAfterDuration_def)

lemma newTask_facts:
  assumes wf: "sched_wf s"
    and r: "newTask (Some f) (map (NextAfterDuration now) ds) s = Inr (t, s')"
  shows "t = taskFresh s" "sched_wf s'" "queued s' = queued s" "taskFresh s' = Suc t"
    "unqueued s' t" "\<And>u. u \<noteq> t \<Longrightarrow> tasks s' u = tasks s u"
    "seq (tasks s' t) = nextSequenceNumber (seqCounter s)" "seqCounter s' = seq (tasks s' t)"
    "slots s' = slots s" "loopActiveCount s' = loopActiveCount s"
    "loopStopRequested s' = loopStopRequested s" "loopNotification s' = loopNotification s"
    "taskActiveCount s' = taskActiveCount s" "loopFinished s' = loopFinished s"
    "taskFinished s' = taskFinished s" "tasksByOrder s' = tasksByOrder s" "tasksByTime s' = tasksByTime s"
proof -
  let ?n = "nextSequenceNumber (seqCounter s)"
  let ?t = "\<lparr>fn = f, seq = ?n, nextAfter = if ds = [] then Time 0 else AddDur now (last ds),
    attemptCount = 0, seqItem = None, timeItem = None\<rparr>"
  have s': "t = taskFresh s"
    "s' = s\<lparr>tasks := (tasks s)(t := ?t), taskFresh := Suc t, seqCounter := ?n\<rparr>"
    using r by (auto simp: newTask_def fold_NextAfterDuration Let_def)
  have n: "?n \<noteq> 0" by (simp add: nextSequenceNumber_eq)
  have new: "u \<in> set (byOrder s) \<or> u \<in> set (byTime s) \<Longrightarrow> u < t" for u
    using wf s'(1) by (auto simp: sched_wf_def)
  show "sched_wf s'"
    using wf n s' new
    by (auto simp: sched_wf_def byOrder_def byTime_def less_Suc_eq)
  show "t = taskFresh s" by (rule s'(1))
qed (use r in \<open>auto simp: newTask_def fold_NextAfterDuration Let_def queued_def byOrder_def byTime_def
      unqueued_def\<close>)

lemma run_simps:
  assumes "run now err t = (fin, x)"
  shows "seq x = seq t" "seqItem x = seqItem t" "timeItem x = timeItem t" "fn x = fn t"
    "attemptCount x = attemptCount t + 1"
    "fin \<longleftrightarrow> Permanent (AsTaskError err)"
  using assms
  by (auto simp: run_def Let_def AsTaskError_def Permanent_def split: option.splits if_splits)

lemma set_task_wf:
  assumes "sched_wf s" "t \<notin># queued s" "seq x = seq (tasks s t)"
  shows "sched_wf (set_task t (\<lambda>_. x) s)" "queued (set_task t (\<lambda>_. x) s) = queued s"
  using assms by (auto simp: sched_wf_def sched_simps byOrder_def byTime_def queued_def)

lemma set_task_heap:
  assumes "t \<notin># queued s"
  shows "time_heap s \<Longrightarrow> time_heap (set_task t (\<lambda>_. x) s)"
    "order_heap b s \<Longrightarrow> order_heap b (set_task t (\<lambda>_. x) s)"
  using assms
  by (auto simp: sched_simps queued_def elim!: time_heap_cong order_heap_cong)

lemma Clear_queues:
  assumes "sched_wf s"
  defines "s' \<equiv> s\<lparr>tasksByOrder := Clear (order_less s) (tasksByOrder s),
    tasksByTime := Clear (time_less s) (tasksByTime s)\<rparr>"
  shows "sched_wf s'" "byOrder s' = []" "byTime s' = []" "queued s' = {#}" "time_heap s'" "order_heap b s'"
proof -
  have c: "pq_wf (Clear (order_less s) (tasksByOrder s))" "items (Clear (order_less s) (tasksByOrder s)) = []"
    "pq_wf (Clear (time_less s) (tasksByTime s))" "items (Clear (time_less s) (tasksByTime s)) = []"
    using assms(1) Clear_wf by (auto simp: sched_wf_def)
  then show e: "byOrder s' = []" "byTime s' = []"
    by (simp_all add: s'_def byOrder_def byTime_def)
  then show "queued s' = {#}" by (simp add: queued_def)
  show "sched_wf s'" using assms(1) c e by (auto simp: sched_wf_def s'_def)
  show "time_heap s'" "order_heap b s'"
    using c e by (simp_all add: time_heap_def order_heap_def pq_inv_def byOrder_def byTime_def is_heap_def)
      (simp_all add: s'_def vals_def)
qed

end
