(* ===== verification/SchedulerSystem.thy ===== *)
theory SchedulerSystem
  imports Scheduler
begin

text \<open>
  The scheduler with its goroutines: the loop started by \<open>Start\<close>, one goroutine per running
  task, callers of \<open>Add\<close> and \<open>SetSlots\<close>, and one caller at a time that waits in \<open>Quiesce\<close> or
  \<open>Stop\<close>. A step is one critical section or one channel operation of one goroutine, so runs of the
  step relation are the interleavings the Go runtime can produce. What goroutines have still to do
  after releasing the lock is part of the state: \<open>notifying\<close> goroutines will signal
  \<open>loopNotification\<close>, \<open>finishing\<close> ones \<open>taskFinished\<close>.
\<close>

section \<open>States and steps\<close>

datatype loop_pc = NotStarted | AtTop | Parked "gotime option" | Exiting | Exited | LoopDone

datatype wait_kind = WQuiesce | WStop

datatype waiter_pc = Idle | Notifying wait_kind | Checking wait_kind | Waiting wait_kind | Returned wait_kind

record 'f sys =
  sch :: "'f scheduler"
  now :: gotime
  lpc :: loop_pc
  adding :: "nat list"
  running :: "nat list"
  returned :: "(nat \<times> bool) list"
  notifying :: nat
  finishing :: nat
  waiter :: waiter_pc

definition init_sys :: "int \<Rightarrow> 64 word \<Rightarrow> (nat \<Rightarrow> 'f task) \<Rightarrow> gotime \<Rightarrow> 'f sys" where
  "init_sys numCPU counter objs t0 =
     \<lparr>sch = New numCPU counter objs, now = t0, lpc = NotStarted, adding = [], running = [],
      returned = [], notifying = 0, finishing = 0, waiter = Idle\<rparr>"

inductive step :: "int \<Rightarrow> 'f sys \<Rightarrow> 'f sys \<Rightarrow> bool" for K :: int where
  tick: "0 \<le> d \<Longrightarrow> step K S (S\<lparr>now := AddDur (now S) d\<rparr>)"
| set_slots: "n \<le> K \<Longrightarrow>
    step K S (S\<lparr>sch := SetSlots n (sch S), notifying := Suc (notifying S)\<rparr>)"
| notify: "notifying S = Suc n \<Longrightarrow>
    step K S (S\<lparr>sch := notifyLoop (sch S), notifying := n\<rparr>)"
| add_new: "newTask (Some f) (map (NextAfterDuration (now S)) ds) (sch S) = Inr (t, s1) \<Longrightarrow>
    step K S (S\<lparr>sch := s1, adding := t # adding S\<rparr>)"
| add_enqueue: "t \<in> set (adding S) \<Longrightarrow> Add_locked t (sch S) = Inr s1 \<Longrightarrow>
    step K S (S\<lparr>sch := s1, adding := remove1 t (adding S), notifying := Suc (notifying S)\<rparr>)"
| start: "Start (sch S) = Inr s1 \<Longrightarrow> step K S (S\<lparr>sch := s1, lpc := AtTop\<rparr>)"
| loop_return: "lpc S = AtTop \<Longrightarrow> loop_iteration (now S) (sch S) = (LoopReturn, s1) \<Longrightarrow>
    step K S (S\<lparr>sch := s1, lpc := Exiting\<rparr>)"
| loop_wait: "lpc S = AtTop \<Longrightarrow> loop_iteration (now S) (sch S) = (LoopWait d, s1) \<Longrightarrow>
    step K S (S\<lparr>sch := s1, lpc := Parked d\<rparr>)"
| loop_launch: "lpc S = AtTop \<Longrightarrow> loop_iteration (now S) (sch S) = (LoopLaunch t, s1) \<Longrightarrow>
    step K S (S\<lparr>sch := s1, running := t # running S\<rparr>)"
| wake_timer: "lpc S = Parked (Some d) \<Longrightarrow> d \<le> now S \<Longrightarrow> step K S (S\<lparr>lpc := AtTop\<rparr>)"
| wake_notify: "lpc S = Parked d \<Longrightarrow> loopNotification (sch S) \<Longrightarrow>
    step K S (S\<lparr>sch := (sch S)\<lparr>loopNotification := False\<rparr>, lpc := AtTop\<rparr>)"
| loop_exit: "lpc S = Exiting \<Longrightarrow> step K S (S\<lparr>sch := loop_exit (sch S), lpc := Exited\<rparr>)"
| loop_finished: "lpc S = Exited \<Longrightarrow>
    step K S (S\<lparr>sch := (sch S)\<lparr>loopFinished := Set (loopFinished (sch S))\<rparr>, lpc := LoopDone\<rparr>)"
| run_fn: "t \<in> set (running S) \<Longrightarrow> run (now S) err (tasks (sch S) t) = (fin, x) \<Longrightarrow>
    step K S (S\<lparr>sch := set_task t (\<lambda>_. x) (sch S), running := remove1 t (running S),
      returned := (t, fin) # returned S\<rparr>)"
| run_locked: "(t, fin) \<in> set (returned S) \<Longrightarrow> runTask_locked t fin (sch S) = Inr s1 \<Longrightarrow>
    step K S (S\<lparr>sch := s1, returned := remove1 (t, fin) (returned S), finishing := Suc (finishing S)\<rparr>)"
| run_finished: "finishing S = Suc n \<Longrightarrow>
    step K S (S\<lparr>sch := (sch S)\<lparr>taskFinished := Set (taskFinished (sch S))\<rparr>, finishing := n\<rparr>)"
| quiesce_call: "waiter S = Idle \<or> waiter S = Returned k \<Longrightarrow>
    step K S (S\<lparr>waiter := Notifying WQuiesce\<rparr>)"
| stop_call: "waiter S = Idle \<or> waiter S = Returned k \<Longrightarrow>
    step K S (S\<lparr>sch := Stop_request (sch S), waiter := Notifying WStop\<rparr>)"
| wait_notify: "waiter S = Notifying k \<Longrightarrow>
    step K S (S\<lparr>sch := notifyLoop (sch S), waiter := Checking k\<rparr>)"
| quiesce_ok: "waiter S = Checking WQuiesce \<Longrightarrow> Quiesce_done (sch S) \<Longrightarrow>
    step K S (S\<lparr>waiter := Returned WQuiesce\<rparr>)"
| quiesce_wait: "waiter S = Checking WQuiesce \<Longrightarrow> \<not> Quiesce_done (sch S) \<Longrightarrow>
    step K S (S\<lparr>waiter := Waiting WQuiesce\<rparr>)"
| quiesce_ctx: "waiter S = Waiting WQuiesce \<Longrightarrow> step K S (S\<lparr>waiter := Returned WQuiesce\<rparr>)"
| stop_ok: "waiter S = Checking WStop \<Longrightarrow> Stop_check (sch S) = (True, s1) \<Longrightarrow>
    step K S (S\<lparr>sch := cancelTasks s1, waiter := Returned WStop\<rparr>)"
| stop_wait: "waiter S = Checking WStop \<Longrightarrow> Stop_check (sch S) = (False, s1) \<Longrightarrow>
    step K S (S\<lparr>sch := s1, waiter := Waiting WStop\<rparr>)"
| stop_ctx: "waiter S = Waiting WStop \<Longrightarrow>
    step K S (S\<lparr>sch := cancelTasks (sch S), waiter := Checking WStop\<rparr>)"
| wait_loop_finished: "waiter S = Waiting k \<Longrightarrow> loopFinished (sch S) \<Longrightarrow>
    step K S (S\<lparr>sch := (sch S)\<lparr>loopFinished := False\<rparr>, waiter := Checking k\<rparr>)"
| wait_task_finished: "waiter S = Waiting k \<Longrightarrow> taskFinished (sch S) \<Longrightarrow>
    step K S (S\<lparr>sch := (sch S)\<lparr>taskFinished := False\<rparr>, waiter := Checking k\<rparr>)"

text \<open>
  The reachable states, for a scheduler whose slot count is at most \<open>K\<close> initially and in
  every call of \<open>SetSlots\<close>.
\<close>

inductive reachable :: "int \<Rightarrow> 'f sys \<Rightarrow> bool" for K :: int where
  init: "numCPU \<le> K \<Longrightarrow> reachable K (init_sys numCPU counter objs t0)"
| step: "reachable K S \<Longrightarrow> step K S T \<Longrightarrow> reachable K T"

inductive_cases init_stepE: "step K (init_sys n c objs t0) T"

section \<open>Invariants\<close>

text \<open>
  The tasks that are neither finished nor abandoned, each where it is: created by a pending
  \<open>Add\<close>, queued, running, or returned and not yet accounted for.
\<close>

definition live :: "'f sys \<Rightarrow> nat multiset" where
  "live S = mset (adding S) + queued (sch S) + mset (running S) + mset (map fst (returned S))"

definition outside :: "'f sys \<Rightarrow> nat set" where
  "outside S = set (adding S) \<union> set (running S) \<union> fst ` set (returned S)"

definition in_window :: "64 word \<Rightarrow> 'f scheduler \<Rightarrow> bool" where
  "in_window b s \<longleftrightarrow> (\<forall>t < taskFresh s. seq (tasks s t) \<in> seq_window b)"

definition task_inv :: "'f sys \<Rightarrow> bool" where
  "task_inv S \<longleftrightarrow>
     sched_wf (sch S) \<and> time_heap (sch S) \<and>
     (\<forall>b. in_window b (sch S) \<longrightarrow> order_heap b (sch S)) \<and>
     (\<forall>t. count (live S) t \<le> 1) \<and> (\<forall>t \<in># live S. t < taskFresh (sch S)) \<and>
     (\<forall>t \<in> outside S. unqueued (sch S) t)"

definition loop_live :: "loop_pc \<Rightarrow> bool" where
  "loop_live p \<longleftrightarrow> p = AtTop \<or> (\<exists>d. p = Parked d) \<or> p = Exiting"

definition count_inv :: "int \<Rightarrow> 'f sys \<Rightarrow> bool" where
  "count_inv K S \<longleftrightarrow>
     taskActiveCount (sch S) = int (length (running S)) + int (length (returned S)) \<and>
     loopActiveCount (sch S) = (if loop_live (lpc S) then 1 else 0) \<and>
     (lpc S = Exiting \<or> lpc S = Exited \<or> lpc S = LoopDone \<longrightarrow> loopStopRequested (sch S)) \<and>
     slots (sch S) \<le> max 1 K \<and> taskActiveCount (sch S) \<le> max 1 K"

lemma mset_map_remove1:
  "x \<in> set xs \<Longrightarrow> mset (map f xs) = add_mset (f x) (mset (map f (remove1 x xs)))"
  by (induction xs) auto

lemma count_zero:
  "count_inv K S \<Longrightarrow> taskActiveCount (sch S) = 0 \<Longrightarrow> running S = [] \<and> returned S = []"
  by (simp add: count_inv_def) (metis add_is_0 length_0_conv of_nat_add of_nat_eq_0_iff)

lemma int_length_remove1:
  "x \<in> set xs \<Longrightarrow> int (length (remove1 x xs)) = int (length xs) - 1"
  using length_pos_if_in_set [of x xs] by (simp only: length_remove1 if_True of_nat_diff Suc_le_eq One_nat_def)

lemma outside_live: "t \<in> outside S \<Longrightarrow> task_inv S \<Longrightarrow> t \<notin># queued (sch S) \<and> t < taskFresh (sch S)"
proof -
  assume t: "t \<in> outside S" and inv: "task_inv S"
  let ?o = "mset (adding S) + mset (running S) + mset (map fst (returned S))"
  have "t \<in># ?o" using t by (auto simp: outside_def)
  then have "1 \<le> count ?o t" by (simp add: Suc_le_eq)
  moreover have "count (live S) t = count ?o t + count (queued (sch S)) t"
    by (simp add: live_def)
  moreover have "count (live S) t \<le> 1" using inv by (simp add: task_inv_def)
  ultimately have "count (queued (sch S)) t = 0" by linarith
  moreover have "t \<in># live S" using \<open>t \<in># ?o\<close> by (auto simp: live_def)
  ultimately show ?thesis
    using inv by (auto simp: task_inv_def not_in_iff)
qed

lemma live_outside:
  assumes "count (live S) t \<le> 1"
  shows "t \<in> set (adding S) \<Longrightarrow>
      t \<notin> set (remove1 t (adding S)) \<and> t \<notin> set (running S) \<and> t \<notin> fst ` set (returned S)"
    and "t \<in> set (running S) \<Longrightarrow>
      t \<notin> set (adding S) \<and> t \<notin> set (remove1 t (running S)) \<and> t \<notin> fst ` set (returned S)"
    and "(t, fin) \<in> set (returned S) \<Longrightarrow>
      t \<notin> set (adding S) \<and> t \<notin> set (running S) \<and> t \<notin> fst ` set (remove1 (t, fin) (returned S))"
proof -
  have c: "count (mset (adding S)) t + count (mset (running S)) t + count (mset (map fst (returned S))) t \<le> 1"
    using assms by (simp add: live_def)
  have z: "x \<in> set xs \<longleftrightarrow> 1 \<le> count (mset xs) x" for x and xs :: "'b list"
    by (simp add: Suc_le_eq)
  have r: "count (mset (remove1 x xs)) x = count (mset xs) x - 1" for x and xs :: "nat list" by simp
  have m: "(t, fin) \<in> set (returned S) \<Longrightarrow>
    count (mset (map fst (returned S))) t = Suc (count (mset (map fst (remove1 (t, fin) (returned S)))) t)"
    by (drule mset_map_remove1 [where f = fst]) (simp del: mset_map mset_remove1)
  have i: "t \<in> fst ` set xs \<longleftrightarrow> 1 \<le> count (mset (map fst xs)) t" for xs :: "(nat \<times> bool) list"
    using z [of t "map fst xs"] by simp
  show "t \<in> set (adding S) \<Longrightarrow>
      t \<notin> set (remove1 t (adding S)) \<and> t \<notin> set (running S) \<and> t \<notin> fst ` set (returned S)"
    unfolding i z [of t] r using c by linarith
  show "t \<in> set (running S) \<Longrightarrow>
      t \<notin> set (adding S) \<and> t \<notin> set (remove1 t (running S)) \<and> t \<notin> fst ` set (returned S)"
    unfolding i z [of t] r using c by linarith
  show "(t, fin) \<in> set (returned S) \<Longrightarrow>
      t \<notin> set (adding S) \<and> t \<notin> set (running S) \<and> t \<notin> fst ` set (remove1 (t, fin) (returned S))"
    using c m unfolding i z [of t] by linarith
qed

text \<open>Steps that leave the tasks, the queues and the task lists alone.\<close>

lemma task_inv_control:
  assumes "task_inv S" "tasks (sch T) = tasks (sch S)" "tasksByOrder (sch T) = tasksByOrder (sch S)"
    "tasksByTime (sch T) = tasksByTime (sch S)" "taskFresh (sch T) = taskFresh (sch S)"
    "adding T = adding S" "running T = running S" "returned T = returned S"
  shows "task_inv T"
proof -
  note w = wf_fields [OF assms(4,3)] and h = heap_fields [OF assms(2)]
  have "in_window b (sch T) = in_window b (sch S)" for b
    using assms by (simp add: in_window_def)
  with assms w h show ?thesis
    by (simp add: task_inv_def live_def outside_def unqueued_def)
qed

text \<open>
  All other steps: the new scheduler state is well formed, and the live tasks are the old ones, or
  some of them, or one more that did not exist before.
\<close>

lemma task_inv_step:
  assumes inv: "task_inv S" and wf: "sched_wf (sch T)" "time_heap (sch T)"
    and win: "\<And>b. in_window b (sch T) \<Longrightarrow> in_window b (sch S) \<Longrightarrow> order_heap b (sch S) \<Longrightarrow> order_heap b (sch T)"
    and old: "\<And>t. t < taskFresh (sch S) \<Longrightarrow> seq (tasks (sch T) t) = seq (tasks (sch S) t)"
    and fresh: "taskFresh (sch S) \<le> taskFresh (sch T)"
    and live: "live T \<subseteq># live S \<or>
      live T = add_mset (taskFresh (sch S)) (live S) \<and> taskFresh (sch T) = Suc (taskFresh (sch S))"
    and out: "\<And>t. t \<in> outside T \<Longrightarrow> unqueued (sch T) t"
  shows "task_inv T"
proof -
  have "in_window b (sch T) \<Longrightarrow> in_window b (sch S)" for b
    unfolding in_window_def using old fresh by (metis less_le_trans)
  then have "in_window b (sch T) \<Longrightarrow> order_heap b (sch T)" for b
    using win inv by (auto simp: task_inv_def)
  moreover have "(\<forall>t. count (live T) t \<le> 1) \<and> (\<forall>t \<in># live T. t < taskFresh (sch T))"
  proof (cases "live T \<subseteq># live S")
    case True
    then have "count (live T) t \<le> count (live S) t" for t by (rule mset_subset_eq_count)
    moreover have "t \<in># live T \<Longrightarrow> t \<in># live S" for t using True by (rule mset_subset_eqD)
    ultimately show ?thesis
      using inv fresh unfolding task_inv_def by (meson le_trans less_le_trans)
  next
    case False
    then have l: "live T = add_mset (taskFresh (sch S)) (live S)"
      "taskFresh (sch T) = Suc (taskFresh (sch S))" using live by auto
    have "taskFresh (sch S) \<notin># live S" using inv by (auto simp: task_inv_def)
    then have "count (live S) (taskFresh (sch S)) = 0" by (simp add: not_in_iff)
    then show ?thesis using inv l by (auto simp: task_inv_def less_Suc_eq)
  qed
  ultimately show ?thesis using wf out by (simp add: task_inv_def)
qed


lemmas control_simps =
  SetSlots_def notifyLoop_def Start_def loop_exit_def Stop_request_def cancelTasks_def

lemma init_inv: "numCPU \<le> K \<Longrightarrow> task_inv (init_sys numCPU counter objs t0)"
  by (simp add: task_inv_def init_sys_def live_def outside_def New_heaps)

lemma init_count: "numCPU \<le> K \<Longrightarrow> count_inv K (init_sys numCPU counter objs t0)"
  by (simp add: count_inv_def init_sys_def New_def loop_live_def le_max_iff_disj)

lemma add_new_inv:
  assumes inv: "task_inv S"
    and n: "newTask (Some f) (map (NextAfterDuration (now S)) ds) (sch S) = Inr (t, s1)"
  shows "task_inv (S\<lparr>sch := s1, adding := t # adding S\<rparr>)"
proof (rule task_inv_step [OF inv])
  have wf: "sched_wf (sch S)" and th: "time_heap (sch S)" using inv by (simp_all add: task_inv_def)
  note f = newTask_facts [OF wf n]
  have ne: "u \<in># queued (sch S) \<Longrightarrow> u \<noteq> t" for u
    using inv f(1) by (auto simp: task_inv_def live_def)
  then have q: "u \<in> set (byTime (sch S)) \<or> u \<in> set (byOrder (sch S)) \<Longrightarrow>
      tasks s1 u = tasks (sch S) u" for u
    using f(6) by (auto simp: queued_def)
  let ?T = "S\<lparr>sch := s1, adding := t # adding S\<rparr>"
  show "sched_wf (sch ?T)" using f(2) by simp
  show "time_heap (sch ?T)" using th by (rule time_heap_cong) (simp_all add: q f(17))
  show "order_heap b (sch ?T)" if "order_heap b (sch S)" for b
    using that by (rule order_heap_cong) (simp_all add: q f(16))
  show "u < taskFresh (sch S) \<Longrightarrow> seq (tasks (sch ?T) u) = seq (tasks (sch S) u)" for u
    using f(1,6) by auto
  show "taskFresh (sch S) \<le> taskFresh (sch ?T)" using f(1,4) by simp
  show "live ?T \<subseteq># live S \<or> live ?T = add_mset (taskFresh (sch S)) (live S) \<and>
      taskFresh (sch ?T) = Suc (taskFresh (sch S))"
    using f(1,3,4) by (simp add: live_def)
  show "unqueued (sch ?T) u" if "u \<in> outside ?T" for u
  proof (cases "u = t")
    case False
    then have "unqueued (sch S) u" using that inv by (auto simp: outside_def task_inv_def)
    then show ?thesis using f(6) [OF False] by (simp add: unqueued_def)
  qed (use f(5) in simp)
qed

text \<open>Enqueueing a task that is outside the queues, by \<open>Add\<close> or after a failed attempt.\<close>

lemma enqueue_outside:
  assumes inv: "task_inv S" and t: "t \<in> outside S"
  shows "\<exists>s'. enqueue t (sch S) = Inr s' \<and> sched_wf s' \<and> same_control (sch S) s' \<and>
    queued s' = add_mset t (queued (sch S)) \<and> (\<forall>u. u \<noteq> t \<longrightarrow> tasks s' u = tasks (sch S) u) \<and>
    time_heap s' \<and> (\<forall>b. in_window b (sch S) \<longrightarrow> order_heap b s')"
proof -
  have pre: "sched_wf (sch S)" "t < taskFresh (sch S)" "t \<notin># queued (sch S)" "unqueued (sch S) t"
    using inv outside_live [OF t inv] t by (auto simp: task_inv_def)
  from enqueue_spec [OF pre] obtain s' where s': "enqueue t (sch S) = Inr s'" "sched_wf s'"
    "same_control (sch S) s'" "queued s' = add_mset t (queued (sch S))"
    "\<forall>u. u \<noteq> t \<longrightarrow> tasks s' u = tasks (sch S) u" by blast
  note h = enqueue_heap [OF pre s'(1)]
  have "time_heap s'" using h(1) inv by (simp add: task_inv_def)
  moreover have "in_window b (sch S) \<Longrightarrow> order_heap b s'" for b
    using h(2) [of b] inv pre(2) by (auto simp: task_inv_def in_window_def)
  ultimately show ?thesis using s' by blast
qed


lemma add_enqueue_inv:
  assumes inv: "task_inv S" and t: "t \<in> set (adding S)" and a: "Add_locked t (sch S) = Inr s1"
  shows "task_inv (S\<lparr>sch := s1, adding := remove1 t (adding S), notifying := n\<rparr>)"
    and "same_control (sch S) s1"
proof -
  have "t \<in> outside S" using t by (simp add: outside_def)
  from enqueue_outside [OF inv this] a
  have f: "sched_wf s1" "same_control (sch S) s1" "queued s1 = add_mset t (queued (sch S))"
    "\<forall>u. u \<noteq> t \<longrightarrow> tasks s1 u = tasks (sch S) u" "time_heap s1"
    "\<forall>b. in_window b (sch S) \<longrightarrow> order_heap b s1"
    by (auto simp: Add_locked_def)
  show "same_control (sch S) s1" by (rule f(2))
  let ?T = "S\<lparr>sch := s1, adding := remove1 t (adding S), notifying := n\<rparr>"
  have live: "live ?T = live S"
    using t f(3) by (simp add: live_def)
  have d: "t \<notin> outside ?T"
    using inv t live_outside [of S t] by (auto simp: task_inv_def outside_def)
  show "task_inv ?T"
  proof (rule task_inv_step [OF inv])
    show "sched_wf (sch ?T)" "time_heap (sch ?T)" using f(1,5) by simp_all
    show "order_heap b (sch ?T)" if "in_window b (sch S)" for b using f(6) that by simp
    show "u < taskFresh (sch S) \<Longrightarrow> seq (tasks (sch ?T) u) = seq (tasks (sch S) u)"
      "taskFresh (sch S) \<le> taskFresh (sch ?T)" for u
      using f(2) by (simp_all add: same_control_def)
    show "live ?T \<subseteq># live S \<or> live ?T = add_mset (taskFresh (sch S)) (live S) \<and>
        taskFresh (sch ?T) = Suc (taskFresh (sch S))"
      using live by simp
    show "unqueued (sch ?T) u" if "u \<in> outside ?T" for u
      using that d f(4) inv set_remove1_subset [of t "adding S"]
      by (cases "u = t") (auto simp: outside_def task_inv_def unqueued_def)
  qed
qed

lemma loop_launch_inv:
  assumes inv: "task_inv S" and l: "loop_iteration (now S) (sch S) = (LoopLaunch t, s1)"
  shows "task_inv (S\<lparr>sch := s1, running := t # running S\<rparr>)"
proof (rule task_inv_step [OF inv])
  have wf: "sched_wf (sch S)" and th: "time_heap (sch S)" using inv by (simp_all add: task_inv_def)
  note f = loop_launch_facts [OF wf l] and h = loop_launch_heap [OF wf l]
  let ?T = "S\<lparr>sch := s1, running := t # running S\<rparr>"
  show "sched_wf (sch ?T)" "time_heap (sch ?T)" using f(3) h(1) th by simp_all
  show "order_heap b (sch ?T)" if "order_heap b (sch S)" for b using h(2) that by simp
  show "u < taskFresh (sch S) \<Longrightarrow> seq (tasks (sch ?T) u) = seq (tasks (sch S) u)"
    "taskFresh (sch S) \<le> taskFresh (sch ?T)" for u
    using f(5) by (simp_all add: same_control_def)
  show "live ?T \<subseteq># live S \<or> live ?T = add_mset (taskFresh (sch S)) (live S) \<and>
      taskFresh (sch ?T) = Suc (taskFresh (sch S))"
    using f(4) by (simp add: live_def)
  show "unqueued (sch ?T) u" if "u \<in> outside ?T" for u
    using that f(6,7) inv by (cases "u = t") (auto simp: outside_def task_inv_def unqueued_def)
qed


lemma run_fn_inv:
  assumes inv: "task_inv S" and t: "t \<in> set (running S)"
    and r: "run (now S) err (tasks (sch S) t) = (fin, x)"
  shows "task_inv (S\<lparr>sch := set_task t (\<lambda>_. x) (sch S), running := remove1 t (running S),
      returned := (t, fin) # returned S\<rparr>)"
proof (rule task_inv_step [OF inv])
  have out: "t \<in> outside S" using t by (simp add: outside_def)
  note nq = outside_live [OF out inv] and f = run_simps [OF r]
  have wf: "sched_wf (sch S)" and th: "time_heap (sch S)" and uq: "unqueued (sch S) t"
    using inv out by (simp_all add: task_inv_def)
  note w = set_task_wf [OF wf conjunct1 [OF nq] f(1)] and h = set_task_heap [OF conjunct1 [OF nq]]
  let ?T = "S\<lparr>sch := set_task t (\<lambda>_. x) (sch S), running := remove1 t (running S),
      returned := (t, fin) # returned S\<rparr>"
  show "sched_wf (sch ?T)" "time_heap (sch ?T)" using w(1) h(1) th by simp_all
  show "order_heap b (sch ?T)" if "order_heap b (sch S)" for b using h(2) that by simp
  show "u < taskFresh (sch S) \<Longrightarrow> seq (tasks (sch ?T) u) = seq (tasks (sch S) u)"
    "taskFresh (sch S) \<le> taskFresh (sch ?T)" for u
    using f(1) by (simp_all add: sched_simps)
  show "live ?T \<subseteq># live S \<or> live ?T = add_mset (taskFresh (sch S)) (live S) \<and>
      taskFresh (sch ?T) = Suc (taskFresh (sch S))"
    using t w(2) by (simp add: live_def)
  show "unqueued (sch ?T) u" if "u \<in> outside ?T" for u
    using that f(2,3) uq inv
    by (cases "u = t")
      (auto simp: outside_def task_inv_def unqueued_def sched_simps dest: notin_set_remove1 set_remove1_subset [THEN subsetD])
qed

text \<open>The critical section at the end of \<open>runTask\<close>.\<close>

lemma runTask_locked_finished:
  "runTask_locked t True s = Inr s' \<Longrightarrow>
     s' = s\<lparr>taskActiveCount := taskActiveCount s - 1,
       loopNotification := loopNotification s \<or> queued s \<noteq> {#}\<rparr>"
  by (auto simp: runTask_locked_def Let_def notifyLoop_def Set_def queued_def byOrder_def byTime_def
      Len_def heapLen_def split: if_splits)

lemma enqueue_active:
  "enqueue t (s\<lparr>taskActiveCount := n\<rparr>) =
     map_sum id (\<lambda>r. r\<lparr>taskActiveCount := n\<rparr>) (enqueue t s)"
proof -
  have "order_less (s\<lparr>taskActiveCount := n\<rparr>) = order_less s" "time_less (s\<lparr>taskActiveCount := n\<rparr>) = time_less s"
    by (auto simp: fun_eq_iff order_less_def time_less_def)
  then show ?thesis by (auto simp: enqueue_def set_task_def split: sum.split)
qed

lemma runTask_locked_retry:
  "runTask_locked t False s =
     map_sum id (\<lambda>r. r\<lparr>taskActiveCount := taskActiveCount s - 1,
         loopNotification := loopNotification r \<or> queued r \<noteq> {#}\<rparr>) (enqueue t s)"
  by (cases "enqueue t s")
    (auto simp: runTask_locked_def Let_def enqueue_active notifyLoop_def Set_def queued_def
      byOrder_def byTime_def Len_def heapLen_def)


lemma run_locked_facts:
  assumes inv: "task_inv S" and t: "(t, fin) \<in> set (returned S)"
  shows "\<exists>s1 r. runTask_locked t fin (sch S) = Inr s1 \<and> same_control (sch S) r \<and> sched_wf r \<and>
      time_heap r \<and> (\<forall>b. in_window b (sch S) \<longrightarrow> order_heap b r) \<and>
      queued r = (if fin then queued (sch S) else add_mset t (queued (sch S))) \<and>
      (\<forall>u. u \<noteq> t \<longrightarrow> tasks r u = tasks (sch S) u) \<and>
      s1 = r\<lparr>taskActiveCount := taskActiveCount (sch S) - 1,
        loopNotification := loopNotification r \<or> queued r \<noteq> {#}\<rparr>"
proof (cases fin)
  case True
  have "runTask_locked t True (sch S) \<noteq> Inl p" for p
    by (auto simp: runTask_locked_def Let_def)
  then obtain s1 where s1: "runTask_locked t True (sch S) = Inr s1" by (metis sumE)
  then show ?thesis
    using True inv runTask_locked_finished [OF s1] by (auto simp: task_inv_def intro!: exI [of _ "sch S"])
next
  case False
  have "t \<in> outside S" using t by (force simp: outside_def)
  from enqueue_outside [OF inv this] obtain r where r: "enqueue t (sch S) = Inr r" "sched_wf r"
    "same_control (sch S) r" "queued r = add_mset t (queued (sch S))"
    "\<forall>u. u \<noteq> t \<longrightarrow> tasks r u = tasks (sch S) u" "time_heap r"
    "\<forall>b. in_window b (sch S) \<longrightarrow> order_heap b r" by blast
  show ?thesis
    using False r by (intro exI [of _ "r\<lparr>taskActiveCount := taskActiveCount (sch S) - 1,
        loopNotification := loopNotification r \<or> queued r \<noteq> {#}\<rparr>"] exI [of _ r])
      (simp add: runTask_locked_retry)
qed

lemma run_locked_active:
  assumes "task_inv S" "(t, fin) \<in> set (returned S)" "runTask_locked t fin (sch S) = Inr s1"
  shows "taskActiveCount s1 = taskActiveCount (sch S) - 1" "slots s1 = slots (sch S)"
    "loopActiveCount s1 = loopActiveCount (sch S)" "loopStopRequested s1 = loopStopRequested (sch S)"
  using run_locked_facts [OF assms(1,2)] assms(3) by (auto simp: same_control_def)

lemma run_locked_inv:
  assumes inv: "task_inv S" and t: "(t, fin) \<in> set (returned S)"
    and a: "runTask_locked t fin (sch S) = Inr s1"
  shows "task_inv (S\<lparr>sch := s1, returned := remove1 (t, fin) (returned S), finishing := n\<rparr>)"
proof -
  from run_locked_facts [OF inv t] a obtain r where f: "sched_wf r" "same_control (sch S) r"
    "time_heap r" "\<forall>b. in_window b (sch S) \<longrightarrow> order_heap b r"
    "queued r = (if fin then queued (sch S) else add_mset t (queued (sch S)))"
    "\<forall>u. u \<noteq> t \<longrightarrow> tasks r u = tasks (sch S) u"
    "s1 = r\<lparr>taskActiveCount := taskActiveCount (sch S) - 1,
        loopNotification := loopNotification r \<or> queued r \<noteq> {#}\<rparr>"
    by auto
  have e: "tasksByTime s1 = tasksByTime r" "tasksByOrder s1 = tasksByOrder r" "tasks s1 = tasks r"
    "taskFresh s1 = taskFresh r" using f(7) by simp_all
  note w = wf_fields [OF e(1,2)] and h = heap_fields [OF e(3)]
  let ?T = "S\<lparr>sch := s1, returned := remove1 (t, fin) (returned S), finishing := n\<rparr>"
  have d: "t \<notin> outside ?T"
    using inv t live_outside(3) [of S t fin] by (auto simp: task_inv_def outside_def)
  show ?thesis
  proof (rule task_inv_step [OF inv])
    show "sched_wf (sch ?T)" "time_heap (sch ?T)" using f w(4) [OF e(3,4)] h(1) [OF e(1)] by simp_all
    show "order_heap b (sch ?T)" if "in_window b (sch S)" for b using f(4) h(2) [OF e(2)] that by simp
    show "u < taskFresh (sch S) \<Longrightarrow> seq (tasks (sch ?T) u) = seq (tasks (sch S) u)"
      "taskFresh (sch S) \<le> taskFresh (sch ?T)" for u
      using f(2) e by (simp_all add: same_control_def)
    have "mset (map fst (returned S)) = add_mset t (mset (map fst (remove1 (t, fin) (returned S))))"
      using mset_map_remove1 [OF t, of fst] by simp
    then have "live ?T \<subseteq># live S" using w(1) f(5) by (simp add: live_def)
    then show "live ?T \<subseteq># live S \<or> live ?T = add_mset (taskFresh (sch S)) (live S) \<and>
        taskFresh (sch ?T) = Suc (taskFresh (sch S))" ..
    have "outside ?T \<subseteq> outside S"
      using set_remove1_subset [of "(t, fin)" "returned S"] by (auto simp: outside_def)
    then have "u \<in> outside ?T \<Longrightarrow> unqueued (sch S) u" for u using inv by (auto simp: task_inv_def)
    then show "unqueued (sch ?T) u" if "u \<in> outside ?T" for u
      using that d f(6) e(3) by (cases "u = t") (auto simp: unqueued_def)
  qed
qed

lemma stop_ok_inv:
  assumes inv: "task_inv S" and c: "Stop_check (sch S) = (True, s1)"
  shows "task_inv (S\<lparr>sch := cancelTasks s1, waiter := w\<rparr>)"
proof (rule task_inv_step [OF inv])
  have wf: "sched_wf (sch S)" using inv by (simp add: task_inv_def)
  note q = Clear_queues [OF wf]
  have s1: "s1 = (sch S)\<lparr>tasksByOrder := Clear (order_less (sch S)) (tasksByOrder (sch S)),
      tasksByTime := Clear (time_less (sch S)) (tasksByTime (sch S))\<rparr>"
    using c by (auto simp: Stop_check_def split: if_splits)
  let ?T = "S\<lparr>sch := cancelTasks s1, waiter := w\<rparr>"
  have e: "tasksByTime (cancelTasks s1) = tasksByTime s1" "tasksByOrder (cancelTasks s1) = tasksByOrder s1"
    "tasks (cancelTasks s1) = tasks s1" "taskFresh (cancelTasks s1) = taskFresh s1"
    by (simp_all add: cancelTasks_def)
  note f = wf_fields [OF e(1,2)] and h = heap_fields [OF e(3)]
  show "sched_wf (sch ?T)" "time_heap (sch ?T)"
    using q(1,5) f(4) [OF e(3,4)] h(1) [OF e(1)] by (simp_all add: s1 [symmetric])
  show "order_heap b (sch ?T)" for b using q(6) [of b] h(2) [OF e(2)] by (simp add: s1 [symmetric])
  show "u < taskFresh (sch S) \<Longrightarrow> seq (tasks (sch ?T) u) = seq (tasks (sch S) u)"
    "taskFresh (sch S) \<le> taskFresh (sch ?T)" for u
    by (simp_all add: cancelTasks_def s1)
  show "live ?T \<subseteq># live S \<or> live ?T = add_mset (taskFresh (sch S)) (live S) \<and>
      taskFresh (sch ?T) = Suc (taskFresh (sch S))"
    using f(1) q(4) by (simp add: live_def s1 [symmetric])
  show "unqueued (sch ?T) u" if "u \<in> outside ?T" for u
    using that inv by (auto simp: outside_def task_inv_def unqueued_def cancelTasks_def s1)
qed

lemma task_inv_preserved:
  assumes "step K S T" "task_inv S"
  shows "task_inv T"
  using assms
proof (cases rule: step.cases)
  case (loop_return s1)
  then show ?thesis
    using assms(2) loop_return_facts [of "sch S" "now S" s1]
    by (auto simp: task_inv_def [of S] intro: task_inv_control [OF assms(2)])
next
  case (loop_wait d s1)
  then have "s1 = sch S" using assms(2) loop_wait_facts(1) [of "sch S" "now S" d s1] by (simp add: task_inv_def)
  then show ?thesis using loop_wait by (auto intro: task_inv_control [OF assms(2)])
next
  case (start s1)
  then show ?thesis
    by (auto simp: Start_def split: if_splits intro!: task_inv_control [OF assms(2)])
next
  case (stop_ok s1)
  then show ?thesis using stop_ok_inv [OF assms(2)] by simp
next
  case (stop_wait s1)
  then show ?thesis
    by (auto simp: Stop_check_def split: if_splits intro!: task_inv_control [OF assms(2)])
qed (auto intro: task_inv_control [OF assms(2)] add_new_inv [OF assms(2)] add_enqueue_inv [OF assms(2)]
    loop_launch_inv [OF assms(2)] run_fn_inv [OF assms(2)] run_locked_inv [OF assms(2)] simp: control_simps)


lemma count_inv_preserved:
  assumes "step K S T" "task_inv S" "count_inv K S"
  shows "count_inv K T"
  using assms(1)
proof (cases rule: step.cases)
  case (add_new f ds t s1)
  then show ?thesis
    using newTask_facts [of "sch S"] assms(2,3) by (simp add: task_inv_def count_inv_def)
next
  case (add_enqueue t s1)
  then show ?thesis
    using add_enqueue_inv(2) [OF assms(2) add_enqueue(2,3)] assms(3)
    by (simp add: same_control_def count_inv_def)
next
  case (start s1)
  then show ?thesis
    using assms(3) by (auto simp: Start_def count_inv_def loop_live_def split: if_splits)
next
  case (loop_return s1)
  then show ?thesis
    using assms(2,3) loop_return_facts [of "sch S" "now S" s1]
    by (auto simp: task_inv_def count_inv_def loop_live_def)
next
  case (loop_wait d s1)
  then show ?thesis
    using assms(2,3) loop_wait_facts(1) [of "sch S" "now S" d s1]
    by (auto simp: task_inv_def count_inv_def loop_live_def)
next
  case (loop_launch t s1)
  then show ?thesis
    using assms(2,3) loop_launch_facts [of "sch S" "now S" t s1]
    by (auto simp: task_inv_def count_inv_def same_control_def)
next
  case (run_fn t err fin x)
  then show ?thesis
    using assms(3) by (simp add: count_inv_def sched_simps int_length_remove1)
next
  case (run_locked t fin s1)
  then show ?thesis
    using assms(3) run_locked_active [OF assms(2) run_locked(2,3)] int_length_remove1 [OF run_locked(2)]
    by (simp add: count_inv_def)
next
  case (stop_ok s1)
  then show ?thesis
    using assms(3) by (auto simp: count_inv_def Stop_check_def cancelTasks_def split: if_splits)
next
  case (stop_wait s1)
  then show ?thesis
    using assms(3) by (auto simp: count_inv_def Stop_check_def split: if_splits)
qed (use assms(3) in \<open>auto simp: count_inv_def control_simps loop_live_def\<close>)

lemma reachable_inv:
  assumes "reachable K S"
  shows "task_inv S \<and> count_inv K S"
  using assms
  by induction (auto intro: init_inv init_count task_inv_preserved count_inv_preserved)


section \<open>Wake-ups\<close>

text \<open>
  A notification of the loop is pending when the token is set or some goroutine is about to set
  it. A parked loop has a notification pending, or there is nothing it could do: no free slot, or
  no task without due time and a timer armed that fires no later than the first due time.
\<close>

definition notification_pending :: "'f sys \<Rightarrow> bool" where
  "notification_pending S \<longleftrightarrow>
     loopNotification (sch S) \<or> 0 < notifying S \<or> (\<exists>k. waiter S = Notifying k)"

definition nothing_before :: "gotime option \<Rightarrow> 'f scheduler \<Rightarrow> bool" where
  "nothing_before d s \<longleftrightarrow> byOrder s = [] \<and>
     (\<forall>t \<in> set (byTime s). \<exists>u. d = Some u \<and> u \<le> nextAfter (tasks s t))"

definition wake_inv :: "'f sys \<Rightarrow> bool" where
  "wake_inv S \<longleftrightarrow> (\<forall>d. lpc S = Parked d \<longrightarrow> notification_pending S \<or>
     \<not> loopStopRequested (sch S) \<and>
       (slots (sch S) \<le> taskActiveCount (sch S) \<or> nothing_before d (sch S)))"

text \<open>
  A caller waiting in \<open>Quiesce\<close> or \<open>Stop\<close> whose condition has become true has a wake-up
  coming; once \<open>Stop\<close> was called the stop request stands; and a caller that returned from \<open>Stop\<close>
  left neither loop nor task behind.
\<close>

definition stop_waiter :: "waiter_pc \<Rightarrow> bool" where
  "stop_waiter w \<longleftrightarrow> w \<in> {Notifying WStop, Checking WStop, Waiting WStop, Returned WStop}"

definition stopped :: "'f sys \<Rightarrow> bool" where
  "stopped S \<longleftrightarrow> loopStopRequested (sch S) \<and> \<not> loop_live (lpc S) \<and> running S = [] \<and> returned S = []"

definition waiter_inv :: "'f sys \<Rightarrow> bool" where
  "waiter_inv S \<longleftrightarrow>
     (stop_waiter (waiter S) \<longrightarrow> loopStopRequested (sch S)) \<and>
     (waiter S = Waiting WQuiesce \<longrightarrow> Quiesce_done (sch S) \<longrightarrow>
        taskFinished (sch S) \<or> 0 < finishing S) \<and>
     (waiter S = Waiting WStop \<longrightarrow> loopActiveCount (sch S) = 0 \<longrightarrow> taskActiveCount (sch S) = 0 \<longrightarrow>
        taskFinished (sch S) \<or> 0 < finishing S \<or> loopFinished (sch S) \<or> lpc S = Exited) \<and>
     (waiter S = Returned WStop \<longrightarrow> stopped S \<and> taskContextCancelled (sch S))"

lemma Quiesce_done_queued: "Quiesce_done s \<longleftrightarrow> taskActiveCount s = 0 \<and> queued s = {#}"
  by (auto simp: Quiesce_done_def queued_def byOrder_def byTime_def Len_def heapLen_def)

lemma nothing_before_cong:
  assumes "nothing_before d s" "byOrder s' = byOrder s" "byTime s' = byTime s"
    "\<And>t. t \<in> set (byTime s) \<Longrightarrow> nextAfter (tasks s' t) = nextAfter (tasks s t)"
  shows "nothing_before d s'"
  using assms by (simp add: nothing_before_def)

lemma nothing_before_empty: "queued s = {#} \<Longrightarrow> nothing_before d s"
  by (simp add: nothing_before_def queued_def)

lemma nothing_before_wait:
  assumes "time_heap s" "byOrder s = []"
    "d = (if byTime s = [] then None else Some (AddDur t0 (remaining_of t0 s)))"
    "\<not> due t0 s"
  shows "nothing_before d s"
proof -
  have "AddDur t0 (remaining_of t0 s) \<le> nextAfter (tasks s (hd (byTime s)))" if "byTime s \<noteq> []"
    using that AddDur_Sub_le assms(4) by (auto simp: remaining_of_def due_def not_le)
  moreover have "nextAfter (tasks s (hd (byTime s))) \<le> nextAfter (tasks s t)" if "t \<in> set (byTime s)" for t
    using time_heap_hd [OF assms(1) that] .
  ultimately show ?thesis using assms(2,3) by (fastforce simp: nothing_before_def)
qed

lemma stop_monotone:
  assumes "step K S T" "task_inv S" "loopStopRequested (sch S)"
  shows "loopStopRequested (sch T)" "set (running T) \<subseteq> set (running S)"
proof -
  have "loopStopRequested (sch T) \<and> set (running T) \<subseteq> set (running S)"
    using assms(1)
  proof (cases rule: step.cases)
    case (add_new f ds t s1)
    then show ?thesis using newTask_facts [of "sch S"] assms(2,3) by (simp add: task_inv_def)
  next
    case (add_enqueue t s1)
    then show ?thesis
      using add_enqueue_inv(2) [OF assms(2) add_enqueue(2,3)] assms(3) by (simp add: same_control_def)
  next
    case (run_locked t fin s1)
    then show ?thesis
      using run_locked_active [OF assms(2) run_locked(2,3)] assms(3) by simp
  next
    case (run_fn t err fin x)
    then show ?thesis using assms(3) by (simp add: sched_simps set_remove1_subset)
  next
    case (stop_ok s1)
    then show ?thesis using assms(3) by (auto simp: Stop_check_def cancelTasks_def split: if_splits)
  next
    case (stop_wait s1)
    then show ?thesis using assms(3) by (auto simp: Stop_check_def split: if_splits)
  qed (use assms(3) in \<open>auto simp: control_simps split: if_splits\<close>)
  then show "loopStopRequested (sch T)" "set (running T) \<subseteq> set (running S)" by auto
qed


lemma stop_stays:
  assumes "step K S T" "task_inv S" "count_inv K S" "stopped S"
  shows "stopped T"
proof -
  have s: "loopStopRequested (sch S)" "running S = []" "returned S = []"
    "lpc S \<noteq> AtTop" "lpc S \<noteq> Exiting" "\<And>d. lpc S \<noteq> Parked d"
    using assms(4) by (auto simp: stopped_def loop_live_def)
  have "running T = []" "loopStopRequested (sch T)"
    using stop_monotone [OF assms(1,2) s(1)] s(2) by auto
  moreover have "\<not> loop_live (lpc T) \<and> returned T = []"
    using assms(1) by cases (use s in \<open>auto simp: loop_live_def Start_def\<close>)
  ultimately show ?thesis by (simp add: stopped_def)
qed

lemma wake_inv_preserved:
  assumes "step K S T" "task_inv S" "wake_inv S"
  shows "wake_inv T"
  using assms(1)
proof (cases rule: step.cases)
  case (add_new f ds t s1)
  have wf: "sched_wf (sch S)" using assms(2) by (simp add: task_inv_def)
  note f = newTask_facts [OF wf add_new(2)]
  have "u \<in> set (byTime (sch S)) \<Longrightarrow> u \<noteq> t" for u using wf f(1) by (auto simp: sched_wf_def)
  then have "nothing_before d s1" if "nothing_before d (sch S)" for d
    using f(6) by (intro nothing_before_cong [OF that]) (auto simp: byOrder_def byTime_def f(16,17))
  then show ?thesis
    using add_new assms(3) f by (auto simp: wake_inv_def notification_pending_def)
next
  case (loop_wait d s1)
  have wf: "sched_wf (sch S)" "time_heap (sch S)" using assms(2) by (simp_all add: task_inv_def)
  note f = loop_wait_facts [OF wf(1) loop_wait(3)]
  have "slots (sch S) \<le> taskActiveCount (sch S) \<or> nothing_before d (sch S)"
    using nothing_before_wait [OF wf(2)] f(3) by (meson not_le)
  then show ?thesis using loop_wait(1) f(1,2) by (auto simp: wake_inv_def)
next
  case (run_fn t err fin x)
  have "t \<in> outside S" using run_fn by (simp add: outside_def)
  then have "t \<notin> set (byTime (sch S))" using outside_live [OF _ assms(2)] by (auto simp: queued_def)
  then have "nothing_before d (set_task t (\<lambda>_. x) (sch S))" if "nothing_before d (sch S)" for d
    by (intro nothing_before_cong [OF that]) (auto simp: byOrder_def byTime_def sched_simps)
  then show ?thesis
    using run_fn assms(3) by (auto simp: wake_inv_def notification_pending_def sched_simps)
next
  case (run_locked t fin s1)
  from run_locked_facts [OF assms(2) run_locked(2)] run_locked(3) obtain r
    where r: "same_control (sch S) r" "s1 = r\<lparr>taskActiveCount := taskActiveCount (sch S) - 1,
        loopNotification := loopNotification r \<or> queued r \<noteq> {#}\<rparr>" by auto
  have "queued s1 = queued r" by (rule wf_fields(1)) (simp_all add: r)
  then show ?thesis
    using run_locked(1) r assms(3) nothing_before_empty [of s1]
    by (auto simp: wake_inv_def notification_pending_def same_control_def)
next
  case (stop_ok s1)
  then have "nothing_before d (cancelTasks s1)" for d
    using Clear_queues(4) [of "sch S"] assms(2)
    by (intro nothing_before_empty)
      (auto simp: task_inv_def Stop_check_def cancelTasks_def queued_def byOrder_def byTime_def split: if_splits)
  then show ?thesis
    using stop_ok assms(3)
    by (auto simp: wake_inv_def notification_pending_def Stop_check_def cancelTasks_def split: if_splits)
next
  case (stop_wait s1)
  then show ?thesis
    using assms(3) by (auto simp: wake_inv_def notification_pending_def Stop_check_def split: if_splits)
qed (use assms(3) in \<open>auto simp: wake_inv_def notification_pending_def control_simps Set_def
    nothing_before_def byOrder_def byTime_def split: if_splits\<close>)


text \<open>Steps that neither finish a task nor concern the waiting caller.\<close>

lemma waiter_inv_frame:
  assumes "waiter_inv S" "waiter T = waiter S" "finishing T = finishing S" "lpc T = lpc S"
    "stopped S \<Longrightarrow> stopped T" "Quiesce_done (sch T) \<Longrightarrow> Quiesce_done (sch S)"
    "loopStopRequested (sch T) = loopStopRequested (sch S)"
    "loopActiveCount (sch T) = loopActiveCount (sch S)"
    "taskActiveCount (sch T) = taskActiveCount (sch S)"
    "taskFinished (sch T) = taskFinished (sch S)" "loopFinished (sch T) = loopFinished (sch S)"
    "taskContextCancelled (sch T) = taskContextCancelled (sch S)"
  shows "waiter_inv T"
  using assms by (auto simp: waiter_inv_def)

lemma waiter_inv_preserved:
  assumes "step K S T" "task_inv S" "count_inv K S" "waiter_inv S"
  shows "waiter_inv T"
  using assms(1)
proof (cases rule: step.cases)
  case (add_new f ds t s1)
  have wf: "sched_wf (sch S)" using assms(2) by (simp add: task_inv_def)
  note f = newTask_facts [OF wf add_new(2)]
  have "stopped T" if "stopped S" using stop_stays [OF assms(1-3) that] .
  moreover have "taskContextCancelled s1 = taskContextCancelled (sch S)"
    using add_new(2) by (auto simp: newTask_def Let_def)
  ultimately show ?thesis
    using add_new(1) f by (intro waiter_inv_frame [OF assms(4)]) (simp_all add: Quiesce_done_queued)
next
  case (add_enqueue t s1)
  have c: "same_control (sch S) s1" by (rule add_enqueue_inv(2) [OF assms(2) add_enqueue(2,3)])
  have "t \<in> outside S" using add_enqueue(2) by (simp add: outside_def)
  then have "queued s1 \<noteq> {#}"
    using enqueue_outside [OF assms(2)] add_enqueue(3) by (force simp: Add_locked_def)
  then show ?thesis
    using add_enqueue(1) stop_stays [OF assms(1-3)] c
    by (intro waiter_inv_frame [OF assms(4)]) (simp_all add: Quiesce_done_queued same_control_def)
next
  case (loop_return s1)
  then have "s1 = sch S" using assms(2) loop_return_facts [of "sch S" "now S" s1] by (simp add: task_inv_def)
  then show ?thesis
    using loop_return assms(4) by (auto simp: waiter_inv_def stopped_def loop_live_def)
next
  case (loop_wait d s1)
  then have "s1 = sch S" using assms(2) loop_wait_facts(1) [of "sch S" "now S" d s1] by (simp add: task_inv_def)
  then show ?thesis
    using loop_wait assms(4) by (auto simp: waiter_inv_def stopped_def loop_live_def)
next
  case (loop_launch t s1)
  have "sched_wf (sch S)" using assms(2) by (simp add: task_inv_def)
  note f = loop_launch_facts [OF this loop_launch(3)]
  have "0 \<le> taskActiveCount (sch S)" using assms(3) by (simp add: count_inv_def)
  then show ?thesis
    using loop_launch assms(4) f(1,5)
    by (auto simp: waiter_inv_def Quiesce_done_def same_control_def stopped_def stop_waiter_def)
next
  case (run_fn t err fin x)
  then show ?thesis
    using stop_stays [OF assms(1-3)]
    by (intro waiter_inv_frame [OF assms(4)]) (simp_all add: sched_simps Quiesce_done_def)
next
  case (run_locked t fin s1)
  from run_locked_facts [OF assms(2) run_locked(2)] run_locked(3) have
    "taskContextCancelled s1 = taskContextCancelled (sch S)" by (auto simp: same_control_def)
  then show ?thesis
    using run_locked(1) assms(4) stop_stays [OF assms(1-3)] run_locked_active [OF assms(2) run_locked(2,3)]
    by (auto simp: waiter_inv_def)
next
  case (stop_ok s1)
  have "sch T = cancelTasks s1" "loopStopRequested (sch S)" "running T = running S"
    "returned T = returned S" "lpc T = lpc S" "waiter T = Returned WStop"
    using stop_ok(1,2) assms(4) by (auto simp: waiter_inv_def stop_waiter_def)
  moreover have "loopStopRequested s1 = loopStopRequested (sch S)" "loopActiveCount (sch S) = 0"
    "taskActiveCount (sch S) = 0"
    using stop_ok(3) by (auto simp: Stop_check_def split: if_splits)
  ultimately show ?thesis
    using assms(3) count_zero [OF assms(3)]
    by (auto simp: waiter_inv_def stopped_def count_inv_def cancelTasks_def split: if_splits)
next
  case (stop_wait s1)
  then show ?thesis
    using assms(4) by (auto simp: waiter_inv_def Stop_check_def stop_waiter_def split: if_splits)
qed (use assms(4) in \<open>auto simp: waiter_inv_def control_simps Set_def stopped_def loop_live_def
    stop_waiter_def Quiesce_done_def split: if_splits\<close>)

lemma reachable_wake: "reachable K S \<Longrightarrow> wake_inv S \<and> waiter_inv S"
proof (induction rule: reachable.induct)
  case (init numCPU counter objs t0)
  then show ?case by (simp add: init_sys_def wake_inv_def waiter_inv_def stop_waiter_def)
next
  case (step S T)
  then show ?case
    using reachable_inv wake_inv_preserved waiter_inv_preserved by blast
qed


section \<open>Progress of the loop\<close>

definition ready :: "'f sys \<Rightarrow> bool" where
  "ready S \<longleftrightarrow> \<not> loopStopRequested (sch S) \<and> taskActiveCount (sch S) < slots (sch S) \<and>
     (byOrder (sch S) \<noteq> [] \<or> (\<exists>t \<in> set (byTime (sch S)). nextAfter (tasks (sch S) t) \<le> now S))"

lemma launch_from_top:
  assumes "task_inv S" "lpc S = AtTop" "ready S"
  shows "\<exists>t T. step K S T \<and> t \<in># queued (sch S) \<and> t \<in> set (running T)"
proof -
  have wf: "sched_wf (sch S)" "time_heap (sch S)" using assms(1) by (simp_all add: task_inv_def)
  have r: "\<not> loopStopRequested (sch S)" "taskActiveCount (sch S) < slots (sch S)"
    using assms(3) by (simp_all add: ready_def)
  have "nextAfter (tasks (sch S) t) \<le> now S \<Longrightarrow> t \<in> set (byTime (sch S)) \<Longrightarrow> due (now S) (sch S)" for t
    using time_heap_hd [OF wf(2), of t] by (auto simp: due_def)
  then have some: "byOrder (sch S) \<noteq> [] \<or> due (now S) (sch S)"
    using assms(3) by (auto simp: ready_def)
  have "\<exists>t s1. loop_iteration (now S) (sch S) = (LoopLaunch t, s1)"
    using wf(1)
  proof (cases rule: popNextLocked_cases [where now = "now S"])
    case (time t q)
    show ?thesis using loop_iteration_pop [OF r time(6)] by auto
  next
    case (order t q)
    show ?thesis using loop_iteration_pop [OF r order(7)] by auto
  qed (use some in auto)
  then obtain t s1 where l: "loop_iteration (now S) (sch S) = (LoopLaunch t, s1)" by blast
  then have "t \<in># queued (sch S)" using loop_launch_facts(4) [OF wf(1) l] by simp
  with step.loop_launch [OF assms(2) l] show ?thesis by force
qed

lemma wake_from_park:
  assumes "reachable K S" "lpc S = Parked d" "ready S"
  shows "\<exists>T. (step K)\<^sup>*\<^sup>* S T \<and> lpc T = AtTop \<and> ready T \<and> queued (sch T) = queued (sch S)"
proof -
  let ?wake = "\<lambda>S :: 'a sys. S\<lparr>sch := (sch S)\<lparr>loopNotification := False\<rparr>, lpc := AtTop\<rparr>"
  have wake: "(step K)\<^sup>*\<^sup>* S (?wake T)"
    if "(step K)\<^sup>*\<^sup>* S T" "lpc T = Parked d" "loopNotification (sch T)" for T
    by (rule rtranclp.rtrancl_into_rtrancl [OF that(1)]) (rule step.wake_notify [OF that(2,3)])
  have w: "wake_inv S" using reachable_wake [OF assms(1)] by simp
  note simps = ready_def queued_def byOrder_def byTime_def notifyLoop_def Set_def
  show ?thesis
  proof (cases "notification_pending S")
    case False
    then obtain u where "d = Some u" "u \<le> now S"
      using w assms(2,3) by (fastforce simp: wake_inv_def ready_def nothing_before_def)
    then have "step K S (S\<lparr>lpc := AtTop\<rparr>)" using assms(2) by (auto intro: step.wake_timer)
    then show ?thesis using assms(3) by (auto simp: ready_def intro!: exI [of _ "S\<lparr>lpc := AtTop\<rparr>"])
  next
    case True
    then consider (set) "loopNotification (sch S)" | (notify) n where "notifying S = Suc n"
      | (waiter) k where "waiter S = Notifying k"
      using gr0_implies_Suc by (auto simp: notification_pending_def)
    then show ?thesis
    proof cases
      case set
      then show ?thesis
        using wake [OF rtranclp.rtrancl_refl assms(2)] assms(3)
        by (intro exI [of _ "?wake S"]) (simp add: simps)
    next
      case (notify n)
      let ?T = "S\<lparr>sch := notifyLoop (sch S), notifying := n\<rparr>"
      have "(step K)\<^sup>*\<^sup>* S ?T" using step.notify [OF notify] by blast
      from wake [OF this] show ?thesis
        using assms(2,3) by (intro exI [of _ "?wake ?T"]) (simp add: simps)
    next
      case (waiter k)
      let ?T = "S\<lparr>sch := notifyLoop (sch S), waiter := Checking k\<rparr>"
      have "(step K)\<^sup>*\<^sup>* S ?T" using step.wait_notify [OF waiter] by blast
      from wake [OF this] show ?thesis
        using assms(2,3) by (intro exI [of _ "?wake ?T"]) (simp add: simps)
    qed
  qed
qed

lemma reachable_steps: "(step K)\<^sup>*\<^sup>* S T \<Longrightarrow> reachable K S \<Longrightarrow> reachable K T"
  by (induction rule: rtranclp_induct) (auto intro: reachable.step)

end
