(* ===== verification/SchedulerProps.thy ===== *)
theory SchedulerProps
  imports SchedulerSystem
begin

text \<open>
  What the scheduler guarantees in every reachable state of its goroutines, and a small run of
  the system on which the guarantees are exercised.
\<close>

section \<open>A sample run\<close>

text \<open>Two tasks are added to a scheduler with two slots, one of them due in the future; then the
  loop is started.\<close>

definition sample_init :: "unit sys" where
  "sample_init = init_sys 2 0
     (\<lambda>_. \<lparr>fn = (), seq = 0, nextAfter = Time 0, attemptCount = 0, seqItem = None, timeItem = None\<rparr>) (Time 5)"

definition sample_add :: "duration list \<Rightarrow> unit sys \<Rightarrow> unit sys" where
  "sample_add ds S =
     (case newTask (Some ()) (map (NextAfterDuration (now S)) ds) (sch S) of
        Inl _ \<Rightarrow> S
      | Inr (t, s1) \<Rightarrow>
          (case Add_locked t s1 of
             Inl _ \<Rightarrow> S
           | Inr s2 \<Rightarrow> S\<lparr>sch := s2, notifying := Suc (notifying S)\<rparr>))"

definition sample_queued :: "unit sys" where
  "sample_queued = sample_add [] (sample_add [3] sample_init)"

definition sample_started :: "unit sys" where
  "sample_started = sample_queued\<lparr>sch := (sch sample_queued)\<lparr>loopActiveCount := 1\<rparr>, lpc := AtTop\<rparr>"

lemma sample_add_reachable:
  assumes "reachable K S"
  shows "reachable K (sample_add ds S)"
proof -
  obtain t s1 where n: "newTask (Some ()) (map (NextAfterDuration (now S)) ds) (sch S) = Inr (t, s1)"
    by (simp add: newTask_def Let_def)
  let ?T = "S\<lparr>sch := s1, adding := t # adding S\<rparr>"
  have T: "reachable K ?T" using assms step.add_new [OF n] by (rule reachable.step)
  have inv: "task_inv ?T" using reachable_inv [OF T] by simp
  have "t \<in> outside ?T" by (simp add: outside_def)
  from enqueue_outside [OF inv this] obtain s2 where s2: "Add_locked t s1 = Inr s2"
    by (auto simp: Add_locked_def)
  have "step K ?T (?T\<lparr>sch := s2, adding := remove1 t (adding ?T), notifying := Suc (notifying ?T)\<rparr>)"
    by (rule step.add_enqueue) (use s2 in simp_all)
  then have "reachable K (S\<lparr>sch := s2, notifying := Suc (notifying S)\<rparr>)"
    using reachable.step [OF T] by fastforce
  then show ?thesis using n s2 by (simp add: sample_add_def)
qed

lemma sample_queued_reachable: "reachable 2 sample_queued"
  unfolding sample_queued_def sample_init_def
  by (intro sample_add_reachable reachable.init) simp

lemma sample_started_reachable: "reachable 2 sample_started"
proof -
  have "\<not> loopStopRequested (sch sample_queued)" "loopActiveCount (sch sample_queued) = 0" by code_simp+
  then have "Start (sch sample_queued) = Inr ((sch sample_queued)\<lparr>loopActiveCount := 1\<rparr>)"
    by (simp add: Start_def)
  from step.start [OF this] show ?thesis
    using sample_queued_reachable unfolding sample_started_def by (rule reachable.step [rotated])
qed


section \<open>Properties\<close>

text \<open>
  C17. No interleaving of the scheduler's goroutines runs into one of the panics of \<open>enqueue\<close>: a
  task made by \<open>Add\<close> is always accepted, and so is a task that failed and is put back.
\<close>

theorem enqueue_never_panics:
  assumes "reachable K S"
  shows "(\<forall>t \<in> set (adding S). \<exists>s. Add_locked t (sch S) = Inr s) \<and>
    (\<forall>(t, fin) \<in> set (returned S). \<exists>s. runTask_locked t fin (sch S) = Inr s)"
proof -
  have inv: "task_inv S" using reachable_inv [OF assms] by simp
  have "\<exists>s. Add_locked t (sch S) = Inr s" if "t \<in> set (adding S)" for t
    using enqueue_outside [OF inv, of t] that by (auto simp: Add_locked_def outside_def)
  moreover have "\<exists>s. runTask_locked t fin (sch S) = Inr s" if "(t, fin) \<in> set (returned S)" for t fin
    using run_locked_facts [OF inv that] by blast
  ultimately show ?thesis by auto
qed

lemma sample_adding:
  obtains s1 where "reachable 2 (sample_started\<lparr>sch := s1, adding := [2]\<rparr>)"
proof -
  obtain t s1 where n: "newTask (Some ()) (map (NextAfterDuration (now sample_started)) [])
      (sch sample_started) = Inr (t, s1)"
    by (simp add: newTask_def Let_def)
  have "taskFresh (sch sample_started) = 2" "adding sample_started = []" by code_simp+
  then have "t = 2" using n by (auto simp: newTask_def Let_def)
  with step.add_new [OF n, of 2] reachable.step [OF sample_started_reachable]
  have "reachable 2 (sample_started\<lparr>sch := s1, adding := [2]\<rparr>)"
    using \<open>adding sample_started = []\<close> by simp
  then show ?thesis by (rule that)
qed

theorem enqueue_never_panics_witness:
  "\<exists>S :: unit sys. reachable 2 S \<and> adding S = [2] \<and> (\<exists>s. Add_locked 2 (sch S) = Inr s)"
proof (rule sample_adding)
  fix s1
  assume r: "reachable 2 (sample_started\<lparr>sch := s1, adding := [2]\<rparr>)"
  from enqueue_never_panics [OF r] r
  show "\<exists>S :: unit sys. reachable 2 S \<and> adding S = [2] \<and> (\<exists>s. Add_locked 2 (sch S) = Inr s)"
    by (intro exI [of _ "sample_started\<lparr>sch := s1, adding := [2]\<rparr>"]) auto
qed

text \<open>
  C3. A task is in at most one place at any time: waiting to be enqueued by \<open>Add\<close>, in one of the
  two queues, running, or returned; in particular no task ever runs twice at the same time.
\<close>

theorem task_in_one_place:
  assumes "reachable K S"
  shows "count (mset (adding S) + mset (vals (tasksByOrder (sch S))) + mset (vals (tasksByTime (sch S))) +
    mset (running S) + mset (map fst (returned S))) t \<le> 1"
proof -
  have "count (live S) t \<le> 1" using reachable_inv [OF assms] by (simp add: task_inv_def)
  then show ?thesis by (simp add: live_def queued_def byOrder_def byTime_def)
qed

theorem task_in_one_place_witness:
  "count (mset (adding sample_started) + mset (vals (tasksByOrder (sch sample_started))) +
    mset (vals (tasksByTime (sch sample_started))) +
    mset (running sample_started) + mset (map fst (returned sample_started))) 1 \<le> 1 \<and>
   vals (tasksByOrder (sch sample_started)) = [1]"
  using task_in_one_place [OF sample_started_reachable, of 1] by (rule conjI) code_simp

text \<open>
  C11. The number of tasks running never exceeds the limit: with \<open>K\<close> the largest slot count ever
  configured, at most \<open>max 1 K\<close> tasks are running or returning, and \<open>taskActiveCount\<close> counts them.
\<close>

theorem concurrency_bound:
  assumes "reachable K S"
  shows "taskActiveCount (sch S) = int (length (running S) + length (returned S)) \<and>
    int (length (running S) + length (returned S)) \<le> max 1 K"
  using reachable_inv [OF assms] by (simp add: count_inv_def)

text \<open>The sample run continued: the loop launches the task without due time.\<close>

definition sample_running :: "unit sys" where
  "sample_running = sample_started\<lparr>sch := snd (loop_iteration (now sample_started) (sch sample_started)),
     running := [1]\<rparr>"

lemma sample_launch:
  "loop_iteration (now sample_started) (sch sample_started) = (LoopLaunch 1, sch sample_running)"
proof -
  have "fst (loop_iteration (now sample_started) (sch sample_started)) = LoopLaunch 1" by code_simp
  moreover have "snd (loop_iteration (now sample_started) (sch sample_started)) = sch sample_running"
    by (simp add: sample_running_def)
  ultimately show ?thesis by (metis prod.collapse)
qed

lemma sample_running_reachable: "reachable 2 sample_running"
proof -
  have top: "lpc sample_started = AtTop" and idle: "running sample_started = []" by code_simp+
  have "sample_started\<lparr>sch := sch sample_running, running := 1 # running sample_started\<rparr> = sample_running"
    by (simp add: sample_running_def idle)
  with reachable.step [OF sample_started_reachable step.loop_launch [OF top sample_launch]]
  show ?thesis by simp
qed

theorem concurrency_bound_witness:
  "taskActiveCount (sch sample_running) = 1 \<and> int (length (running sample_running)) \<le> 2"
proof -
  have "running sample_running = [1]" "returned sample_running = []" by code_simp+
  then show ?thesis using concurrency_bound [OF sample_running_reachable] by simp
qed


text \<open>
  C10. Which task the loop launches: if some task with a due time is due, the launched task is due
  and none has an earlier due time; otherwise it is the task without due time whose sequence number
  was handed out first, counted from any base \<open>b\<close> such that all numbers in use lie within
  \<open>2 ^ 63\<close> of it. No task is launched before its due time.
\<close>

theorem launch_order:
  assumes "reachable K S" "loop_iteration (now S) (sch S) = (LoopLaunch t, s1)"
    "\<forall>u < taskFresh (sch S). seq (tasks (sch S) u) \<in> seq_window b"
  shows "if \<exists>u \<in> set (byTime (sch S)). nextAfter (tasks (sch S) u) \<le> now S
    then t \<in> set (byTime (sch S)) \<and> nextAfter (tasks (sch S) t) \<le> now S \<and>
      (\<forall>u \<in> set (byTime (sch S)). nextAfter (tasks (sch S) t) \<le> nextAfter (tasks (sch S) u))
    else t \<in> set (byOrder (sch S)) \<and>
      (\<forall>u \<in> set (byOrder (sch S)). unat (seq (tasks (sch S) t) - b) \<le> unat (seq (tasks (sch S) u) - b))"
proof -
  have inv: "sched_wf (sch S)" "time_heap (sch S)" "order_heap b (sch S)"
    using reachable_inv [OF assms(1)] assms(3) by (simp_all add: task_inv_def in_window_def)
  note l = loop_launch_facts(8) [OF inv(1) assms(2)] and hd = time_heap_hd [OF inv(2)]
  have d: "due (now S) (sch S) \<longleftrightarrow> (\<exists>u \<in> set (byTime (sch S)). nextAfter (tasks (sch S) u) \<le> now S)"
    using hd by (force simp: due_def)
  show ?thesis
  proof (cases "due (now S) (sch S)")
    case True
    then show ?thesis using l d hd by (auto simp: due_def)
  next
    case False
    have w: "u \<in> set (byOrder (sch S)) \<Longrightarrow> seq (tasks (sch S) u) \<in> seq_window b" for u
      using inv(1) assms(3) by (auto simp: sched_wf_def)
    have "unat (seq (tasks (sch S) t) - b) \<le> unat (seq (tasks (sch S) u) - b)"
      if "u \<in> set (byOrder (sch S))" for u
      using order_heap_hd [OF inv(3) that] seq_less_window [OF w [OF that] w [of t]] l False that
      by auto
    then show ?thesis using l d False by auto
  qed
qed

lemma sample_small: "1 \<in> seq_window 0" "2 \<in> seq_window 0"
  by (simp_all add: seq_window_def)

lemma sample_window: "\<forall>u < taskFresh (sch sample_started). seq (tasks (sch sample_started) u) \<in> seq_window 0"
proof -
  have "taskFresh (sch sample_started) = 2" "seq (tasks (sch sample_started) 0) = 1"
    "seq (tasks (sch sample_started) 1) = 2" by code_simp+
  moreover from this have "u = 0 \<or> u = 1" if "u < taskFresh (sch sample_started)" for u
    using that by auto
  ultimately show ?thesis by (metis sample_small)
qed

theorem launch_order_witness:
  "byTime (sch sample_started) = [0] \<and> \<not> nextAfter (tasks (sch sample_started) 0) \<le> now sample_started \<and>
   1 \<in> set (byOrder (sch sample_started))"
proof -
  have q: "byTime (sch sample_started) = [0]" by code_simp
  moreover have "\<not> nextAfter (tasks (sch sample_started) 0) \<le> now sample_started" by code_simp
  ultimately show ?thesis
    using launch_order [OF sample_started_reachable sample_launch sample_window] by simp
qed

text \<open>
  C12. No wake-up of the loop is lost: if the loop is parked although it has been asked to stop, or
  although a slot is free and a task is ready to run, a notification is pending or its timer has
  expired.
\<close>

theorem no_lost_wakeup:
  assumes "reachable K S" "lpc S = Parked d"
    "loopStopRequested (sch S) \<or> taskActiveCount (sch S) < slots (sch S) \<and>
      (byOrder (sch S) \<noteq> [] \<or> (\<exists>t \<in> set (byTime (sch S)). nextAfter (tasks (sch S) t) \<le> now S))"
  shows "notification_pending S \<or> (\<exists>u. d = Some u \<and> u \<le> now S)"
proof (cases "notification_pending S")
  case False
  have "\<not> loopStopRequested (sch S)"
    "slots (sch S) \<le> taskActiveCount (sch S) \<or> nothing_before d (sch S)"
    using reachable_wake [OF assms(1)] assms(2) False by (auto simp: wake_inv_def)
  then have "nothing_before d (sch S)" using assms(3) by auto
  then show ?thesis using assms(3) \<open>\<not> loopStopRequested (sch S)\<close>
    by (fastforce simp: nothing_before_def)
qed simp

text \<open>The sample run continued: nothing else is ready, so the loop parks until the timer; then
  the second task becomes due.\<close>

definition sample_parked :: "unit sys" where
  "sample_parked = sample_running\<lparr>lpc := Parked (Some (Time 8)), now := Time 9\<rparr>"

lemma sample_parked_reachable: "reachable 2 sample_parked"
proof -
  let ?s = "loop_iteration (now sample_running) (sch sample_running)"
  have wf: "sched_wf (sch sample_running)"
    using reachable_inv [OF sample_running_reachable] by (simp add: task_inv_def)
  have top: "lpc sample_running = AtTop" and t: "now sample_running = Time 5" by code_simp+
  have "fst ?s = LoopWait (Some (Time 8))" by code_simp
  then have "?s = (LoopWait (Some (Time 8)), snd ?s)" by (metis prod.collapse)
  moreover from this have "snd ?s = sch sample_running" by (rule loop_wait_facts(1) [OF wf])
  ultimately have l: "?s = (LoopWait (Some (Time 8)), sch sample_running)" by simp
  note r = reachable.step [OF sample_running_reachable step.loop_wait [OF top l]]
  have "(0::int) \<le> 4" by simp
  from reachable.step [OF r step.tick [OF this]] show ?thesis
    by (simp add: sample_parked_def t AddDur_def)
qed

theorem no_lost_wakeup_witness:
  "notification_pending sample_parked \<or> Time 8 \<le> now sample_parked"
proof -
  have p: "lpc sample_parked = Parked (Some (Time 8))" by code_simp
  have q: "byTime (sch sample_parked) = [0]" "nextAfter (tasks (sch sample_parked) 0) \<le> now sample_parked"
    "taskActiveCount (sch sample_parked) < slots (sch sample_parked)" by code_simp+
  show ?thesis using no_lost_wakeup [OF sample_parked_reachable p] q by auto
qed




text \<open>
  C14. When \<open>Stop\<close> returns the loop and all tasks have ended, the task context is cancelled, and
  whatever happens later, no task runs again.
\<close>

theorem stop_final:
  assumes "reachable K S" "waiter S = Returned WStop" "(step K)\<^sup>*\<^sup>* S T"
  shows "running T = [] \<and> returned T = [] \<and> \<not> loop_live (lpc T)"
proof -
  have "stopped S" using reachable_wake [OF assms(1)] assms(2) by (simp add: waiter_inv_def)
  have "stopped T \<and> reachable K T" using assms(3)
  proof (induction rule: rtranclp_induct)
    case base
    show ?case using \<open>stopped S\<close> assms(1) by simp
  next
    case (step U V)
    then show ?case
      using stop_stays [OF step.hyps(2)] reachable_inv [of K U] by (blast intro: reachable.step)
  qed
  then show ?thesis by (simp add: stopped_def)
qed

definition sample_stopped :: "unit sys" where
  "sample_stopped = sample_init\<lparr>sch := cancelTasks (snd (Stop_check (notifyLoop (Stop_request (sch sample_init))))),
     waiter := Returned WStop\<rparr>"

lemma sample_stopped_reachable: "reachable 2 sample_stopped"
proof -
  let ?s1 = "Stop_request (sch sample_init)"
  let ?s2 = "notifyLoop ?s1"
  have i: "reachable 2 sample_init" unfolding sample_init_def by (rule reachable.init) simp
  have w: "waiter sample_init = Idle" by code_simp
  have c: "fst (Stop_check ?s2)" by code_simp
  have "step 2 sample_init (sample_init\<lparr>sch := ?s1, waiter := Notifying WStop\<rparr>)"
    using w by (intro step.stop_call) simp
  from reachable.step [OF i this]
  have "reachable 2 (sample_init\<lparr>sch := ?s2, waiter := Checking WStop\<rparr>)"
    by (rule reachable.step) (use step.wait_notify [of "sample_init\<lparr>sch := ?s1, waiter := Notifying WStop\<rparr>" WStop 2] in simp)
  moreover have "Stop_check ?s2 = (True, snd (Stop_check ?s2))" using c by (simp add: prod_eq_iff)
  ultimately show ?thesis
    unfolding sample_stopped_def
    using step.stop_ok [of "sample_init\<lparr>sch := ?s2, waiter := Checking WStop\<rparr>" "snd (Stop_check ?s2)" 2]
    by (auto intro: reachable.step)
qed

theorem stop_final_witness:
  "running sample_stopped = [] \<and> returned sample_stopped = [] \<and> \<not> loop_live (lpc sample_stopped)"
proof -
  have "waiter sample_stopped = Returned WStop" by (simp add: sample_stopped_def)
  from stop_final [OF sample_stopped_reachable this rtranclp.rtrancl_refl] show ?thesis .
qed

text \<open>
  Once \<open>Stop\<close> has been called no step launches a task: the running tasks can only become fewer.
\<close>

theorem stop_launches_nothing:
  assumes "reachable K S" "loopStopRequested (sch S)" "step K S T"
  shows "loopStopRequested (sch T) \<and> set (running T) \<subseteq> set (running S)"
  using stop_monotone [OF assms(3) _ assms(2)] reachable_inv [OF assms(1)] by blast

theorem stop_launches_nothing_witness:
  "loopStopRequested (sch (sample_stopped\<lparr>now := AddDur (now sample_stopped) 1\<rparr>)) \<and>
   set (running (sample_stopped\<lparr>now := AddDur (now sample_stopped) 1\<rparr>)) \<subseteq> set (running sample_stopped)"
proof -
  have "loopStopRequested (sch sample_stopped)" by code_simp
  moreover have "step 2 sample_stopped (sample_stopped\<lparr>now := AddDur (now sample_stopped) 1\<rparr>)"
    by (rule step.tick) simp
  ultimately show ?thesis by (rule stop_launches_nothing [OF sample_stopped_reachable])
qed

text \<open>
  A caller waiting in \<open>Quiesce\<close> or \<open>Stop\<close> is woken: when it waits and the condition it waits
  for holds, an event it listens to is set or a goroutine is about to set it.
\<close>

theorem waiter_is_woken:
  assumes "reachable K S"
  shows "(waiter S = Waiting WQuiesce \<longrightarrow> Quiesce_done (sch S) \<longrightarrow>
        taskFinished (sch S) \<or> 0 < finishing S) \<and>
     (waiter S = Waiting WStop \<longrightarrow> loopActiveCount (sch S) = 0 \<longrightarrow> taskActiveCount (sch S) = 0 \<longrightarrow>
        taskFinished (sch S) \<or> 0 < finishing S \<or> loopFinished (sch S) \<or> lpc S = Exited)"
  using reachable_wake [OF assms] by (simp add: waiter_inv_def)


text \<open>A run with one task, launched; a caller waits in \<open>Quiesce\<close> while the task returns.\<close>

definition single_launched :: "unit sys" where
  "single_launched = (let S = sample_add [] sample_init in
     S\<lparr>lpc := AtTop, sch := snd (loop_iteration (now S) ((sch S)\<lparr>loopActiveCount := 1\<rparr>)), running := [0]\<rparr>)"

lemma single_launched_reachable: "reachable 2 single_launched"
proof -
  let ?S = "sample_add [] sample_init"
  let ?T = "?S\<lparr>sch := (sch ?S)\<lparr>loopActiveCount := 1\<rparr>, lpc := AtTop\<rparr>"
  let ?l = "loop_iteration (now ?T) (sch ?T)"
  have S: "reachable 2 ?S"
    unfolding sample_init_def by (intro sample_add_reachable reachable.init) simp
  have "\<not> loopStopRequested (sch ?S)" "loopActiveCount (sch ?S) = 0" by code_simp+
  then have T: "reachable 2 ?T"
    by (intro reachable.step [OF S] step.start) (simp add: Start_def)
  have "fst ?l = LoopLaunch 0" by code_simp
  then have l: "?l = (LoopLaunch 0, snd ?l)" by (metis prod.collapse)
  have "running ?S = []" by code_simp
  with reachable.step [OF T step.loop_launch [OF _ l]] show ?thesis
    by (simp add: single_launched_def Let_def)
qed

definition quiesce_waiting :: "unit sys" where
  "quiesce_waiting = single_launched\<lparr>sch := notifyLoop (sch single_launched), waiter := Waiting WQuiesce\<rparr>"

lemma quiesce_waiting_reachable: "reachable 2 quiesce_waiting"
proof -
  let ?N = "single_launched\<lparr>waiter := Notifying WQuiesce\<rparr>"
  let ?C = "?N\<lparr>sch := notifyLoop (sch ?N), waiter := Checking WQuiesce\<rparr>"
  have w: "waiter single_launched = Idle" by code_simp
  have N: "reachable 2 ?N"
    by (rule reachable.step [OF single_launched_reachable], rule step.quiesce_call) (simp add: w)
  have C: "reachable 2 ?C"
    by (rule reachable.step [OF N], rule step.wait_notify) simp
  have "\<not> Quiesce_done (notifyLoop (sch single_launched))" by code_simp
  then have "step 2 ?C (?C\<lparr>waiter := Waiting WQuiesce\<rparr>)" by (intro step.quiesce_wait) simp_all
  from reachable.step [OF C this] show ?thesis by (simp add: quiesce_waiting_def)
qed

definition task_result :: "err \<Rightarrow> unit sys \<Rightarrow> unit sys" where
  "task_result err S =
     (let t = hd (running S); (fin, x) = run (now S) err (tasks (sch S) t)
      in S\<lparr>sch := set_task t (\<lambda>_. x) (sch S), running := tl (running S), returned := (t, fin) # returned S\<rparr>)"

lemma task_result_reachable:
  assumes "reachable K S" "running S \<noteq> []"
  shows "reachable K (task_result err S)"
proof -
  obtain fin x where r: "run (now S) err (tasks (sch S) (hd (running S))) = (fin, x)" by fastforce
  have "hd (running S) \<in> set (running S)" using assms(2) by simp
  from reachable.step [OF assms(1) step.run_fn [OF this r]] show ?thesis
    using assms(2) r by (cases "running S") (simp_all add: task_result_def)
qed

definition task_done :: "unit sys" where
  "task_done = (let S = task_result None quiesce_waiting in
     S\<lparr>sch := (case runTask_locked 0 True (sch S) of Inr s \<Rightarrow> s | Inl _ \<Rightarrow> sch S), returned := [], finishing := 1\<rparr>)"

lemma task_done_reachable: "reachable 2 task_done"
proof -
  let ?S = "task_result None quiesce_waiting"
  have run: "running quiesce_waiting \<noteq> []" by code_simp
  have ret: "returned ?S = [(0, True)]" "finishing ?S = 0" by code_simp+
  have S: "reachable 2 ?S" by (rule task_result_reachable [OF quiesce_waiting_reachable run])
  obtain s1 where s1: "runTask_locked 0 True (sch ?S) = Inr s1"
    using run_locked_facts [of ?S 0 True] reachable_inv [OF S] ret by auto
  have "(0, True) \<in> set (returned ?S)" using ret by simp
  from reachable.step [OF S step.run_locked [OF this s1]] show ?thesis
    using ret s1 by (simp add: task_done_def)
qed

theorem waiter_is_woken_witness:
  "waiter task_done = Waiting WQuiesce \<and> (taskFinished (sch task_done) \<or> 0 < finishing task_done)"
proof -
  have "waiter task_done = Waiting WQuiesce" "Quiesce_done (sch task_done)" by code_simp+
  with waiter_is_woken [OF task_done_reachable] show ?thesis by simp
qed

text \<open>
  What happens to a task that returned: a finished one leaves the scheduler; any other is
  queued again with the due time that \<open>run\<close> gave it. Its slot is free again in both cases, and
  the loop is notified whenever a task is queued.
\<close>

theorem returned_task_settled:
  assumes "reachable K S" "(t, fin) \<in> set (returned S)"
  shows "\<exists>s1. runTask_locked t fin (sch S) = Inr s1 \<and>
    taskActiveCount s1 = taskActiveCount (sch S) - 1 \<and>
    queued s1 = (if fin then queued (sch S) else add_mset t (queued (sch S))) \<and>
    (queued s1 \<noteq> {#} \<longrightarrow> loopNotification s1) \<and>
    nextAfter (tasks s1 t) = nextAfter (tasks (sch S) t)"
proof -
  have inv: "task_inv S" using reachable_inv [OF assms(1)] by simp
  from run_locked_facts [OF inv assms(2)] obtain s1 r where
    f: "runTask_locked t fin (sch S) = Inr s1" "same_control (sch S) r"
    "queued r = (if fin then queued (sch S) else add_mset t (queued (sch S)))"
    "s1 = r\<lparr>taskActiveCount := taskActiveCount (sch S) - 1,
        loopNotification := loopNotification r \<or> queued r \<noteq> {#}\<rparr>" by blast
  have "queued s1 = queued r" by (rule wf_fields(1)) (simp_all add: f)
  then show ?thesis using f by (auto simp: same_control_def)
qed

theorem returned_task_settled_witness:
  "\<exists>s1. runTask_locked 1 False (sch (task_result (Some (ErrTask None 7)) sample_running)) = Inr s1 \<and>
     1 \<in># queued s1 \<and> loopNotification s1 \<and> nextAfter (tasks s1 1) = Time 12"
proof -
  let ?S = "task_result (Some (ErrTask None 7)) sample_running"
  have run: "running sample_running \<noteq> []" by code_simp
  have r: "reachable 2 ?S" by (rule task_result_reachable [OF sample_running_reachable run])
  have ret: "(1, False) \<in> set (returned ?S)" by code_simp
  have "nextAfter (tasks (sch ?S) 1) = Time 12" by code_simp
  with returned_task_settled [OF r ret] show ?thesis by auto
qed


text \<open>
  The outcome of one attempt: without error, or with an error that carries no non-negative
  retry delay, the task is finished and keeps its due time; otherwise the first \<open>TaskError\<close> in the
  error's tree decides the new due time. The attempt is counted in every case, and a task keeps
  its function and its sequence number.
\<close>

theorem run_outcome:
  assumes "run t0 err x = (fin, y)"
  shows "attemptCount y = attemptCount x + 1 \<and> fn y = fn x \<and> seq y = seq x \<and>
    (if err = None \<or> Permanent (AsTaskError err) then fin \<and> nextAfter y = nextAfter x
     else \<not> fin \<and> (\<exists>e te. err = Some e \<and> errors_As_task e = Some (Some te) \<and> 0 \<le> RetryDelay te \<and>
       nextAfter y = AddDur t0 (RetryDelay te)))"
  using assms run_simps [OF assms]
  by (cases err) (auto simp: run_def Let_def AsTaskError_def Permanent_def Stop_delay_def not_less
      split: option.splits if_splits)

theorem run_outcome_witness:
  "let x = \<lparr>fn = (), seq = 4, nextAfter = Time 0, attemptCount = 2, seqItem = None, timeItem = None\<rparr>;
       (fin, y) = run (Time 10) (Some (ErrWrap ''failed'' (ErrTask None 5))) x
   in attemptCount y = 3 \<and> \<not> fin \<and> nextAfter y = Time 15"
proof -
  let ?x = "\<lparr>fn = (), seq = 4, nextAfter = Time 0, attemptCount = 2, seqItem = None, timeItem = None\<rparr>"
  let ?e = "Some (ErrWrap ''failed'' (ErrTask None 5))"
  obtain fin y where r: "run (Time 10) ?e ?x = (fin, y)" by fastforce
  have "\<not> Permanent (AsTaskError ?e)" by code_simp
  with run_outcome [OF r] r show ?thesis by (auto simp: AddDur_def)
qed

text \<open>The counter after \<open>k\<close> calls: it skips zero at most once.\<close>

lemma of_nat_word_eqD:
  assumes "(of_nat a :: 64 word) = of_nat b" "a < 2 ^ 64" "b < 2 ^ 64"
  shows "a = b"
proof -
  have "unat (of_nat a :: 64 word) = unat (of_nat b :: 64 word)" using assms(1) by simp
  then have "a mod 2 ^ 64 = b mod 2 ^ 64" by (simp only: unat_of_nat) simp
  then show ?thesis using assms(2,3) by simp
qed

lemma seq_iterate:
  assumes "k < 2 ^ 63"
  shows "\<exists>m. k \<le> m \<and> m \<le> Suc k \<and> (nextSequenceNumber ^^ k) c = c + of_nat m \<and>
    (m = Suc k \<longleftrightarrow> (\<exists>j. 0 < j \<and> j \<le> k \<and> c + of_nat j = 0))"
  using assms
proof (induction k)
  case 0
  show ?case by (intro exI [of _ 0]) simp
next
  case (Suc k)
  then obtain m where m: "k \<le> m" "m \<le> Suc k" "(nextSequenceNumber ^^ k) c = c + of_nat m"
    "m = Suc k \<longleftrightarrow> (\<exists>j. 0 < j \<and> j \<le> k \<and> c + of_nat j = 0)" by auto
  have next_eq: "(nextSequenceNumber ^^ Suc k) c =
      (if c + of_nat (Suc m) = 0 then c + of_nat (Suc (Suc m)) else c + of_nat (Suc m))"
  proof -
    have "(nextSequenceNumber ^^ Suc k) c = nextSequenceNumber (c + of_nat m)" using m(3) by simp
    moreover have "c + of_nat (Suc (Suc m)) = c + of_nat (Suc m) + 1" "c + of_nat (Suc m) = c + of_nat m + 1"
      by (simp_all add: algebra_simps)
    moreover have "nextSequenceNumber x = (if x + 1 = 0 then x + 1 + 1 else x + 1)" for x
      by (simp add: nextSequenceNumber_eq)
    ultimately show ?thesis by (simp only:)
  qed
  show ?case
  proof (cases "c + of_nat (Suc m) = 0")
    case True
    have "m = k"
    proof (rule ccontr)
      assume "m \<noteq> k"
      then have mk: "m = Suc k" using m(1,2) by simp
      then obtain j where j: "0 < j" "j \<le> k" "c + of_nat j = 0" using m(4) by blast
      have "(of_nat (Suc m) :: 64 word) = of_nat j" using True j(3) by (metis add_left_cancel)
      then have "Suc m = j" by (rule of_nat_word_eqD) (use mk j Suc.prems in simp_all)
      then show False using j mk by simp
    qed
    then show ?thesis
      using True next_eq by (intro exI [of _ "Suc (Suc k)"]) auto
  next
    case False
    then have "(\<exists>j. 0 < j \<and> j \<le> Suc k \<and> c + of_nat j = 0) \<longleftrightarrow> (\<exists>j. 0 < j \<and> j \<le> k \<and> c + of_nat j = 0)"
      using m by (metis le_Suc_eq le_antisym)
    then show ?thesis
      using next_eq m False by (intro exI [of _ "Suc m"]) auto
  qed
qed


text \<open>
  Sequence numbers are handed out in the order the comparison of the queue uses: a number is
  less than every number handed out after it, for up to \<open>2 ^ 63 - 2\<close> later numbers and across
  the wrap-around of the counter, and no number is zero.
\<close>

theorem sequence_numbers_ordered:
  assumes "0 < k" "k < 2 ^ 63 - 1"
  shows "seq_less c ((nextSequenceNumber ^^ k) c) \<and> (nextSequenceNumber ^^ k) c \<noteq> 0"
proof -
  obtain m where m: "k \<le> m" "m \<le> Suc k" "(nextSequenceNumber ^^ k) c = c + of_nat m"
    using seq_iterate [of k c] assms(2) by auto
  have b: "m < 2 ^ 63" using m(2) assms(2) by simp
  have u: "unat (of_nat m :: 64 word) = m" using b by (simp only: unat_of_nat) simp
  have "c - (c + of_nat m) = 0 - (of_nat m :: 64 word)" by simp
  moreover have "sint (0 - (of_nat m :: 64 word)) = - int m"
    using sint_diff_small [of 0 "of_nat m"] b by (simp add: u)
  ultimately have "seq_less c (c + of_nat m)"
    using m(1) assms(1) by (simp only: seq_less_def)
  moreover have "(nextSequenceNumber ^^ k) c \<noteq> 0"
    using assms(1) by (cases k) (simp_all add: nextSequenceNumber_eq)
  ultimately show ?thesis using m(3) by simp
qed

theorem sequence_numbers_ordered_witness:
  "seq_less (-2) ((nextSequenceNumber ^^ 3) (-2)) \<and> (nextSequenceNumber ^^ 3) (-2) \<noteq> 0"
  by (rule sequence_numbers_ordered) simp_all

end
