(* ===== verification/FilePath.thy ===== *)
theory FilePath
  imports Prelude
begin

text \<open>
  The functions of Go's \<open>path/filepath\<close> and \<open>strings\<close> packages that the program uses, for Unix:
  lexical path processing on slash-separated strings. Paths are cleaned component by component.
\<close>

section \<open>Splitting and joining strings\<close>

type_synonym path = string

abbreviation slash :: char where
  "slash \<equiv> CHR ''/''"

text \<open>\<open>strings.Split\<close> with a one-character separator: never empty.\<close>

fun split_on :: "char \<Rightarrow> string \<Rightarrow> string list" where
  "split_on c [] = [[]]"
| "split_on c (x # xs) =
     (if x = c then [] # split_on c xs
      else case split_on c xs of [] \<Rightarrow> [[x]] | y # ys \<Rightarrow> (x # y) # ys)"

text \<open>\<open>strings.Join\<close>.\<close>

fun join_with :: "char \<Rightarrow> string list \<Rightarrow> string" where
  "join_with c [] = []"
| "join_with c [x] = x"
| "join_with c (x # y # ys) = x @ c # join_with c (y # ys)"

lemma split_on_nonempty [simp]: "split_on c xs \<noteq> []"
  by (induction xs) (auto split: list.split)

lemma split_on_append: "c \<notin> set x \<Longrightarrow> split_on c (x @ c # ys) = x # split_on c ys"
  by (induction x) auto

lemma split_on_single [simp]: "c \<notin> set x \<Longrightarrow> split_on c x = [x]"
  by (induction x) auto

lemma split_join:
  assumes "xs \<noteq> []" "\<forall>x \<in> set xs. c \<notin> set x"
  shows "split_on c (join_with c xs) = xs"
  using assms by (induction c xs rule: join_with.induct) (auto simp: split_on_append)

lemma join_split [simp]: "join_with c (split_on c xs) = xs"
proof (induction xs)
  case (Cons x xs)
  then obtain y ys where y: "split_on c xs = y # ys" "join_with c (y # ys) = xs"
    by (metis neq_Nil_conv split_on_nonempty)
  then show ?case by (cases ys) auto
qed simp

lemma split_on_free: "x \<in> set (split_on c xs) \<Longrightarrow> c \<notin> set x"
proof (induction xs arbitrary: x)
  case (Cons y xs)
  then show ?case by (cases "split_on c xs") (auto split: if_splits)
qed simp

section \<open>Clean\<close>

definition IsAbs :: "path \<Rightarrow> bool" where
  "IsAbs p \<longleftrightarrow> p \<noteq> [] \<and> hd p = slash"

text \<open>
  The components kept so far are a stack with the last component first. Empty and \<open>.\<close>
  components are dropped, \<open>..\<close> removes the component before it unless that is itself \<open>..\<close>, and is
  dropped at the root.
\<close>

definition clean_step :: "bool \<Rightarrow> string \<Rightarrow> string list \<Rightarrow> string list" where
  "clean_step rooted c stack =
     (if c = [] \<or> c = ''.'' then stack
      else if c = ''..'' then
        (case stack of
           [] \<Rightarrow> (if rooted then [] else [''..''])
         | t # rest \<Rightarrow> (if t = ''..'' then ''..'' # stack else rest))
      else c # stack)"

definition clean_comps :: "bool \<Rightarrow> string list \<Rightarrow> string list" where
  "clean_comps rooted cs = rev (fold (clean_step rooted) cs [])"

definition render :: "bool \<Rightarrow> string list \<Rightarrow> path" where
  "render rooted cs =
     (if rooted then slash # join_with slash cs
      else if cs = [] then ''.'' else join_with slash cs)"

definition comps :: "path \<Rightarrow> string list" where
  "comps p = clean_comps (IsAbs p) (split_on slash p)"

definition Clean :: "path \<Rightarrow> path" where
  "Clean p = render (IsAbs p) (comps p)"

text \<open>\<open>filepath.Join\<close>: leading empty elements are ignored, then the rest is joined and cleaned.\<close>

definition Join :: "string list \<Rightarrow> path" where
  "Join elems =
     (case dropWhile (\<lambda>e. e = []) elems of
        [] \<Rightarrow> []
      | rest \<Rightarrow> Clean (join_with slash rest))"

text \<open>
  \<open>filepath.Rel\<close>. Both paths are cleaned; after the common leading components one \<open>..\<close> is needed
  for each component left of the base. The error case is a base component \<open>..\<close> that
  differs from the target's component.
\<close>

fun strip_common :: "string list \<Rightarrow> string list \<Rightarrow> string list \<times> string list" where
  "strip_common (b # bs) (t # ts) = (if b = t then strip_common bs ts else (b # bs, t # ts))"
| "strip_common bs ts = (bs, ts)"

definition path_elems :: "path \<Rightarrow> string list" where
  "path_elems p =
     (if p = [] then []
      else if IsAbs p then (if p = [slash] then [] else split_on slash (tl p))
      else split_on slash p)"

definition Rel :: "path \<Rightarrow> path \<Rightarrow> string + path" where
  "Rel basepath targpath =
     (let base = Clean basepath; targ = Clean targpath
      in if targ = base then Inr ''.''
         else
           let base' = (if base = ''.'' then [] else base)
           in if IsAbs base' \<noteq> IsAbs targ then Inl ''cannot make path relative''
              else
                let (bs, ts) = strip_common (path_elems base') (path_elems targ)
                in if bs \<noteq> [] \<and> ts \<noteq> [] \<and> hd bs = ''..'' then Inl ''cannot make path relative''
                   else Inr (join_with slash (replicate (length bs) ''..'' @ ts)))"

text \<open>\<open>filepath.Split\<close>: directory with its trailing slash, and the name after the last slash.\<close>

definition Split :: "path \<Rightarrow> path \<times> string" where
  "Split p =
     (let name = rev (takeWhile (\<lambda>c. c \<noteq> slash) (rev p))
      in (take (length p - length name) p, name))"

text \<open>\<open>filepath.Base\<close>.\<close>

definition Base :: "path \<Rightarrow> string" where
  "Base p =
     (if p = [] then ''.''
      else
        let q = rev (dropWhile (\<lambda>c. c = slash) (rev p))
        in if q = [] then [slash] else snd (Split q))"

text \<open>\<open>filepath.Ext\<close>: from the last dot of the last component.\<close>

definition Ext :: "path \<Rightarrow> string" where
  "Ext p =
     (let name = snd (Split p);
          tail = takeWhile (\<lambda>c. c \<noteq> CHR ''.'') (rev name)
      in if length tail = length name then [] else CHR ''.'' # rev tail)"

text \<open>\<open>filepath.Abs\<close> in the working directory \<open>wd\<close>.\<close>

definition Abs :: "path \<Rightarrow> path \<Rightarrow> path" where
  "Abs wd p = (if IsAbs p then Clean p else Join [wd, p])"


section \<open>Cleaned paths\<close>

definition normal :: "string \<Rightarrow> bool" where
  "normal c \<longleftrightarrow> c \<noteq> [] \<and> c \<noteq> ''.'' \<and> slash \<notin> set c"

text \<open>Stacks that \<open>clean_step\<close> builds: \<open>..\<close> components only below all others, and none at all in
  a rooted path.\<close>

fun stack_ok :: "bool \<Rightarrow> string list \<Rightarrow> bool" where
  "stack_ok r [] = True"
| "stack_ok r (c # st) =
     (normal c \<and> stack_ok r st \<and> (c = ''..'' \<longrightarrow> \<not> r \<and> (\<forall>d \<in> set st. d = ''..'')))"

definition comps_ok :: "bool \<Rightarrow> string list \<Rightarrow> bool" where
  "comps_ok r cs = stack_ok r (rev cs)"

lemma normal_dotdot [simp]: "normal ''..''"
  by (simp add: normal_def)

lemma stack_ok_normal: "stack_ok r st \<Longrightarrow> c \<in> set st \<Longrightarrow> normal c"
  by (induction st) auto

lemma stack_ok_rooted: "stack_ok True st \<Longrightarrow> ''..'' \<notin> set st"
  by (induction st) auto

lemma clean_step_ok: "stack_ok r st \<Longrightarrow> slash \<notin> set c \<Longrightarrow> stack_ok r (clean_step r c st)"
  by (cases st) (auto simp: clean_step_def normal_def)

lemma fold_clean_ok:
  "stack_ok r st \<Longrightarrow> \<forall>c \<in> set cs. slash \<notin> set c \<Longrightarrow> stack_ok r (fold (clean_step r) cs st)"
  by (induction cs arbitrary: st) (auto simp: clean_step_ok)

lemma comps_ok_comps: "comps_ok (IsAbs p) (comps p)"
  unfolding comps_ok_def comps_def clean_comps_def rev_rev_ident
  by (rule fold_clean_ok) (auto dest: split_on_free)

lemma clean_step_push:
  assumes "stack_ok r (c # st)"
  shows "clean_step r c st = c # st"
proof (cases "c = ''..''")
  case True
  then have "\<not> r" "st = [] \<or> hd st = ''..''" using assms by (cases st; auto)+
  then show ?thesis using True by (cases st) (simp_all add: clean_step_def)
next
  case False
  then show ?thesis using assms by (simp add: clean_step_def normal_def)
qed

lemma fold_clean_append:
  assumes "stack_ok r (rev cs @ st)"
  shows "fold (clean_step r) cs st = rev cs @ st"
  using assms
proof (induction cs rule: rev_induct)
  case (snoc c cs)
  then have ok: "stack_ok r (c # rev cs @ st)" by simp
  then have "fold (clean_step r) cs st = rev cs @ st" using snoc.IH by simp
  moreover have "clean_step r c (rev cs @ st) = c # rev cs @ st"
    by (rule clean_step_push [OF ok])
  ultimately show ?case by simp
qed simp

lemma clean_comps_id: "comps_ok r cs \<Longrightarrow> clean_comps r cs = cs"
  using fold_clean_append [of r cs "[]"] by (simp add: clean_comps_def comps_ok_def)

lemma join_with_Cons: "xs \<noteq> [] \<Longrightarrow> join_with c (x # xs) = x @ c # join_with c xs"
  by (cases xs) auto

lemma join_with_Nil_iff: "\<forall>c \<in> set cs. c \<noteq> [] \<Longrightarrow> join_with s cs = [] \<longleftrightarrow> cs = []"
  by (induction s cs rule: join_with.induct) auto

lemma comps_ok_free: "comps_ok r cs \<Longrightarrow> c \<in> set cs \<Longrightarrow> slash \<notin> set c \<and> c \<noteq> [] \<and> c \<noteq> ''.''"
  using stack_ok_normal [of r "rev cs" c] by (simp add: comps_ok_def normal_def)

lemma IsAbs_render:
  assumes "comps_ok r cs"
  shows "IsAbs (render r cs) = r"
proof (cases "r \<or> cs = []")
  case False
  then obtain c ds where cs: "cs = c # ds" by (cases cs) auto
  have "c \<noteq> []" "slash \<notin> set c" using comps_ok_free [OF assms] cs by auto
  then show ?thesis using False cs by (cases ds; cases c) (auto simp: render_def IsAbs_def)
qed (auto simp: render_def IsAbs_def)

lemma split_render:
  assumes "comps_ok r cs"
  shows "split_on slash (render r cs) =
    (if r then [] # (if cs = [] then [[]] else cs) else if cs = [] then [''.''] else cs)"
  using split_join [of cs slash] comps_ok_free [OF assms] by (auto simp: render_def)

lemma comps_render [simp]: "comps_ok r cs \<Longrightarrow> comps (render r cs) = cs"
  using clean_comps_id [of r cs]
  by (auto simp: comps_def IsAbs_render split_render clean_comps_def clean_step_def)

lemma IsAbs_Clean [simp]: "IsAbs (Clean p) = IsAbs p"
  unfolding Clean_def by (rule IsAbs_render [OF comps_ok_comps])

lemma comps_Clean [simp]: "comps (Clean p) = comps p"
  unfolding Clean_def by (rule comps_render [OF comps_ok_comps])

lemma Clean_idem [simp]: "Clean (Clean p) = Clean p"
  unfolding Clean_def [of "Clean p"] IsAbs_Clean comps_Clean by (rule Clean_def [symmetric])

lemma Clean_eq_iff: "Clean p = Clean q \<longleftrightarrow> IsAbs p = IsAbs q \<and> comps p = comps q"
proof
  assume "Clean p = Clean q"
  then have "IsAbs (Clean p) = IsAbs (Clean q)" "comps (Clean p) = comps (Clean q)" by simp_all
  then show "IsAbs p = IsAbs q \<and> comps p = comps q" by simp
qed (simp add: Clean_def)

lemma Clean_nonempty [simp]: "Clean p \<noteq> []"
proof
  assume "Clean p = []"
  then have "\<not> IsAbs p" "comps p \<noteq> []" "join_with slash (comps p) = []"
    by (auto simp: Clean_def render_def split: if_splits)
  then show False using comps_ok_free [OF comps_ok_comps] join_with_Nil_iff by metis
qed

lemma comps_rooted: "IsAbs p \<Longrightarrow> ''..'' \<notin> set (comps p)"
  using comps_ok_comps [of p] stack_ok_rooted [of "rev (comps p)"] by (simp add: comps_ok_def)

lemma path_elems_Clean:
  "path_elems (Clean p) = (if \<not> IsAbs p \<and> comps p = [] then [''.''] else comps p)"
proof -
  have ok: "comps_ok (IsAbs p) (comps p)" by (rule comps_ok_comps)
  note free = comps_ok_free [OF ok]
  have j: "join_with slash (comps p) = [] \<longleftrightarrow> comps p = []" using free by (intro join_with_Nil_iff) blast
  show ?thesis
  proof (cases "IsAbs p")
    case True
    then have "Clean p = slash # join_with slash (comps p)" by (simp add: Clean_def render_def)
    then show ?thesis
      using True j split_join [of "comps p" slash] free by (auto simp: path_elems_def IsAbs_def)
  next
    case False
    have "path_elems (Clean p) = split_on slash (Clean p)"
      using False by (simp add: path_elems_def)
    then show ?thesis using False split_render [OF ok] by (simp add: Clean_def)
  qed
qed


section \<open>Joining below a directory\<close>

lemma split_on_join: "split_on c (x @ c # y) = split_on c x @ split_on c y"
proof (induction x)
  case (Cons a x)
  then show ?case by (cases "split_on c x") (auto split: list.split)
qed simp

text \<open>The components of \<open>ds\<close> applied to the cleaned components \<open>cs\<close>.\<close>

definition descend :: "bool \<Rightarrow> string list \<Rightarrow> string list \<Rightarrow> string list" where
  "descend r cs ds = rev (fold (clean_step r) ds (rev cs))"

lemma descend_append:
  "\<forall>d \<in> set ds. normal d \<and> d \<noteq> ''..'' \<Longrightarrow> descend r cs ds = cs @ ds"
proof (induction ds rule: rev_induct)
  case (snoc d ds)
  then show ?case by (simp add: descend_def clean_step_def normal_def)
qed (simp add: descend_def)

lemma descend_dot [simp]: "descend r cs [''.''] = cs"
  by (simp add: descend_def clean_step_def)

lemma comps_join:
  assumes "p \<noteq> []"
  shows "comps (p @ slash # q) = descend (IsAbs p) (comps p) (split_on slash q)"
    and "IsAbs (p @ slash # q) = IsAbs p"
proof -
  show "IsAbs (p @ slash # q) = IsAbs p" using assms by (simp add: IsAbs_def)
  then show "comps (p @ slash # q) = descend (IsAbs p) (comps p) (split_on slash q)"
    by (simp add: comps_def clean_comps_def split_on_join descend_def)
qed

lemma Join_below:
  assumes "p \<noteq> []" "es \<noteq> []"
  shows "Join (p # es) = render (IsAbs p) (descend (IsAbs p) (comps p) (split_on slash (join_with slash es)))"
proof -
  have "Join (p # es) = Clean (p @ slash # join_with slash es)"
    using assms by (simp add: Join_def join_with_Cons)
  then show ?thesis using comps_join [OF assms(1)] by (simp add: Clean_def)
qed

lemma strip_common_spec:
  "strip_common bs ts = (b, t) \<Longrightarrow>
     \<exists>c. bs = c @ b \<and> ts = c @ t \<and> (b = [] \<or> t = [] \<or> hd b \<noteq> hd t)"
proof (induction bs ts rule: strip_common.induct)
  case (1 x bs y ts)
  show ?case
  proof (cases "x = y")
    case True
    then obtain c where "bs = c @ b" "ts = c @ t" "b = [] \<or> t = [] \<or> hd b \<noteq> hd t"
      using 1 by auto
    then show ?thesis using True by (intro exI [of _ "x # c"]) simp
  qed (use 1 in auto)
qed auto

end
