(* ===== verification/FileSystem.thy ===== *)
theory FileSystem
  imports FilePath GoErrors "HOL-Library.Sublist"
begin

text \<open>
  The operations of Go's \<open>os\<close> package that the program uses, as an interface. A value of type
  \<open>'w os\<close> gives each operation as a function on states of the outside world: since the
  world is a parameter, an operation may include whatever other processes do meanwhile. The
  locale \<open>file_system\<close> states what directory and rename operations promise on an undisturbed
  system; the record \<open>plain_os\<close> is a file system on which the definitions run, and satisfies it.
\<close>

section \<open>Interface\<close>

datatype ftype = Regular | Directory | Symlink | OtherType nat

record fileinfo =
  fi_name :: string
  fi_type :: ftype
  fi_perm :: nat
  fi_size :: int
  fi_mtime :: gotime
  fi_id :: "nat \<times> nat"

definition IsDir :: "fileinfo \<Rightarrow> bool" where
  "IsDir fi \<longleftrightarrow> fi_type fi = Directory"

definition IsRegular :: "fileinfo \<Rightarrow> bool" where
  "IsRegular fi \<longleftrightarrow> fi_type fi = Regular"

text \<open>\<open>os.SameFile\<close>: same device and inode.\<close>

definition SameFile :: "fileinfo \<Rightarrow> fileinfo \<Rightarrow> bool" where
  "SameFile a b \<longleftrightarrow> fi_id a = fi_id b"

type_synonym handle = nat

record open_flags =
  o_write :: bool
  o_create :: bool
  o_trunc :: bool
  o_append :: bool
  o_excl :: bool
  o_nofollow :: bool

record 'w os =
  os_Stat :: "path \<Rightarrow> 'w \<Rightarrow> (goerr + fileinfo) \<times> 'w"
  os_Lstat :: "path \<Rightarrow> 'w \<Rightarrow> (goerr + fileinfo) \<times> 'w"
  os_Mkdir :: "path \<Rightarrow> nat \<Rightarrow> 'w \<Rightarrow> err \<times> 'w"
  os_RenameNoReplace :: "path \<Rightarrow> path \<Rightarrow> 'w \<Rightarrow> err \<times> 'w"
  os_OpenFile :: "path \<Rightarrow> open_flags \<Rightarrow> nat \<Rightarrow> 'w \<Rightarrow> (goerr + handle) \<times> 'w"
  f_Stat :: "handle \<Rightarrow> 'w \<Rightarrow> (goerr + fileinfo) \<times> 'w"
  f_Chmod :: "handle \<Rightarrow> nat \<Rightarrow> 'w \<Rightarrow> err \<times> 'w"
  f_Sync :: "handle \<Rightarrow> 'w \<Rightarrow> err \<times> 'w"
  f_Close :: "handle \<Rightarrow> 'w \<Rightarrow> err \<times> 'w"
  io_Copy :: "handle \<Rightarrow> handle \<Rightarrow> 'w \<Rightarrow> (int \<times> err) \<times> 'w"

definition ModePerm :: nat where
  "ModePerm = 511"

section \<open>What directory operations promise\<close>

text \<open>
  \<open>look w p\<close> is what \<open>Lstat\<close> reports for the absolute path \<open>p\<close> in a state that satisfies the
  file system's invariant. An operation that fails changes nothing. A new directory appears at a
  name that was free. A rename moves an entry to a name that was free, and the entries that are
  neither at nor below the two names stay.
\<close>

definition below :: "path \<Rightarrow> path \<Rightarrow> bool" where
  "below p q \<longleftrightarrow> IsAbs p = IsAbs q \<and> prefix (comps p) (comps q)"

locale file_system =
  fixes os :: "'w os" and inv :: "'w \<Rightarrow> bool" and look :: "'w \<Rightarrow> path \<Rightarrow> fileinfo option"
  assumes lstat: "inv w \<Longrightarrow> IsAbs p \<Longrightarrow>
      os_Lstat os p w = (case look w p of None \<Rightarrow> Inl (ErrNo ENOENT) | Some fi \<Rightarrow> Inr fi, w)"
    and look_clean: "inv w \<Longrightarrow> IsAbs p \<Longrightarrow> IsAbs q \<Longrightarrow> Clean p = Clean q \<Longrightarrow> look w p = look w q"
    and stat_pure: "inv w \<Longrightarrow> snd (os_Stat os p w) = w"
    and stat_dir: "inv w \<Longrightarrow> IsAbs p \<Longrightarrow> look w p = Some fi \<Longrightarrow> IsDir fi \<Longrightarrow>
      \<exists>fi'. fst (os_Stat os p w) = Inr fi' \<and> IsDir fi'"
    and stat_none: "inv w \<Longrightarrow> IsAbs p \<Longrightarrow> look w p = None \<Longrightarrow> \<exists>e. fst (os_Stat os p w) = Inl e"
    and mkdir_ok: "inv w \<Longrightarrow> IsAbs p \<Longrightarrow> os_Mkdir os p m w = (None, w') \<Longrightarrow>
      inv w' \<and> look w p = None \<and> (\<exists>fi. look w' p = Some fi \<and> IsDir fi) \<and>
      (\<forall>q. IsAbs q \<longrightarrow> Clean q \<noteq> Clean p \<longrightarrow> look w' q = look w q)"
    and mkdir_err: "inv w \<Longrightarrow> os_Mkdir os p m w = (Some e, w') \<Longrightarrow> w' = w"
    and mkdir_exist: "inv w \<Longrightarrow> IsAbs p \<Longrightarrow> os_Mkdir os p m w = (Some e, w') \<Longrightarrow> os_IsExist e \<Longrightarrow>
      look w p \<noteq> None"
    and rename_ok: "inv w \<Longrightarrow> IsAbs p \<Longrightarrow> IsAbs q \<Longrightarrow> os_RenameNoReplace os p q w = (None, w') \<Longrightarrow>
      inv w' \<and> look w p \<noteq> None \<and> look w q = None \<and> look w' p = None \<and>
      map_option fi_id (look w' q) = map_option fi_id (look w p) \<and>
      (\<forall>r. IsAbs r \<longrightarrow> \<not> below p r \<longrightarrow> \<not> below q r \<longrightarrow> look w' r = look w r)"
    and rename_err: "inv w \<Longrightarrow> os_RenameNoReplace os p q w = (Some e, w') \<Longrightarrow> w' = w"
    and rename_exist: "inv w \<Longrightarrow> IsAbs q \<Longrightarrow> os_RenameNoReplace os p q w = (Some e, w') \<Longrightarrow> os_IsExist e \<Longrightarrow>
      look w q \<noteq> None"

section \<open>A file system\<close>

text \<open>
  Entries are keyed by the components of the absolute cleaned path and name an inode. Relative
  paths are relative to the root. Symbolic links are followed at the end of a path, at most forty
  times. The list \<open>names\<close> contains every name that an entry ever had.
\<close>

record inode =
  i_type :: ftype
  i_target :: path
  i_perm :: nat
  i_mtime :: gotime
  i_data :: string

record fs =
  ents :: "string list \<Rightarrow> nat option"
  inodes :: "nat \<Rightarrow> inode"
  fresh_ino :: nat
  handles :: "nat \<Rightarrow> nat option"
  fresh_handle :: nat
  clock :: gotime
  names :: "string list"

definition key :: "path \<Rightarrow> string list" where
  "key p = comps (slash # p)"

definition info :: "fs \<Rightarrow> string list \<Rightarrow> nat \<Rightarrow> fileinfo" where
  "info w k n =
     (let i = inodes w n
      in \<lparr>fi_name = (if k = [] then [slash] else last k), fi_type = i_type i, fi_perm = i_perm i,
          fi_size = int (length (i_data i)), fi_mtime = i_mtime i, fi_id = (0, n)\<rparr>)"

definition plain_look :: "fs \<Rightarrow> path \<Rightarrow> fileinfo option" where
  "plain_look w p = map_option (info w (key p)) (ents w (key p))"

definition plain_Lstat :: "path \<Rightarrow> fs \<Rightarrow> (goerr + fileinfo) \<times> fs" where
  "plain_Lstat p w =
     (case plain_look w p of None \<Rightarrow> Inl (ErrNo ENOENT) | Some fi \<Rightarrow> Inr fi, w)"

fun follow :: "nat \<Rightarrow> string list \<Rightarrow> fs \<Rightarrow> errno + string list" where
  "follow 0 k w = Inl ELOOP"
| "follow (Suc n) k w =
     (case ents w k of
        None \<Rightarrow> Inl ENOENT
      | Some i \<Rightarrow>
          if i_type (inodes w i) = Symlink then
            let t = i_target (inodes w i)
            in follow n (if IsAbs t then key t else descend True (butlast k) (split_on slash t)) w
          else Inr k)"

definition plain_Stat :: "path \<Rightarrow> fs \<Rightarrow> (goerr + fileinfo) \<times> fs" where
  "plain_Stat p w =
     (case follow 40 (key p) w of
        Inl e \<Rightarrow> (Inl (ErrNo e), w)
      | Inr k \<Rightarrow> (case ents w k of None \<Rightarrow> (Inl (ErrNo ENOENT), w) | Some n \<Rightarrow> (Inr (info w k n), w)))"

definition is_dir :: "fs \<Rightarrow> string list \<Rightarrow> bool" where
  "is_dir w k = (case ents w k of None \<Rightarrow> False | Some n \<Rightarrow> i_type (inodes w n) = Directory)"

definition parent_error :: "fs \<Rightarrow> string list \<Rightarrow> err" where
  "parent_error w k =
     (if k = [] then Some (ErrNo EEXIST)
      else if is_dir w (butlast k) then None
      else if ents w (butlast k) = None then Some (ErrNo ENOENT)
      else Some (ErrNo ENOTDIR))"

definition new_entry :: "string list \<Rightarrow> inode \<Rightarrow> fs \<Rightarrow> fs" where
  "new_entry k i w =
     w\<lparr>ents := (ents w)(k := Some (fresh_ino w)), inodes := (inodes w)(fresh_ino w := i),
       fresh_ino := Suc (fresh_ino w), names := last k # names w\<rparr>"

definition plain_Mkdir :: "path \<Rightarrow> nat \<Rightarrow> fs \<Rightarrow> err \<times> fs" where
  "plain_Mkdir p m w =
     (if ents w (key p) \<noteq> None then (Some (ErrNo EEXIST), w)
      else case parent_error w (key p) of
             Some e \<Rightarrow> (Some e, w)
           | None \<Rightarrow>
               (None, new_entry (key p)
                  \<lparr>i_type = Directory, i_target = [], i_perm = m, i_mtime = clock w, i_data = []\<rparr> w))"

definition plain_Rename :: "path \<Rightarrow> path \<Rightarrow> fs \<Rightarrow> err \<times> fs" where
  "plain_Rename p q w =
     (let old = key p; new = key q
      in if ents w old = None then (Some (ErrNo ENOENT), w)
         else if ents w new \<noteq> None then (Some (ErrNo EEXIST), w)
         else if prefix old new \<or> prefix new old then (Some (ErrNo EINVAL), w)
         else case parent_error w new of
                Some e \<Rightarrow> (Some e, w)
              | None \<Rightarrow>
                  (None, w\<lparr>ents := (\<lambda>k.
                     if prefix new k then ents w (old @ drop (length new) k)
                     else if prefix old k then None
                     else ents w k), names := last new # names w\<rparr>))"

definition new_handle :: "nat \<Rightarrow> fs \<Rightarrow> (goerr + handle) \<times> fs" where
  "new_handle n w =
     (Inr (fresh_handle w),
      w\<lparr>handles := (handles w)(fresh_handle w := Some n), fresh_handle := Suc (fresh_handle w)\<rparr>)"

definition plain_OpenFile :: "path \<Rightarrow> open_flags \<Rightarrow> nat \<Rightarrow> fs \<Rightarrow> (goerr + handle) \<times> fs" where
  "plain_OpenFile p fl m w =
     (case (if o_nofollow fl \<or> o_excl fl then Inr (key p) else follow 40 (key p) w) of
        Inl e \<Rightarrow> if e = ENOENT \<and> ents w (key p) = None \<and> o_create fl then
                   (case parent_error w (key p) of
                      Some e \<Rightarrow> (Inl e, w)
                    | None \<Rightarrow> new_handle (fresh_ino w) (new_entry (key p)
                        \<lparr>i_type = Regular, i_target = [], i_perm = m, i_mtime = clock w, i_data = []\<rparr> w))
                 else (Inl (ErrNo e), w)
      | Inr k \<Rightarrow>
          (case ents w k of
             Some n \<Rightarrow>
               if o_create fl \<and> o_excl fl then (Inl (ErrNo EEXIST), w)
               else if i_type (inodes w n) = Symlink then (Inl (ErrNo ELOOP), w)
               else if i_type (inodes w n) = Directory \<and> o_write fl then (Inl (ErrNo EISDIR), w)
               else new_handle n (if o_trunc fl
                 then w\<lparr>inodes := (inodes w)(n := (inodes w n)\<lparr>i_data := [], i_mtime := clock w\<rparr>)\<rparr> else w)
           | None \<Rightarrow>
               if o_create fl then
                 (case parent_error w k of
                    Some e \<Rightarrow> (Inl e, w)
                  | None \<Rightarrow> new_handle (fresh_ino w) (new_entry k
                      \<lparr>i_type = Regular, i_target = [], i_perm = m, i_mtime = clock w, i_data = []\<rparr> w))
               else (Inl (ErrNo ENOENT), w)))"

definition plain_fStat :: "handle \<Rightarrow> fs \<Rightarrow> (goerr + fileinfo) \<times> fs" where
  "plain_fStat h w =
     (case handles w h of None \<Rightarrow> (Inl (ErrNo EINVAL), w) | Some n \<Rightarrow> (Inr (info w [] n), w))"

definition plain_Chmod :: "handle \<Rightarrow> nat \<Rightarrow> fs \<Rightarrow> err \<times> fs" where
  "plain_Chmod h m w =
     (case handles w h of
        None \<Rightarrow> (Some (ErrNo EINVAL), w)
      | Some n \<Rightarrow> (None, w\<lparr>inodes := (inodes w)(n := (inodes w n)\<lparr>i_perm := m\<rparr>)\<rparr>))"

definition plain_Close :: "handle \<Rightarrow> fs \<Rightarrow> err \<times> fs" where
  "plain_Close h w =
     (case handles w h of
        None \<Rightarrow> (Some (ErrNo EINVAL), w)
      | Some n \<Rightarrow> (None, w\<lparr>handles := (handles w)(h := None)\<rparr>))"

definition plain_Sync :: "handle \<Rightarrow> fs \<Rightarrow> err \<times> fs" where
  "plain_Sync h w = (if handles w h = None then Some (ErrNo EINVAL) else None, w)"

definition plain_Copy :: "handle \<Rightarrow> handle \<Rightarrow> fs \<Rightarrow> (int \<times> err) \<times> fs" where
  "plain_Copy dest src w =
     (case (handles w dest, handles w src) of
        (Some d, Some s) \<Rightarrow>
          let bs = i_data (inodes w s)
          in ((int (length bs), None),
              w\<lparr>inodes := (inodes w)(d := (inodes w d)\<lparr>i_data := i_data (inodes w d) @ bs, i_mtime := clock w\<rparr>)\<rparr>)
      | _ \<Rightarrow> ((0, Some (ErrNo EINVAL)), w))"

definition plain_os :: "fs os" where
  "plain_os = \<lparr>os_Stat = plain_Stat, os_Lstat = plain_Lstat, os_Mkdir = plain_Mkdir,
     os_RenameNoReplace = plain_Rename, os_OpenFile = plain_OpenFile, f_Stat = plain_fStat,
     f_Chmod = plain_Chmod, f_Sync = plain_Sync, f_Close = plain_Close, io_Copy = plain_Copy\<rparr>"


definition fs_inv :: "fs \<Rightarrow> bool" where
  "fs_inv w \<longleftrightarrow> is_dir w [] \<and> (\<forall>k n. ents w k = Some n \<longrightarrow> n < fresh_ino w) \<and>
     (\<forall>k. ents w k \<noteq> None \<longrightarrow> k \<noteq> [] \<longrightarrow> last k \<in> set (names w))"

lemma comps_slash: "IsAbs p \<Longrightarrow> comps (slash # p) = comps p"
  by (simp add: comps_def IsAbs_def clean_comps_def clean_step_def)

lemma key_abs [simp]: "IsAbs p \<Longrightarrow> key p = comps p"
  by (simp add: key_def comps_slash)

lemma Clean_eq_comps: "IsAbs p \<Longrightarrow> IsAbs q \<Longrightarrow> Clean p = Clean q \<longleftrightarrow> comps p = comps q"
  by (simp add: Clean_eq_iff)

lemma root_exists: "fs_inv w \<Longrightarrow> ents w [] \<noteq> None"
  by (auto simp: fs_inv_def is_dir_def split: option.splits)

lemma info_ents [simp]: "info (w\<lparr>ents := f\<rparr>) k = info w k" "info (w\<lparr>names := ns\<rparr>) k = info w k"
  by (simp_all add: info_def fun_eq_iff)

lemma follow_simps:
  "0 < n \<Longrightarrow> ents w k = None \<Longrightarrow> follow n k w = Inl ENOENT"
  "0 < n \<Longrightarrow> ents w k = Some i \<Longrightarrow> i_type (inodes w i) \<noteq> Symlink \<Longrightarrow> follow n k w = Inr k"
  by (cases n; simp)+

lemma new_entry_look:
  assumes "fs_inv w" "ents w k = None" "k \<noteq> []"
  shows "fs_inv (new_entry k i w)" "ents (new_entry k i w) k = Some (fresh_ino w)"
    "inodes (new_entry k i w) (fresh_ino w) = i"
    "\<And>q. k \<noteq> key q \<Longrightarrow> plain_look (new_entry k i w) q = plain_look w q"
proof -
  show "ents (new_entry k i w) k = Some (fresh_ino w)" "inodes (new_entry k i w) (fresh_ino w) = i"
    by (simp_all add: new_entry_def)
  have lt: "ents w q = Some n \<Longrightarrow> n \<noteq> fresh_ino w" for q n using assms(1) by (auto simp: fs_inv_def)
  then show "k \<noteq> key q \<Longrightarrow> plain_look (new_entry k i w) q = plain_look w q" for q
    by (cases "ents w (key q)") (auto simp: plain_look_def new_entry_def info_def)
  show "fs_inv (new_entry k i w)"
    using assms lt by (fastforce simp: fs_inv_def is_dir_def new_entry_def less_Suc_eq split: option.splits)
qed

interpretation plain: file_system plain_os fs_inv plain_look
proof
  fix w w' :: fs and p q :: path and m :: nat and e :: goerr and fi :: fileinfo
  show "os_Lstat plain_os p w = (case plain_look w p of None \<Rightarrow> Inl (ErrNo ENOENT) | Some fi \<Rightarrow> Inr fi, w)"
    by (simp add: plain_os_def plain_Lstat_def)
  show "plain_look w p = plain_look w q" if "IsAbs p" "IsAbs q" "Clean p = Clean q"
    using that by (simp add: plain_look_def Clean_eq_comps)
  show "snd (os_Stat plain_os p w) = w"
    by (simp add: plain_os_def plain_Stat_def split: sum.split option.split)
  show "\<exists>fi'. fst (os_Stat plain_os p w) = Inr fi' \<and> IsDir fi'"
    if "IsAbs p" "plain_look w p = Some fi" "IsDir fi"
    using that
    by (auto simp: plain_os_def plain_Stat_def plain_look_def IsDir_def info_def Let_def follow_simps(2))
  show "\<exists>e. fst (os_Stat plain_os p w) = Inl e" if "IsAbs p" "plain_look w p = None"
    using that by (simp add: plain_os_def plain_Stat_def plain_look_def follow_simps(1))
  show "fs_inv w' \<and> plain_look w p = None \<and> (\<exists>fi. plain_look w' p = Some fi \<and> IsDir fi) \<and>
      (\<forall>q. IsAbs q \<longrightarrow> Clean q \<noteq> Clean p \<longrightarrow> plain_look w' q = plain_look w q)"
    if "fs_inv w" "IsAbs p" "os_Mkdir plain_os p m w = (None, w')"
  proof -
    let ?i = "\<lparr>i_type = Directory, i_target = [], i_perm = m, i_mtime = clock w, i_data = []\<rparr>"
    have n: "ents w (comps p) = None" "w' = new_entry (comps p) ?i w"
      using that by (auto simp: plain_os_def plain_Mkdir_def split: option.splits if_splits)
    have "comps p \<noteq> []" using n(1) root_exists [OF that(1)] by auto
    note l = new_entry_look [OF that(1) n(1) this, where i = ?i, folded n(2)]
    have "plain_look w' q = plain_look w q" if "IsAbs q" "Clean q \<noteq> Clean p" for q
      using that \<open>IsAbs p\<close> by (intro l(4)) (auto simp: Clean_eq_comps)
    then show ?thesis
      using l(1-3) n(1) that(2) by (simp add: plain_look_def info_def Let_def IsDir_def)
  qed
  show "w' = w" if "os_Mkdir plain_os p m w = (Some e, w')"
    using that by (auto simp: plain_os_def plain_Mkdir_def split: option.splits if_splits)
  show "plain_look w p \<noteq> None"
    if "fs_inv w" "IsAbs p" "os_Mkdir plain_os p m w = (Some e, w')" "os_IsExist e"
    using that root_exists [OF that(1)]
    by (auto simp: plain_os_def plain_Mkdir_def plain_look_def os_IsExist_def parent_error_def
        split: option.splits if_splits)
  show "fs_inv w' \<and> plain_look w p \<noteq> None \<and> plain_look w q = None \<and> plain_look w' p = None \<and>
      map_option fi_id (plain_look w' q) = map_option fi_id (plain_look w p) \<and>
      (\<forall>r. IsAbs r \<longrightarrow> \<not> below p r \<longrightarrow> \<not> below q r \<longrightarrow> plain_look w' r = plain_look w r)"
    if "fs_inv w" "IsAbs p" "IsAbs q" "os_RenameNoReplace plain_os p q w = (None, w')"
  proof -
    let ?o = "comps p" and ?n = "comps q"
    have c: "ents w ?o \<noteq> None" "ents w ?n = None" "\<not> prefix ?o ?n" "\<not> prefix ?n ?o"
      and w': "w' = w\<lparr>ents := (\<lambda>k. if prefix ?n k then ents w (?o @ drop (length ?n) k)
         else if prefix ?o k then None else ents w k), names := last ?n # names w\<rparr>"
      using that by (auto simp: plain_os_def plain_Rename_def Let_def split: option.splits if_splits)
    have "last k \<in> set (names w')" if k: "ents w' k \<noteq> None" "k \<noteq> []" for k
    proof (cases "prefix ?n k")
      case True
      then obtain x where x: "k = ?n @ x" by (auto simp: prefix_def)
      have "ents w (?o @ x) \<noteq> None" using k(1) unfolding w' x by simp
      then show ?thesis
        using \<open>fs_inv w\<close> unfolding x w' fs_inv_def
        by (cases "x = []") (auto simp: last_append dest: spec [where x = "?o @ x"])
    next
      case False
      then have "ents w k \<noteq> None" using k(1) by (simp add: w' split: if_splits)
      then show ?thesis using k(2) \<open>fs_inv w\<close> by (auto simp: fs_inv_def w')
    qed
    moreover have "is_dir w' []" "\<forall>k n. ents w' k = Some n \<longrightarrow> n < fresh_ino w'"
      using that(1) c by (auto simp: w' fs_inv_def is_dir_def split: option.splits if_splits)
    ultimately have "fs_inv w'" by (simp add: fs_inv_def)
    then show ?thesis
      using that(2,3) c by (auto simp: w' plain_look_def info_def Let_def below_def)
  qed
  show "w' = w" if "os_RenameNoReplace plain_os p q w = (Some e, w')"
    using that by (auto simp: plain_os_def plain_Rename_def Let_def split: option.splits if_splits)
  show "plain_look w q \<noteq> None"
    if "fs_inv w" "IsAbs q" "os_RenameNoReplace plain_os p q w = (Some e, w')" "os_IsExist e"
    using that root_exists [OF that(1)]
    by (auto simp: plain_os_def plain_Rename_def Let_def plain_look_def os_IsExist_def parent_error_def
        split: option.splits if_splits)
qed


text \<open>The same file system restricted to states without symbolic links.\<close>

definition linkfree_inv :: "fs \<Rightarrow> bool" where
  "linkfree_inv w \<longleftrightarrow> fs_inv w \<and> (\<forall>n. i_type (inodes w n) \<noteq> Symlink)"

lemma linkfree_mkdir:
  "os_Mkdir plain_os p m w = (None, w') \<Longrightarrow> \<forall>n. i_type (inodes w n) \<noteq> Symlink \<Longrightarrow>
     \<forall>n. i_type (inodes w' n) \<noteq> Symlink"
  by (auto simp: plain_os_def plain_Mkdir_def new_entry_def split: option.splits if_splits)

lemma linkfree_rename:
  "os_RenameNoReplace plain_os p q w = (None, w') \<Longrightarrow> inodes w' = inodes w"
  by (auto simp: plain_os_def plain_Rename_def Let_def split: option.splits if_splits)

interpretation linkfree: file_system plain_os linkfree_inv plain_look
proof
  fix w w' :: fs and p q :: path and m :: nat and e :: goerr and fi :: fileinfo
  assume "linkfree_inv w"
  then have w: "fs_inv w" "\<forall>n. i_type (inodes w n) \<noteq> Symlink" by (auto simp: linkfree_inv_def)
  show "linkfree_inv w' \<and> plain_look w p = None \<and> (\<exists>fi. plain_look w' p = Some fi \<and> IsDir fi) \<and>
      (\<forall>q. IsAbs q \<longrightarrow> Clean q \<noteq> Clean p \<longrightarrow> plain_look w' q = plain_look w q)"
    if "IsAbs p" "os_Mkdir plain_os p m w = (None, w')"
    using plain.mkdir_ok [OF w(1) that] linkfree_mkdir [OF that(2) w(2)] by (simp add: linkfree_inv_def)
  show "linkfree_inv w' \<and> plain_look w p \<noteq> None \<and> plain_look w q = None \<and> plain_look w' p = None \<and>
      map_option fi_id (plain_look w' q) = map_option fi_id (plain_look w p) \<and>
      (\<forall>r. IsAbs r \<longrightarrow> \<not> below p r \<longrightarrow> \<not> below q r \<longrightarrow> plain_look w' r = plain_look w r)"
    if "IsAbs p" "IsAbs q" "os_RenameNoReplace plain_os p q w = (None, w')"
    using plain.rename_ok [OF w(1) that] linkfree_rename [OF that(3)] w(2) by (simp add: linkfree_inv_def)
  show "IsAbs p \<Longrightarrow> os_Lstat plain_os p w =
      (case plain_look w p of None \<Rightarrow> Inl (ErrNo ENOENT) | Some fi \<Rightarrow> Inr fi, w)"
    by (rule plain.lstat [OF w(1)])
  show "IsAbs p \<Longrightarrow> IsAbs q \<Longrightarrow> Clean p = Clean q \<Longrightarrow> plain_look w p = plain_look w q"
    by (rule plain.look_clean [OF w(1)])
  show "snd (os_Stat plain_os p w) = w" by (rule plain.stat_pure [OF w(1)])
  show "IsAbs p \<Longrightarrow> plain_look w p = Some fi \<Longrightarrow> IsDir fi \<Longrightarrow>
      \<exists>fi'. fst (os_Stat plain_os p w) = Inr fi' \<and> IsDir fi'"
    by (rule plain.stat_dir [OF w(1)])
  show "IsAbs p \<Longrightarrow> plain_look w p = None \<Longrightarrow> \<exists>e. fst (os_Stat plain_os p w) = Inl e"
    by (rule plain.stat_none [OF w(1)])
  show "os_Mkdir plain_os p m w = (Some e, w') \<Longrightarrow> w' = w" by (rule plain.mkdir_err [OF w(1)])
  show "IsAbs p \<Longrightarrow> os_Mkdir plain_os p m w = (Some e, w') \<Longrightarrow> os_IsExist e \<Longrightarrow> plain_look w p \<noteq> None"
    by (rule plain.mkdir_exist [OF w(1)])
  show "os_RenameNoReplace plain_os p q w = (Some e, w') \<Longrightarrow> w' = w" by (rule plain.rename_err [OF w(1)])
  show "IsAbs q \<Longrightarrow> os_RenameNoReplace plain_os p q w = (Some e, w') \<Longrightarrow> os_IsExist e \<Longrightarrow>
      plain_look w q \<noteq> None"
    by (rule plain.rename_exist [OF w(1)])
qed

lemma linkfree_stat:
  assumes "linkfree_inv w" "IsAbs p" "plain_look w p \<noteq> None"
  shows "\<exists>fi. fst (os_Stat plain_os p w) = Inr fi"
  using assms
  by (auto simp: linkfree_inv_def plain_os_def plain_Stat_def plain_look_def follow_simps(2))

section \<open>Sample states\<close>

definition dir_inode :: inode where
  "dir_inode = \<lparr>i_type = Directory, i_target = [], i_perm = 511, i_mtime = Time 100, i_data = []\<rparr>"

definition file_inode :: "string \<Rightarrow> inode" where
  "file_inode d = \<lparr>i_type = Regular, i_target = [], i_perm = 420, i_mtime = Time 100, i_data = d\<rparr>"

definition link_inode :: "path \<Rightarrow> inode" where
  "link_inode t = \<lparr>i_type = Symlink, i_target = t, i_perm = 511, i_mtime = Time 100, i_data = []\<rparr>"

definition empty_fs :: fs where
  "empty_fs = \<lparr>ents = [[] \<mapsto> 0], inodes = (\<lambda>_. dir_inode), fresh_ino = 1, handles = (\<lambda>_. None),
     fresh_handle = 3, clock = Time 200, names = []\<rparr>"

text \<open>A root directory \<open>/in\<close> with one file, and one with a symbolic link that leads nowhere.\<close>

definition sample_fs :: fs where
  "sample_fs = new_entry [''in'', ''f''] (file_inode ''data'') (new_entry [''in''] dir_inode empty_fs)"

definition link_fs :: fs where
  "link_fs = new_entry [''in'', ''out''] (link_inode ''/gone'') (new_entry [''in''] dir_inode empty_fs)"

lemma empty_fs_inv: "linkfree_inv empty_fs"
  by (auto simp: linkfree_inv_def fs_inv_def is_dir_def empty_fs_def dir_inode_def)

lemma new_entry_linkfree:
  assumes "linkfree_inv w" "ents w k = None" "i_type i \<noteq> Symlink"
  shows "linkfree_inv (new_entry k i w)"
proof -
  have "k \<noteq> []" using assms(1,2) root_exists [of w] by (auto simp: linkfree_inv_def)
  then show ?thesis
    using assms new_entry_look(1) [of w k i] by (simp add: linkfree_inv_def) (simp add: new_entry_def)
qed

lemma sample_fs_inv: "linkfree_inv sample_fs"
  unfolding sample_fs_def
  by (intro new_entry_linkfree empty_fs_inv)
    (simp_all add: new_entry_def empty_fs_def dir_inode_def file_inode_def)

end
