(* ===== verification/RelPath.thy ===== *)
theory RelPath
  imports FilePath GoErrors "HOL-Library.Sublist"
begin

text \<open>
  \<open>internal/relpath/relpath.go\<close>: a path resolved relative to a base directory, and whether it
  lies inside it.
\<close>

record Resolved =
  Path :: path
  BasePath :: path
  Relative :: path
  RelativeElems :: "string list"

definition ErrInvalid :: goerr where
  "ErrInvalid = ErrNew ''invalid argument''"

fun Contained_loop :: "string list \<Rightarrow> bool" where
  "Contained_loop [] = True"
| "Contained_loop (i # is) = (if i = ''..'' then False else Contained_loop is)"

definition Contained :: "Resolved \<Rightarrow> bool" where
  "Contained r \<longleftrightarrow> Contained_loop (RelativeElems r) \<and> length (RelativeElems r) > 0"

definition Resolve :: "path \<Rightarrow> path \<Rightarrow> goerr + Resolved" where
  "Resolve base path =
     (let b = Clean base;
          p = (if IsAbs path then Clean path else Join [b, path])
      in case Rel b p of
           Inl e \<Rightarrow> Inl (ErrNew e)
         | Inr rel \<Rightarrow>
             let elems = split_on slash rel
             in if length elems = 0 then Inl ErrInvalid
                else Inr \<lparr>Path = p, BasePath = b, Relative = rel, RelativeElems = elems\<rparr>)"

lemma Contained_iff: "Contained r \<longleftrightarrow> RelativeElems r \<noteq> [] \<and> ''..'' \<notin> set (RelativeElems r)"
proof -
  have "Contained_loop es \<longleftrightarrow> ''..'' \<notin> set es" for es
    by (induction es) auto
  then show ?thesis by (auto simp: Contained_def)
qed

lemma IsAbs_Join_Clean: "IsAbs (Join [Clean b, p]) = IsAbs b" "Clean (Join [Clean b, p]) = Join [Clean b, p]"
  by (simp_all add: Join_def comps_join(2))

text \<open>The resolved path, its components, and the base for an absolute base directory.\<close>

lemma Resolve_abs:
  assumes "IsAbs base" and p_def: "p = (if IsAbs path then Clean path else Join [Clean base, path])"
  obtains b t where "strip_common (comps base) (comps p) = (b, t)"
    "Resolve base path = Inr \<lparr>Path = p, BasePath = Clean base,
       Relative = (if p = Clean base then ''.'' else join_with slash (replicate (length b) ''..'' @ t)),
       RelativeElems = (if p = Clean base then [''.''] else replicate (length b) ''..'' @ t)\<rparr>"
proof -
  obtain b t where bt: "strip_common (comps base) (comps p) = (b, t)" by fastforce
  then obtain c where c: "comps base = c @ b" "comps p = c @ t" by (auto dest!: strip_common_spec)
  have p: "Clean p = p" "IsAbs p" using assms IsAbs_Join_Clean [of base path] by (auto simp: p_def)
  have nodots: "''..'' \<notin> set (comps base)" "''..'' \<notin> set (comps p)"
    using comps_rooted assms(1) p(2) by blast+
  show thesis
  proof (cases "p = Clean base")
    case True
    then have "Rel (Clean base) p = Inr ''.''" by (simp add: Rel_def)
    then show thesis using True bt by (intro that [of b t]) (simp_all add: Resolve_def p_def [symmetric] Let_def)
  next
    case False
    let ?es = "replicate (length b) ''..'' @ t"
    have ne: "comps base \<noteq> comps p" using False p assms(1) Clean_eq_iff [of p base] by auto
    then have es: "?es \<noteq> []" using c by auto
    have "\<forall>e \<in> set ?es. slash \<notin> set e"
      using c(2) comps_ok_free [OF comps_ok_comps [of p]] by auto
    then have split: "split_on slash (join_with slash ?es) = ?es" using es by (intro split_join)
    have "path_elems (Clean base) = comps base" "path_elems p = comps p"
      using path_elems_Clean [of base] path_elems_Clean [of p] p assms(1) by auto
    moreover have "Clean base \<noteq> ''.''" using assms(1) IsAbs_Clean [of base] by (auto simp: IsAbs_def)
    moreover have "\<not> (b \<noteq> [] \<and> t \<noteq> [] \<and> hd b = ''..'')" using nodots c by (cases b) auto
    ultimately have "Rel (Clean base) p = Inr (join_with slash ?es)"
      using False p bt assms(1) by (auto simp: Rel_def Let_def)
    then show thesis
      using False bt split es by (intro that [of b t]) (simp_all add: Resolve_def p_def [symmetric] Let_def)
  qed
qed

text \<open>
  C21. For an absolute base directory \<open>Resolve\<close> always succeeds, and \<open>Contained\<close> holds exactly when
  the resolved path is the base directory or below it: its components extend those of the base.
  In that case joining the base directory and the relative path gives the path back, so no
  \<open>..\<close> in the input can escape.
\<close>

theorem resolve_contained_iff:
  assumes "IsAbs base"
  shows "\<exists>r. Resolve base path = Inr r \<and>
    comps (Path r) = (if IsAbs path then comps path else descend True (comps base) (split_on slash path)) \<and>
    (Contained r \<longleftrightarrow> prefix (comps base) (comps (Path r))) \<and>
    (Contained r \<longrightarrow> Join [BasePath r, Relative r] = Path r)"
proof -
  obtain p where p_def: "p = (if IsAbs path then Clean path else Join [Clean base, path])" by simp
  obtain b t where bt: "strip_common (comps base) (comps p) = (b, t)"
    "Resolve base path = Inr \<lparr>Path = p, BasePath = Clean base,
       Relative = (if p = Clean base then ''.'' else join_with slash (replicate (length b) ''..'' @ t)),
       RelativeElems = (if p = Clean base then [''.''] else replicate (length b) ''..'' @ t)\<rparr>"
    using Resolve_abs [OF assms p_def] by blast
  from strip_common_spec [OF bt(1)] obtain c where
    c: "comps base = c @ b" "comps p = c @ t" "b = [] \<or> t = [] \<or> hd b \<noteq> hd t" by blast
  have p: "Clean p = p" "IsAbs p" using assms IsAbs_Join_Clean [of base path] by (auto simp: p_def)
  have ne: "p \<noteq> Clean base \<Longrightarrow> comps base \<noteq> comps p" using p assms Clean_eq_iff [of p base] by auto
  have nodots: "''..'' \<notin> set t" using comps_rooted [OF p(2)] c by auto
  have pre: "prefix (comps base) (comps p) \<longleftrightarrow> b = []"
    unfolding c(1,2) same_prefix_prefix using c(3) by (cases b; cases t) auto
  have join: "Join [Clean base, Relative r] = Path r"
    if "r = \<lparr>Path = p, BasePath = Clean base,
       Relative = (if p = Clean base then ''.'' else join_with slash t),
       RelativeElems = (if p = Clean base then [''.''] else t)\<rparr>" "b = []" for r
  proof (cases "p = Clean base")
    case True
    then show ?thesis using that Join_below [of "Clean base" "[''.'']"] assms
      by (simp add: Clean_def [symmetric]) (simp add: Clean_def)
  next
    case False
    then have t: "t \<noteq> []" using ne c that(2) by auto
    have n: "\<forall>d \<in> set t. normal d \<and> d \<noteq> ''..'' \<and> slash \<notin> set d"
      using nodots c comps_ok_free [OF comps_ok_comps [of p]] by (auto simp: normal_def)
    have "descend True (comps base) t = comps p" using descend_append [of t] n c that(2) by simp
    then have "Join [Clean base, join_with slash t] = render True (comps p)"
      using Join_below [of "Clean base" "[join_with slash t]"] split_join [of t slash] t n assms by simp
    also have "\<dots> = p" using p by (metis Clean_def)
    finally show ?thesis using False that(1) by simp
  qed
  have comps_p: "comps p = (if IsAbs path then comps path else descend True (comps base) (split_on slash path))"
    using assms by (simp add: p_def Join_def comps_join)
  show ?thesis
    using bt(2) comps_p pre ne c nodots join by (auto simp: Contained_iff)
qed

theorem resolve_contained_iff_witness:
  "\<exists>r. Resolve ''/srv/in'' ''a/../b'' = Inr r \<and> comps (Path r) = [''srv'', ''in'', ''b''] \<and>
     Contained r \<and> Join [BasePath r, Relative r] = Path r"
proof -
  have b: "IsAbs ''/srv/in''" "comps ''/srv/in'' = [''srv'', ''in'']" by code_simp+
  have p: "\<not> IsAbs ''a/../b''" "descend True [''srv'', ''in''] (split_on slash ''a/../b'') = [''srv'', ''in'', ''b'']"
    by code_simp+
  from resolve_contained_iff [OF b(1), of "''a/../b''"] obtain r where
    r: "Resolve ''/srv/in'' ''a/../b'' = Inr r"
      "comps (Path r) = (if IsAbs ''a/../b'' then comps ''a/../b''
         else descend True (comps ''/srv/in'') (split_on slash ''a/../b''))"
      "Contained r \<longleftrightarrow> prefix (comps ''/srv/in'') (comps (Path r))"
      "Contained r \<longrightarrow> Join [BasePath r, Relative r] = Path r" by blast
  have c: "comps (Path r) = [''srv'', ''in'', ''b'']" using r(2) p b(2) by (simp only: if_False)
  then have "Contained r" using r(3) b(2) by (simp only: prefix_code simp_thms)
  with r(1,4) c show ?thesis by blast
qed

lemma Resolve_contained:
  assumes "IsAbs base" "Resolve base path = Inr r" "Contained r"
  shows "BasePath r = Clean base \<and>
    (RelativeElems r = [''.''] \<and> Path r = Clean base \<or>
     (\<forall>d \<in> set (RelativeElems r). normal d \<and> d \<noteq> ''..'') \<and> IsAbs (Path r) \<and> Clean (Path r) = Path r \<and>
       comps (Path r) = comps base @ RelativeElems r)"
proof -
  obtain p where p_def: "p = (if IsAbs path then Clean path else Join [Clean base, path])" by simp
  obtain b t where bt: "strip_common (comps base) (comps p) = (b, t)"
    "Resolve base path = Inr \<lparr>Path = p, BasePath = Clean base,
       Relative = (if p = Clean base then ''.'' else join_with slash (replicate (length b) ''..'' @ t)),
       RelativeElems = (if p = Clean base then [''.''] else replicate (length b) ''..'' @ t)\<rparr>"
    using Resolve_abs [OF assms(1) p_def] by blast
  obtain c where c: "comps base = c @ b" "comps p = c @ t" using strip_common_spec [OF bt(1)] by blast
  have p: "Clean p = p" "IsAbs p" using assms(1) IsAbs_Join_Clean [of base path] by (auto simp: p_def)
  have n: "\<forall>d \<in> set t. normal d \<and> d \<noteq> ''..''"
    using comps_rooted [OF p(2)] comps_ok_free [OF comps_ok_comps [of p]] c by (auto simp: normal_def)
  have re: "r = \<lparr>Path = p, BasePath = Clean base,
       Relative = (if p = Clean base then ''.'' else join_with slash (replicate (length b) ''..'' @ t)),
       RelativeElems = (if p = Clean base then [''.''] else replicate (length b) ''..'' @ t)\<rparr>"
    using assms(2) bt(2) by (metis sum.inject(2))
  have r: "BasePath r = Clean base" "Path r = p"
    "RelativeElems r = (if p = Clean base then [''.''] else replicate (length b) ''..'' @ t)"
    by (simp_all only: re Resolved.simps)
  show ?thesis
  proof (cases "p = Clean base")
    case False
    then have "b = []" using assms(3) r(3) by (cases b) (simp_all add: Contained_iff)
    then show ?thesis using False r n c p by simp
  qed (simp add: r)
qed

end
