(* ===== verification/WaryIO.thy ===== *)
theory WaryIO
  imports FileSystem RelPath "HOL-Library.Monad_Syntax"
begin

text \<open>
  \<open>internal/waryio\<close>: careful file operations. Directories are only created inside a base
  directory, files are renamed only to names that are free, a copy fails when its source changes
  meanwhile, and two stat results are compared to find out whether a file changed.
\<close>

section \<open>iter.go, mkdir.go, rename.go\<close>

definition ErrIterExhausted :: goerr where
  "ErrIterExhausted = ErrNew ''iterator exhausted''"

text \<open>A \<open>StringIter\<close> is a state with a \<open>Next\<close> function.\<close>

type_synonym 'g string_iter = "'g \<Rightarrow> (path \<times> bool) \<times> 'g"

text \<open>
  The loop of \<open>MakeAvailableDir\<close> and \<open>RenameToAvailableName\<close>: \<open>act\<close> is tried on one name after the
  other until it succeeds, fails for another reason than an existing name, or the names run
  out. It may run forever, so not returning is the value \<open>None\<close>.
\<close>

partial_function (option) first_available ::
  "(path \<Rightarrow> 'w \<Rightarrow> err \<times> 'w) \<Rightarrow> 'g string_iter \<Rightarrow> path \<Rightarrow> bool \<Rightarrow> 'g \<Rightarrow> 'w \<Rightarrow>
   ((goerr + path) \<times> 'g \<times> 'w) option" where
  "first_available act nxt p ok g w =
     (if \<not> ok then Some (Inl ErrIterExhausted, g, w)
      else case act p w of
             (None, w1) \<Rightarrow> Some (Inr p, g, w1)
           | (Some e, w1) \<Rightarrow>
               (case nxt g of
                  ((p1, ok1), g1) \<Rightarrow>
                    if \<not> (ok1 \<and> os_IsExist e) then Some (Inl e, g1, w1)
                    else first_available act nxt p1 ok1 g1 w1))"

declare first_available.simps [code]

definition MakeAvailableDir ::
  "'w os \<Rightarrow> 'g string_iter \<Rightarrow> 'g \<Rightarrow> 'w \<Rightarrow> ((goerr + path) \<times> 'g \<times> 'w) option" where
  "MakeAvailableDir os nxt g w =
     (case nxt g of ((p, ok), g1) \<Rightarrow> first_available (\<lambda>p. os_Mkdir os p ModePerm) nxt p ok g1 w)"

definition renameWithoutReplace :: "'w os \<Rightarrow> path \<Rightarrow> path \<Rightarrow> 'w \<Rightarrow> err \<times> 'w" where
  "renameWithoutReplace os oldpath newpath w = os_RenameNoReplace os oldpath newpath w"

definition RenameToAvailableName ::
  "'w os \<Rightarrow> path \<Rightarrow> 'g string_iter \<Rightarrow> 'g \<Rightarrow> 'w \<Rightarrow> ((goerr + path) \<times> 'g \<times> 'w) option" where
  "RenameToAvailableName os oldpath nxt g w =
     (case nxt g of ((p, ok), g1) \<Rightarrow> first_available (renameWithoutReplace os oldpath) nxt p ok g1 w)"

section \<open>samestat.go\<close>

definition SameStat :: "append_func \<Rightarrow> 'w os \<Rightarrow> path \<Rightarrow> path \<Rightarrow> 'w \<Rightarrow> (goerr + bool) \<times> 'w" where
  "SameStat app os a b w =
     (let (ra, w1) = os_Lstat os a w; (rb, w2) = os_Lstat os b w1;
          ea = (case ra of Inl e \<Rightarrow> Some e | Inr _ \<Rightarrow> None);
          eb = (case rb of Inl e \<Rightarrow> Some e | Inr _ \<Rightarrow> None)
      in (case (app ea eb, ra, rb) of
            (Some e, _, _) \<Rightarrow> Inl e
          | (None, Inr fa, Inr fb) \<Rightarrow> Inr (SameFile fa fb)
          | (None, _, _) \<Rightarrow> Inr False, w2))"

section \<open>filechanges.go\<close>

definition ErrFileChanged :: goerr where
  "ErrFileChanged = ErrNew ''file changed''"

text \<open>The changes found, with the values the source puts into their descriptions.\<close>

datatype change =
    NotSameFile
  | TypeChanged ftype ftype
  | SizeChanged int int
  | MTimeChanged gotime gotime

type_synonym FileChanges = "change list"

definition DescribeChanges :: "fileinfo \<Rightarrow> fileinfo \<Rightarrow> FileChanges" where
  "DescribeChanges a b =
     (if \<not> SameFile a b then [NotSameFile] else []) @
     (if fi_type a \<noteq> fi_type b then [TypeChanged (fi_type a) (fi_type b)] else []) @
     (if fi_size a \<noteq> fi_size b then [SizeChanged (fi_size a) (fi_size b)] else []) @
     (if fi_mtime a \<noteq> fi_mtime b then [MTimeChanged (fi_mtime a) (fi_mtime b)] else [])"

definition Empty :: "FileChanges \<Rightarrow> bool" where
  "Empty c \<longleftrightarrow> length c = 0"

definition changes_Err :: "FileChanges \<Rightarrow> err" where
  "changes_Err c = (if length c = 0 then None else Some (ErrWrap ''changes'' ErrFileChanged))"

section \<open>reldir.go\<close>

fun EnsureRelDir_loop :: "'w os \<Rightarrow> path \<Rightarrow> nat \<Rightarrow> string list \<Rightarrow> string list \<Rightarrow> 'w \<Rightarrow> err \<times> 'w" where
  "EnsureRelDir_loop os base perm pre [] w = (None, w)"
| "EnsureRelDir_loop os base perm pre (e # es) w =
     (let partpath = Join (base # pre @ [e]);
          (st, w1) = os_Stat os partpath w
      in case st of
           Inr fi \<Rightarrow>
             if IsDir fi then EnsureRelDir_loop os base perm (pre @ [e]) es w1
             else (Some (ErrNo ENOTDIR), w1)
         | Inl _ \<Rightarrow>
             (case os_Mkdir os partpath perm w1 of
                (None, w2) \<Rightarrow> EnsureRelDir_loop os base perm (pre @ [e]) es w2
              | (Some err, w2) \<Rightarrow>
                  if os_IsExist err then
                    (case os_Stat os partpath w2 of
                       (st2, w3) \<Rightarrow>
                         let ignore = \<not> (case st2 of Inr fi \<Rightarrow> IsDir fi | Inl _ \<Rightarrow> False)
                         in if \<not> ignore then (Some err, w3)
                            else EnsureRelDir_loop os base perm (pre @ [e]) es w3)
                  else (Some err, w2)))"

definition EnsureRelDir :: "'w os \<Rightarrow> path \<Rightarrow> path \<Rightarrow> nat \<Rightarrow> 'w \<Rightarrow> (goerr + path) \<times> 'w" where
  "EnsureRelDir os base path perm w =
     (case Resolve base path of
        Inl e \<Rightarrow> (Inl e, w)
      | Inr r \<Rightarrow>
          if Contained r then
            (case EnsureRelDir_loop os (BasePath r) perm [] (RelativeElems r) w of
               (Some e, w1) \<Rightarrow> (Inl e, w1)
             | (None, w1) \<Rightarrow> (Inr (Path r), w1))
          else (Inr (Path r), w))"

section \<open>copy.go\<close>

definition copyInner :: "'w os \<Rightarrow> handle \<Rightarrow> handle \<Rightarrow> 'w \<Rightarrow> (goerr + nat) \<times> 'w" where
  "copyInner os src dest w =
     (case f_Stat os src w of
        (Inl e, w1) \<Rightarrow> (Inl e, w1)
      | (Inr before, w1) \<Rightarrow>
          (case io_Copy os dest src w1 of
             ((n, Some e), w2) \<Rightarrow> (Inl e, w2)
           | ((n, None), w2) \<Rightarrow>
               (case f_Stat os src w2 of
                  (Inl e, w3) \<Rightarrow> (Inl e, w3)
                | (Inr after, w3) \<Rightarrow>
                    (case changes_Err (DescribeChanges before after) of
                       Some e \<Rightarrow> (Inl (ErrWrap ''source was modified'' e), w3)
                     | None \<Rightarrow>
                         if n \<noteq> fi_size before
                         then (Inl (ErrNew ''copied bytes differ from source size''), w3)
                         else (Inr (fi_perm before mod 512), w3)))))"

record CopyOptions =
  SourcePath :: path
  SourceFlags :: open_flags
  SourceMode :: nat
  SourcePermPreserve :: bool
  DestPath :: path
  DestFlags :: open_flags
  DestMode :: nat
  DestSync :: bool

definition DefaultCopyOptions :: CopyOptions where
  "DefaultCopyOptions =
     \<lparr>SourcePath = [],
      SourceFlags = \<lparr>o_write = False, o_create = False, o_trunc = False, o_append = False,
        o_excl = False, o_nofollow = True\<rparr>,
      SourceMode = 0, SourcePermPreserve = True, DestPath = [],
      DestFlags = \<lparr>o_write = True, o_create = True, o_trunc = True, o_append = False,
        o_excl = False, o_nofollow = True\<rparr>,
      DestMode = 438, DestSync = False\<rparr>"

text \<open>The deferred function of \<open>Copy\<close>: every open handle is closed, and the first error of
  closing is the result if there was none before.\<close>

fun close_all :: "'w os \<Rightarrow> handle list \<Rightarrow> err \<Rightarrow> 'w \<Rightarrow> err \<times> 'w" where
  "close_all os [] err w = (err, w)"
| "close_all os (h # hs) err w =
     (case f_Close os h w of
        (closeErr, w1) \<Rightarrow> close_all os hs (if closeErr \<noteq> None \<and> err = None then closeErr else err) w1)"

definition Copy_open :: "'w os \<Rightarrow> CopyOptions \<Rightarrow> handle \<Rightarrow> handle \<Rightarrow> 'w \<Rightarrow> err \<times> 'w" where
  "Copy_open os opts src dest w =
     (case copyInner os src dest w of
        (Inl e, w1) \<Rightarrow> (Some e, w1)
      | (Inr sourcePerm, w1) \<Rightarrow>
          (case (if SourcePermPreserve opts then f_Chmod os dest sourcePerm w1 else (None, w1)) of
             (Some e, w2) \<Rightarrow> (Some e, w2)
           | (None, w2) \<Rightarrow> if DestSync opts then f_Sync os dest w2 else (None, w2)))"

definition Copy :: "'w os \<Rightarrow> CopyOptions \<Rightarrow> 'w \<Rightarrow> err \<times> 'w" where
  "Copy os opts w =
     (case os_OpenFile os (SourcePath opts) (SourceFlags opts) (SourceMode opts) w of
        (Inl e, w1) \<Rightarrow> close_all os [] (Some e) w1
      | (Inr src, w1) \<Rightarrow>
          (case os_OpenFile os (DestPath opts) (DestFlags opts) (DestMode opts) w1 of
             (Inl e, w2) \<Rightarrow> close_all os [src] (Some e) w2
           | (Inr dest, w2) \<Rightarrow>
               (case Copy_open os opts src dest w2 of
                  (err, w3) \<Rightarrow> close_all os [src, dest] err w3)))"


section \<open>Finding an available name\<close>

text \<open>The names a generator produces: the state before its \<open>n\<close>-th \<open>Next\<close>, and that \<open>Next\<close>.\<close>

fun iter_state :: "'g string_iter \<Rightarrow> 'g \<Rightarrow> nat \<Rightarrow> 'g" where
  "iter_state nxt g 0 = g"
| "iter_state nxt g (Suc n) = snd (nxt (iter_state nxt g n))"

definition candidate :: "'g string_iter \<Rightarrow> 'g \<Rightarrow> nat \<Rightarrow> path" where
  "candidate nxt g n = fst (fst (nxt (iter_state nxt g n)))"

definition endless :: "'g string_iter \<Rightarrow> bool" where
  "endless nxt \<longleftrightarrow> (\<forall>g. snd (fst (nxt g)))"

definition search ::
  "(path \<Rightarrow> 'w \<Rightarrow> err \<times> 'w) \<Rightarrow> 'g string_iter \<Rightarrow> 'g \<Rightarrow> nat \<Rightarrow> 'w \<Rightarrow> ((goerr + path) \<times> 'g \<times> 'w) option" where
  "search act nxt g n w =
     first_available act nxt (candidate nxt g n) True (iter_state nxt g (Suc n)) w"

lemma search_step:
  assumes "endless nxt"
  shows "search act nxt g n w =
    (case act (candidate nxt g n) w of
       (None, w1) \<Rightarrow> Some (Inr (candidate nxt g n), iter_state nxt g (Suc n), w1)
     | (Some e, w1) \<Rightarrow>
         if os_IsExist e then search act nxt g (Suc n) w1
         else Some (Inl e, iter_state nxt g (Suc (Suc n)), w1))"
proof -
  have "nxt (iter_state nxt g (Suc n)) = ((candidate nxt g (Suc n), True), iter_state nxt g (Suc (Suc n)))"
    using assms by (simp add: candidate_def endless_def prod_eq_iff)
  then show ?thesis
    by (subst search_def, subst first_available.simps) (auto simp: search_def split: prod.split option.split)
qed

text \<open>When failed attempts leave the world as it is, the names before the first one that is not
  taken are skipped.\<close>

lemma search_skip:
  assumes "endless nxt" "\<And>i. m \<le> i \<Longrightarrow> i < n \<Longrightarrow> \<exists>e. act (candidate nxt g i) w = (Some e, w) \<and> os_IsExist e"
    "m \<le> n"
  shows "search act nxt g m w = search act nxt g n w"
  using assms(2,3)
proof (induction "n - m" arbitrary: m)
  case (Suc k)
  then obtain e where "act (candidate nxt g m) w = (Some e, w)" "os_IsExist e" by force
  then have "search act nxt g m w = search act nxt g (Suc m) w"
    using search_step [OF assms(1), of act g m w] by simp
  also have "\<dots> = search act nxt g n w"
    by (rule Suc.hyps(1)) (use Suc.prems Suc.hyps(2) in auto)
  finally show ?case .
qed simp

lemma search_result:
  assumes endless: "endless nxt" and quiet: "\<And>i e w1. act (candidate nxt g i) w = (Some e, w1) \<Longrightarrow> w1 = w"
    and free: "\<not> (\<exists>e w1. act (candidate nxt g n) w = (Some e, w1) \<and> os_IsExist e)"
  obtains k where "k \<le> n"
    "\<And>i. i < k \<Longrightarrow> \<exists>e. act (candidate nxt g i) w = (Some e, w) \<and> os_IsExist e"
    "search act nxt g 0 w =
       (case act (candidate nxt g k) w of
          (None, w1) \<Rightarrow> Some (Inr (candidate nxt g k), iter_state nxt g (Suc k), w1)
        | (Some e, w1) \<Rightarrow> Some (Inl e, iter_state nxt g (Suc (Suc k)), w))"
proof -
  let ?free = "\<lambda>i. \<not> (\<exists>e w1. act (candidate nxt g i) w = (Some e, w1) \<and> os_IsExist e)"
  define k where "k = (LEAST i. ?free i)"
  have k: "?free k" "k \<le> n" unfolding k_def using free by (rule LeastI [of ?free], rule Least_le [of ?free])
  have taken: "\<exists>e. act (candidate nxt g i) w = (Some e, w) \<and> os_IsExist e" if "i < k" for i
    using not_less_Least [of i ?free] that quiet unfolding k_def by blast
  have "search act nxt g 0 w = search act nxt g k w"
    by (rule search_skip [OF endless]) (use taken in auto)
  also have "\<dots> = (case act (candidate nxt g k) w of
          (None, w1) \<Rightarrow> Some (Inr (candidate nxt g k), iter_state nxt g (Suc k), w1)
        | (Some e, w1) \<Rightarrow> Some (Inl e, iter_state nxt g (Suc (Suc k)), w))"
    using k(1) quiet [of k] by (subst search_step [OF endless]) (auto split: prod.split option.split)
  finally show thesis using that k(2) taken by blast
qed

lemma search_start:
  "endless nxt \<Longrightarrow> MakeAvailableDir os nxt g w = search (\<lambda>p. os_Mkdir os p ModePerm) nxt g 0 w"
  "endless nxt \<Longrightarrow> RenameToAvailableName os old nxt g w = search (renameWithoutReplace os old) nxt g 0 w"
  by (simp_all add: MakeAvailableDir_def RenameToAvailableName_def search_def candidate_def endless_def
      split: prod.split) (metis fst_conv snd_conv)+

context file_system
begin

lemma available_dir:
  assumes inv: "inv w" and nxt: "endless nxt" "\<And>i. IsAbs (candidate nxt g i)"
    and free: "look w (candidate nxt g n) = None"
  shows "\<exists>r g' w'. MakeAvailableDir os nxt g w = Some (r, g', w') \<and> inv w' \<and>
    (case r of
       Inl e \<Rightarrow> w' = w
     | Inr p \<Rightarrow> \<exists>k \<le> n. p = candidate nxt g k \<and> (\<forall>i < k. look w (candidate nxt g i) \<noteq> None) \<and>
         look w p = None \<and> (\<exists>fi. look w' p = Some fi \<and> IsDir fi) \<and>
         (\<forall>q. IsAbs q \<longrightarrow> Clean q \<noteq> Clean p \<longrightarrow> look w' q = look w q))"
proof -
  let ?act = "\<lambda>p. os_Mkdir os p ModePerm"
  have quiet: "?act (candidate nxt g i) w = (Some e, w1) \<Longrightarrow> w1 = w" for i e w1
    using mkdir_err [OF inv] by blast
  have taken: "look w (candidate nxt g i) \<noteq> None"
    if "?act (candidate nxt g i) w = (Some e, w1)" "os_IsExist e" for i e w1
    using mkdir_exist [OF inv nxt(2) that] .
  obtain k where k: "k \<le> n" "\<And>i. i < k \<Longrightarrow> \<exists>e. ?act (candidate nxt g i) w = (Some e, w) \<and> os_IsExist e"
    "search ?act nxt g 0 w =
       (case ?act (candidate nxt g k) w of
          (None, w1) \<Rightarrow> Some (Inr (candidate nxt g k), iter_state nxt g (Suc k), w1)
        | (Some e, w1) \<Rightarrow> Some (Inl e, iter_state nxt g (Suc (Suc k)), w))"
    by (rule search_result [OF nxt(1), of ?act g w n]) (use quiet taken free in blast)+
  show ?thesis
  proof (cases "?act (candidate nxt g k) w")
    case (Pair err w1)
    show ?thesis
    proof (cases err)
      case None
      have act: "?act (candidate nxt g k) w = (None, w1)" using Pair None by simp
      have r: "MakeAvailableDir os nxt g w = Some (Inr (candidate nxt g k), iter_state nxt g (Suc k), w1)"
        using k(3) act search_start(1) [OF nxt(1), of os g w] by simp
      have "look w (candidate nxt g i) \<noteq> None" if "i < k" for i using k(2) [OF that] taken by blast
      then show ?thesis
        unfolding r using mkdir_ok [OF inv nxt(2) act] k(1) by (auto intro!: exI [of _ k])
    next
      case (Some e)
      then show ?thesis using k(3) Pair inv search_start(1) [OF nxt(1), of os g w] by simp
    qed
  qed
qed

lemma available_rename:
  assumes inv: "inv w" and nxt: "endless nxt" "\<And>i. IsAbs (candidate nxt g i)"
    and free: "look w (candidate nxt g n) = None"
  shows "\<exists>r g' w'. RenameToAvailableName os old nxt g w = Some (r, g', w') \<and>
    (case r of
       Inl e \<Rightarrow> w' = w
     | Inr p \<Rightarrow> \<exists>k \<le> n. p = candidate nxt g k \<and> (\<forall>i < k. look w (candidate nxt g i) \<noteq> None) \<and>
         os_RenameNoReplace os old p w = (None, w'))"
proof -
  let ?act = "renameWithoutReplace os old"
  have quiet: "?act (candidate nxt g i) w = (Some e, w1) \<Longrightarrow> w1 = w" for i e w1
    using rename_err [OF inv] unfolding renameWithoutReplace_def by blast
  have taken: "look w (candidate nxt g i) \<noteq> None"
    if "?act (candidate nxt g i) w = (Some e, w1)" "os_IsExist e" for i e w1
    using rename_exist [OF inv nxt(2) that(1) [unfolded renameWithoutReplace_def] that(2)] .
  obtain k where k: "k \<le> n" "\<And>i. i < k \<Longrightarrow> \<exists>e. ?act (candidate nxt g i) w = (Some e, w) \<and> os_IsExist e"
    "search ?act nxt g 0 w =
       (case ?act (candidate nxt g k) w of
          (None, w1) \<Rightarrow> Some (Inr (candidate nxt g k), iter_state nxt g (Suc k), w1)
        | (Some e, w1) \<Rightarrow> Some (Inl e, iter_state nxt g (Suc (Suc k)), w))"
    by (rule search_result [OF nxt(1), of ?act g w n]) (use quiet taken free in blast)+
  show ?thesis
  proof (cases "?act (candidate nxt g k) w")
    case (Pair err w1)
    show ?thesis
    proof (cases err)
      case None
      have act: "?act (candidate nxt g k) w = (None, w1)" using Pair None by simp
      have r: "RenameToAvailableName os old nxt g w =
          Some (Inr (candidate nxt g k), iter_state nxt g (Suc k), w1)"
        using k(3) act search_start(2) [OF nxt(1), of os old g w] by simp
      have "look w (candidate nxt g i) \<noteq> None" if "i < k" for i using k(2) [OF that] taken by blast
      then show ?thesis
        unfolding r using act [unfolded renameWithoutReplace_def] k(1) by (auto intro!: exI [of _ k])
    next
      case (Some e)
      then show ?thesis using k(3) Pair search_start(2) [OF nxt(1), of os old g w] by simp
    qed
  qed
qed

lemma available_name:
  assumes inv: "inv w" and nxt: "endless nxt" "\<And>i. IsAbs (candidate nxt g i)" and old: "IsAbs old"
    and free: "look w (candidate nxt g n) = None"
  shows "\<exists>r g' w'. RenameToAvailableName os old nxt g w = Some (r, g', w') \<and> inv w' \<and>
    (case r of
       Inl e \<Rightarrow> w' = w
     | Inr p \<Rightarrow> \<exists>k \<le> n. p = candidate nxt g k \<and> (\<forall>i < k. look w (candidate nxt g i) \<noteq> None) \<and>
         look w p = None \<and> look w old \<noteq> None \<and> look w' old = None \<and>
         map_option fi_id (look w' p) = map_option fi_id (look w old) \<and>
         (\<forall>q. IsAbs q \<longrightarrow> \<not> below old q \<longrightarrow> \<not> below p q \<longrightarrow> look w' q = look w q))"
proof -
  obtain r g' w' where r: "RenameToAvailableName os old nxt g w = Some (r, g', w')"
    "case r of
       Inl e \<Rightarrow> w' = w
     | Inr p \<Rightarrow> \<exists>k \<le> n. p = candidate nxt g k \<and> (\<forall>i < k. look w (candidate nxt g i) \<noteq> None) \<and>
         os_RenameNoReplace os old p w = (None, w')"
    using available_rename [OF inv nxt free] by blast
  then show ?thesis
  proof (cases r)
    case (Inr p)
    then obtain k where k: "k \<le> n" "p = candidate nxt g k" "\<forall>i < k. look w (candidate nxt g i) \<noteq> None"
      "os_RenameNoReplace os old p w = (None, w')"
      using r(2) by auto
    have "IsAbs p" using nxt(2) k(2) by simp
    then show ?thesis using rename_ok [OF inv old _ k(4)] k r(1) Inr by auto
  qed (use inv in simp)
qed

end

section \<open>Creating directories below a base directory\<close>

lemma IsAbs_Join: "p \<noteq> [] \<Longrightarrow> IsAbs (Join (p # es)) = IsAbs p"
proof -
  assume p: "p \<noteq> []"
  then have "IsAbs (join_with slash (p # es)) = IsAbs p" by (cases es) (simp_all add: IsAbs_def)
  then show ?thesis using p by (simp add: Join_def)
qed

lemma comps_Join:
  assumes "p \<noteq> []" "IsAbs p" "\<forall>e \<in> set es. normal e \<and> e \<noteq> ''..''" "es \<noteq> []"
  shows "comps (Join (p # es)) = comps p @ es"
proof -
  have "split_on slash (join_with slash es) = es"
    using assms(3,4) by (intro split_join) (auto simp: normal_def)
  then have "Join (p # es) = Clean (p @ slash # join_with slash es)"
    "comps (p @ slash # join_with slash es) = comps p @ es"
    using assms comps_join(1) [of p "join_with slash es"] descend_append [of es]
    by (simp_all add: Join_def join_with_Cons)
  then show ?thesis by simp
qed

text \<open>Only the two operations \<open>Stat\<close> and \<open>Mkdir\<close> are used, the latter only on the partial paths.\<close>

lemma ensure_loop_preserves:
  assumes stat: "\<And>p w. P w \<Longrightarrow> P (snd (os_Stat os p w))"
    and mk: "\<And>k w. k < length es \<Longrightarrow> P w \<Longrightarrow>
      P (snd (os_Mkdir os (Join (base # pre @ take (Suc k) es)) perm w))"
    and "P w"
  shows "P (snd (EnsureRelDir_loop os base perm pre es w))"
  using assms(2,3)
proof (induction es arbitrary: pre w)
  case (Cons e es)
  let ?p = "Join (base # pre @ [e])"
  have mkp: "P v \<Longrightarrow> P (snd (os_Mkdir os ?p perm v))" for v
    using Cons.prems(1) [of 0 v] by simp
  have rest: "P v \<Longrightarrow> P (snd (EnsureRelDir_loop os base perm (pre @ [e]) es v))" for v
    using Cons.IH [of "pre @ [e]" v] Cons.prems(1) [of "Suc _"] by simp
  obtain st w1 where st: "os_Stat os ?p w = (st, w1)" by fastforce
  have w1: "P w1" using stat [OF Cons.prems(2), of ?p] st by simp
  obtain err w2 where md: "os_Mkdir os ?p perm w1 = (err, w2)" by fastforce
  have w2: "P w2" using mkp [OF w1] md by simp
  obtain st2 w3 where st2: "os_Stat os ?p w2 = (st2, w3)" by fastforce
  have w3: "P w3" using stat [OF w2, of ?p] st2 by simp
  show ?case
    using st md st2 w1 w2 w3 rest
    by (simp add: Let_def split: sum.split option.split if_split)
qed simp

context file_system
begin

text \<open>On a file system without dangling symbolic links the directory exists afterwards, and nothing
  that existed before has changed.\<close>

lemma ensure_loop_ok:
  assumes solid: "\<And>w p. inv w \<Longrightarrow> IsAbs p \<Longrightarrow> look w p \<noteq> None \<Longrightarrow> \<exists>fi. fst (os_Stat os p w) = Inr fi"
    and base: "IsAbs base"
  shows "EnsureRelDir_loop os base perm pre es w = (None, w') \<Longrightarrow> inv w \<Longrightarrow>
    inv w' \<and> (\<forall>q. IsAbs q \<longrightarrow> look w q \<noteq> None \<longrightarrow> look w' q = look w q) \<and>
    (es \<noteq> [] \<longrightarrow> (\<exists>fi. fst (os_Stat os (Join (base # pre @ es)) w') = Inr fi \<and> IsDir fi))"
proof (induction es arbitrary: pre w)
  case (Cons e es)
  let ?p = "Join (base # pre @ [e])"
  have abs: "IsAbs ?p" using base IsAbs_Join [of base "pre @ [e]"] by (auto simp: IsAbs_def)
  let ?keeps = "\<lambda>w v. \<forall>q. IsAbs q \<longrightarrow> look w q \<noteq> None \<longrightarrow> look v q = look w q"
  have step: "inv w' \<and> ?keeps w w' \<and> (\<exists>fi. fst (os_Stat os (Join (base # pre @ e # es)) w') = Inr fi \<and> IsDir fi)"
    if "inv v" "?keeps w v" "EnsureRelDir_loop os base perm (pre @ [e]) es v = (None, w')"
      "\<exists>fi. fst (os_Stat os ?p v) = Inr fi \<and> IsDir fi" for v
  proof (cases es)
    case Nil
    then show ?thesis using that by simp
  next
    case (Cons a as)
    have "inv w' \<and> ?keeps v w' \<and> (\<exists>fi. fst (os_Stat os (Join (base # (pre @ [e]) @ es)) w') = Inr fi \<and> IsDir fi)"
      using Cons.IH [OF that(3,1)] Cons by blast
    then show ?thesis using that(2) by (metis append.assoc append_Cons append_Nil)
  qed
  obtain st w1 where st: "os_Stat os ?p w = (st, w1)" by fastforce
  have w1: "w1 = w" using stat_pure [OF Cons.prems(2), of ?p] st by simp
  show ?case
  proof (cases st)
    case (Inr fi)
    then have "IsDir fi" "EnsureRelDir_loop os base perm (pre @ [e]) es w = (None, w')"
      using Cons.prems(1) st w1 by (auto split: if_splits)
    then show ?thesis using step [of w] Cons.prems(2) st Inr by simp
  next
    case (Inl x)
    then have free: "look w ?p = None" using solid [OF Cons.prems(2) abs] st by force
    obtain err w2 where md: "os_Mkdir os ?p perm w = (err, w2)" by fastforce
    show ?thesis
    proof (cases err)
      case None
      then have ok: "inv w2" "\<exists>fi. look w2 ?p = Some fi \<and> IsDir fi"
        "\<forall>q. IsAbs q \<longrightarrow> Clean q \<noteq> Clean ?p \<longrightarrow> look w2 q = look w q"
        using mkdir_ok [OF Cons.prems(2) abs] md by auto
      have "look w q = None" if "IsAbs q" "Clean q = Clean ?p" for q
        using free look_clean [OF Cons.prems(2) that(1) abs that(2)] by simp
      then have keeps: "?keeps w w2" using ok(3) by metis
      have "\<exists>fi. fst (os_Stat os ?p w2) = Inr fi \<and> IsDir fi" using ok(1,2) stat_dir abs by blast
      moreover have "EnsureRelDir_loop os base perm (pre @ [e]) es w2 = (None, w')"
        using Cons.prems(1) st w1 Inl md None by simp
      ultimately show ?thesis using step [OF ok(1) keeps] by simp
    next
      case (Some y)
      then have "os_IsExist y" using Cons.prems(1) st w1 Inl md by (auto split: if_splits)
      then have False using mkdir_exist [OF Cons.prems(2) abs] md Some free by blast
      then show ?thesis ..
    qed
  qed
qed simp

end


section \<open>Properties\<close>

definition sample_names :: "nat string_iter" where
  "sample_names n = ((''/in/'' @ replicate (Suc n) CHR ''f'', True), Suc n)"

lemma sample_names:
  "endless sample_names" "IsAbs (candidate sample_names 0 i)"
  "plain_look sample_fs (candidate sample_names 0 1) = None"
proof -
  show "endless sample_names" by (simp add: endless_def sample_names_def)
  have "iter_state sample_names 0 n = n" for n by (induction n) (simp_all add: sample_names_def)
  then have c: "candidate sample_names 0 n = ''/in/'' @ replicate (Suc n) CHR ''f''" for n
    by (simp add: candidate_def sample_names_def)
  then show "IsAbs (candidate sample_names 0 i)" by (simp add: IsAbs_def)
  have "plain_look sample_fs ''/in/ff'' = None" by code_simp
  then show "plain_look sample_fs (candidate sample_names 0 1) = None" by (simp add: c numeral_2_eq_2)
qed



text \<open>
  \<open>MakeAvailableDir\<close> creates exactly one new directory, at the first name that can be created,
  and leaves all other entries alone; it returns as soon as the generator offers a free name, and
  an error means that nothing has changed.
\<close>

theorem make_available_dir:
  assumes "file_system os valid look" "valid w" "endless nxt" "\<And>i. IsAbs (candidate nxt g i)"
    "look w (candidate nxt g n) = None"
  shows "\<exists>r g' w'. MakeAvailableDir os nxt g w = Some (r, g', w') \<and>
    (case r of
       Inl e \<Rightarrow> w' = w
     | Inr p \<Rightarrow> \<exists>k \<le> n. p = candidate nxt g k \<and> (\<forall>i < k. look w (candidate nxt g i) \<noteq> None) \<and>
         look w p = None \<and> (\<exists>fi. look w' p = Some fi \<and> IsDir fi) \<and>
         (\<forall>q. IsAbs q \<longrightarrow> Clean q \<noteq> Clean p \<longrightarrow> look w' q = look w q))"
  using file_system.available_dir [OF assms] by blast

theorem make_available_dir_witness:
  "\<exists>g' w' fi. MakeAvailableDir plain_os sample_names 0 sample_fs = Some (Inr ''/in/ff'', g', w') \<and>
     plain_look w' ''/in/ff'' = Some fi \<and> IsDir fi"
proof -
  have inv: "fs_inv sample_fs" using sample_fs_inv by (simp add: linkfree_inv_def)
  obtain r g' w' where r: "MakeAvailableDir plain_os sample_names 0 sample_fs = Some (r, g', w')"
    and c: "case r of
       Inl e \<Rightarrow> w' = sample_fs
     | Inr p \<Rightarrow> \<exists>k \<le> 1. p = candidate sample_names 0 k \<and>
         (\<forall>i < k. plain_look sample_fs (candidate sample_names 0 i) \<noteq> None) \<and>
         plain_look sample_fs p = None \<and> (\<exists>fi. plain_look w' p = Some fi \<and> IsDir fi) \<and>
         (\<forall>q. IsAbs q \<longrightarrow> Clean q \<noteq> Clean p \<longrightarrow> plain_look w' q = plain_look sample_fs q)"
    using make_available_dir [OF plain.file_system_axioms inv sample_names] by blast
  have "map_option fst (MakeAvailableDir plain_os sample_names 0 sample_fs) = Some (Inr ''/in/ff'')"
    by code_simp
  then have "r = Inr ''/in/ff''" using r by simp
  then show ?thesis using r c by auto
qed

lemma EnsureRelDir_preserves:
  assumes "IsAbs base" "P w"
    and stat: "\<And>p w. P w \<Longrightarrow> P (snd (os_Stat os p w))"
    and mkdir: "\<And>p w. below base p \<Longrightarrow> P w \<Longrightarrow> P (snd (os_Mkdir os p perm w))"
  shows "P (snd (EnsureRelDir os base path perm w))"
proof (cases "Resolve base path")
  case (Inr r)
  show ?thesis
  proof (cases "Contained r")
    case True
    let ?es = "RelativeElems r"
    have r: "BasePath r = Clean base" "?es = [''.''] \<or> (\<forall>d \<in> set ?es. normal d \<and> d \<noteq> ''..'')"
      using Resolve_contained [OF assms(1) Inr True] by blast+
    have abs: "IsAbs (Join (Clean base # es))" for es using assms(1) by (simp add: IsAbs_Join)
    have "below base (Join (BasePath r # [] @ take (Suc k) ?es))" if "k < length ?es" for k
    proof (cases "?es = [''.'']")
      case True
      have "Join [Clean base, ''.''] = Clean (Clean base @ ''/.'')" by (simp add: Join_def)
      then have "comps (Join [Clean base, ''.'']) = comps base"
        using comps_join(1) [of "Clean base" "''.''"] by simp
      then show ?thesis using True that r(1) abs [of "[''.'']"] assms(1) by (simp add: below_def)
    next
      case False
      have "\<forall>e \<in> set (take (Suc k) ?es). normal e \<and> e \<noteq> ''..''"
        using r(2) False in_set_takeD by metis
      moreover have "take (Suc k) ?es \<noteq> []" using that by auto
      ultimately have "comps (Join (Clean base # take (Suc k) ?es)) = comps base @ take (Suc k) ?es"
        using comps_Join [of "Clean base"] assms(1) by simp
      then show ?thesis using r(1) abs assms(1) by (simp add: below_def)
    qed
    then have mk: "P v \<Longrightarrow> P (snd (os_Mkdir os (Join (BasePath r # [] @ take (Suc k) ?es)) perm v))"
      if "k < length ?es" for k v using mkdir that by blast
    have "P (snd (EnsureRelDir_loop os (BasePath r) perm [] ?es w))"
      by (rule ensure_loop_preserves [where P = P, OF stat mk assms(2)])
    then show ?thesis using Inr True by (auto simp: EnsureRelDir_def split: prod.split option.split)
  qed (use Inr assms(2) in \<open>simp add: EnsureRelDir_def\<close>)
qed (use assms(2) in \<open>simp add: EnsureRelDir_def\<close>)

text \<open>Whatever the outcome, everything that existed before is unchanged.\<close>

lemma EnsureRelDir_keeps:
  assumes "file_system os valid look" "valid w" "IsAbs base"
  shows "valid (snd (EnsureRelDir os base path perm w)) \<and>
    (\<forall>q. IsAbs q \<longrightarrow> look w q \<noteq> None \<longrightarrow> look (snd (EnsureRelDir os base path perm w)) q = look w q)"
proof (rule EnsureRelDir_preserves [OF assms(3)])
  let ?P = "\<lambda>v. valid v \<and> (\<forall>q. IsAbs q \<longrightarrow> look w q \<noteq> None \<longrightarrow> look v q = look w q)"
  note fs = file_system.stat_pure [OF assms(1)] file_system.mkdir_ok [OF assms(1)]
    file_system.mkdir_err [OF assms(1)] file_system.look_clean [OF assms(1)]
  show "?P w" using assms(2) by simp
  show "?P v \<Longrightarrow> ?P (snd (os_Stat os p v))" for p v using fs(1) by auto
  fix p v
  assume b: "below base p" and v: "?P v"
  then have abs: "IsAbs p" using assms(3) by (simp add: below_def)
  obtain err v' where m: "os_Mkdir os p perm v = (err, v')" by fastforce
  show "?P (snd (os_Mkdir os p perm v))"
  proof (cases err)
    case None
    then have ok: "valid v'" "look v p = None" "\<forall>q. IsAbs q \<longrightarrow> Clean q \<noteq> Clean p \<longrightarrow> look v' q = look v q"
      using fs(2) [of v p perm v'] v abs m by auto
    have "look v' q = look w q" if q: "IsAbs q" "look w q \<noteq> None" for q
    proof (cases "Clean q = Clean p")
      case True
      then have "look v q = None" using fs(4) [OF _ q(1) abs] v ok(2) by simp
      then show ?thesis using v q by auto
    qed (use ok(3) v q in auto)
    then show ?thesis using m ok(1) by simp
  qed (use m v fs(3) in fastforce)
qed

text \<open>
  C20. \<open>EnsureRelDir\<close> stays inside its base directory, on any system and whatever other processes
  do: every property of the world that is preserved by \<open>Stat\<close> and by creating directories at
  or below the base directory is preserved by \<open>EnsureRelDir\<close>, for every requested path.
\<close>

theorem ensure_dir_confined:
  assumes "IsAbs base" "P w"
    and stat: "\<And>p w. P w \<Longrightarrow> P (snd (os_Stat os p w))"
    and mkdir: "\<And>p w. below base p \<Longrightarrow> P w \<Longrightarrow> P (snd (os_Mkdir os p perm w))"
  shows "P (snd (EnsureRelDir os base path perm w))"
  by (rule EnsureRelDir_preserves [of base P w os perm path]) (use assms in blast)+

theorem ensure_dir_confined_witness:
  "(\<lambda>w. ents w [''etc'', ''x''] = None) (snd (EnsureRelDir plain_os ''/in'' ''../etc/x'' 511 sample_fs))"
proof (rule ensure_dir_confined)
  show "IsAbs ''/in''" by (simp add: IsAbs_def)
  show "ents sample_fs [''etc'', ''x''] = None" by code_simp
  show "ents w [''etc'', ''x''] = None \<Longrightarrow> ents (snd (os_Stat plain_os p w)) [''etc'', ''x''] = None" for p w
    by (simp add: plain_os_def plain_Stat_def split: sum.split option.split)
  fix p and w :: fs
  assume b: "below ''/in'' p" and w: "ents w [''etc'', ''x''] = None"
  have "comps ''/in'' = [''in'']" "IsAbs ''/in''" by code_simp+
  then have "IsAbs p" "comps p \<noteq> [''etc'', ''x'']" using b by (auto simp: below_def)
  then show "ents (snd (os_Mkdir plain_os p 511 w)) [''etc'', ''x''] = None"
    using w by (auto simp: plain_os_def plain_Mkdir_def new_entry_def split: option.split)
qed


lemma EnsureRelDir_ok:
  assumes "file_system os valid look"
    and "\<And>w p. valid w \<Longrightarrow> IsAbs p \<Longrightarrow> look w p \<noteq> None \<Longrightarrow> \<exists>fi. fst (os_Stat os p w) = Inr fi"
    and "valid w" "IsAbs base" "Resolve base path = Inr r" "Contained r"
    and "EnsureRelDir os base path perm w = (Inr p, w')"
  shows "p = Path r \<and> valid w' \<and> (\<exists>fi. fst (os_Stat os p w') = Inr fi \<and> IsDir fi) \<and>
    (\<forall>q. IsAbs q \<longrightarrow> look w q \<noteq> None \<longrightarrow> look w' q = look w q)"
proof -
  let ?es = "RelativeElems r"
  have c: "BasePath r = Clean base"
    "?es = [''.''] \<and> Path r = Clean base \<or>
     (\<forall>d \<in> set ?es. normal d \<and> d \<noteq> ''..'') \<and> IsAbs (Path r) \<and> Clean (Path r) = Path r \<and>
       comps (Path r) = comps base @ ?es"
    using Resolve_contained [OF assms(4-6)] by blast+
  have l: "EnsureRelDir_loop os (Clean base) perm [] ?es w = (None, w')" "p = Path r"
    using assms(5-7) c(1) by (auto simp: EnsureRelDir_def split: prod.splits option.splits)
  have ne: "?es \<noteq> []" using assms(6) by (simp add: Contained_iff)
  have abs: "IsAbs (Clean base)" using assms(4) by simp
  have "Join (Clean base # ?es) = p"
  proof (cases "?es = [''.'']")
    case True
    then have "Path r = Clean base" using c(2) by (auto simp: normal_def)
    moreover have "Join [Clean base, ''.''] = Clean (Clean base @ slash # ''.'')" by (simp add: Join_def)
    moreover have "comps (Clean base @ slash # ''.'') = comps base" "IsAbs (Clean base @ slash # ''.'')"
      using comps_join [of "Clean base" "''.''"] assms(4) by simp_all
    ultimately show ?thesis using True l(2) assms(4) Clean_eq_comps by simp
  next
    case False
    then have n: "\<forall>d \<in> set ?es. normal d \<and> d \<noteq> ''..''" and p: "IsAbs p" "Clean p = p" "comps p = comps base @ ?es"
      using c(2) l(2) by auto
    have "comps (Join (Clean base # ?es)) = comps p"
      using comps_Join [OF _ abs n ne] p(3) by simp
    moreover have "Clean (Join (Clean base # ?es)) = Join (Clean base # ?es)" by (simp add: Join_def)
    ultimately show ?thesis
      using p(1,2) abs Clean_eq_comps [of "Join (Clean base # ?es)" p] IsAbs_Join [of "Clean base" ?es] by simp
  qed
  then show ?thesis
    using file_system.ensure_loop_ok [OF assms(1,2) abs l(1) assms(3)] ne l(2) by simp
qed

text \<open>
  On a file system without dangling symbolic links, when \<open>EnsureRelDir\<close> succeeds for a path
  inside the base directory, the path it returns is a directory, and everything that existed
  before is unchanged.
\<close>

theorem ensure_dir_exists:
  assumes "file_system os valid look"
    and "\<And>w p. valid w \<Longrightarrow> IsAbs p \<Longrightarrow> look w p \<noteq> None \<Longrightarrow> \<exists>fi. fst (os_Stat os p w) = Inr fi"
    and "valid w" "IsAbs base" "Resolve base path = Inr r" "Contained r"
    and "EnsureRelDir os base path perm w = (Inr p, w')"
  shows "p = Path r \<and> valid w' \<and> (\<exists>fi. fst (os_Stat os p w') = Inr fi \<and> IsDir fi) \<and>
    (\<forall>q. IsAbs q \<longrightarrow> look w q \<noteq> None \<longrightarrow> look w' q = look w q)"
  by (rule EnsureRelDir_ok [OF assms])

theorem ensure_dir_exists_witness:
  "\<exists>w' fi. EnsureRelDir plain_os ''/in'' ''_/journal'' 511 sample_fs = (Inr ''/in/_/journal'', w') \<and>
     fst (os_Stat plain_os ''/in/_/journal'' w') = Inr fi \<and> IsDir fi"
proof -
  have r: "Resolve ''/in'' ''_/journal'' = Inr \<lparr>Path = ''/in/_/journal'', BasePath = ''/in'',
      Relative = ''_/journal'', RelativeElems = [''_'', ''journal'']\<rparr>" by code_simp
  have c: "Contained \<lparr>Path = ''/in/_/journal'', BasePath = ''/in'',
      Relative = ''_/journal'', RelativeElems = [''_'', ''journal'']\<rparr>" by code_simp
  have "fst (EnsureRelDir plain_os ''/in'' ''_/journal'' 511 sample_fs) = Inr ''/in/_/journal''" by code_simp
  then obtain w' where w: "EnsureRelDir plain_os ''/in'' ''_/journal'' 511 sample_fs = (Inr ''/in/_/journal'', w')"
    by (metis prod.collapse)
  have "IsAbs ''/in''" by (simp add: IsAbs_def)
  from ensure_dir_exists [OF linkfree.file_system_axioms linkfree_stat sample_fs_inv this r c w] w
  show ?thesis by auto
qed

text \<open>
  C25. A directory that another process creates between the check and \<open>Mkdir\<close> makes \<open>EnsureRelDir\<close>
  fail: the test for a concurrently created directory is the wrong way round.
\<close>

theorem ensure_dir_rejects_concurrent_mkdir:
  assumes "Resolve base path = Inr r" "Contained r" "RelativeElems r = [e]"
    and p: "p = Join [BasePath r, e]"
    and "os_Stat os p w = (Inl e1, w1)" "os_Mkdir os p perm w1 = (Some (ErrNo EEXIST), w2)"
    "os_Stat os p w2 = (Inr fi, w3)" "IsDir fi"
  shows "EnsureRelDir os base path perm w = (Inl (ErrNo EEXIST), w3)"
  using assms by (simp add: EnsureRelDir_def os_IsExist_def Let_def)

text \<open>A world in which another process creates the directory right after the first look at it.\<close>

definition racing_os :: "bool os" where
  "racing_os = \<lparr>os_Stat = (\<lambda>p made. if made
       then (Inr \<lparr>fi_name = [], fi_type = Directory, fi_perm = 511, fi_size = 0, fi_mtime = Time 1, fi_id = (0, 7)\<rparr>, True)
       else (Inl (ErrNo ENOENT), True)),
     os_Lstat = (\<lambda>p w. (Inl (ErrNo ENOENT), w)),
     os_Mkdir = (\<lambda>p m made. if made then (Some (ErrNo EEXIST), made) else (None, True)),
     os_RenameNoReplace = (\<lambda>p q w. (Some (ErrNo EINVAL), w)), os_OpenFile = (\<lambda>p f m w. (Inl (ErrNo EINVAL), w)),
     f_Stat = (\<lambda>h w. (Inl (ErrNo EINVAL), w)), f_Chmod = (\<lambda>h m w. (None, w)), f_Sync = (\<lambda>h w. (None, w)),
     f_Close = (\<lambda>h w. (None, w)), io_Copy = (\<lambda>d s w. ((0, None), w))\<rparr>"

theorem ensure_dir_rejects_concurrent_mkdir_witness:
  "EnsureRelDir racing_os ''/in'' ''sub'' 511 False = (Inl (ErrNo EEXIST), True)"
proof -
  have r: "Resolve ''/in'' ''sub'' =
      Inr \<lparr>Path = ''/in/sub'', BasePath = ''/in'', Relative = ''sub'', RelativeElems = [''sub'']\<rparr>" by code_simp
  show ?thesis
    by (rule ensure_dir_rejects_concurrent_mkdir [OF r _ _ refl, where ?w2.0 = True and
          fi = "\<lparr>fi_name = [], fi_type = Directory, fi_perm = 511, fi_size = 0, fi_mtime = Time 1, fi_id = (0, 7)\<rparr>"])
      (simp_all add: Contained_iff racing_os_def IsDir_def)
qed

text \<open>
  A symbolic link that leads nowhere makes \<open>EnsureRelDir\<close> report success although there is no
  directory: \<open>Stat\<close> on the returned path fails.
\<close>

theorem ensure_dir_accepts_dangling_link:
  "fst (EnsureRelDir plain_os ''/in'' ''out'' 511 link_fs) = Inr ''/in/out'' \<and>
   fst (os_Stat plain_os ''/in/out'' (snd (EnsureRelDir plain_os ''/in'' ''out'' 511 link_fs))) =
     Inl (ErrNo ENOENT)"
  by code_simp


section \<open>Copying on the plain file system\<close>

lemma open_source:
  assumes "IsAbs p" "fl = \<lparr>o_write = False, o_create = False, o_trunc = False, o_append = False,
        o_excl = False, o_nofollow = True\<rparr>" "os_OpenFile plain_os p fl m w = (r, w1)"
  shows "(\<exists>e. r = Inl e) \<and> w1 = w \<or>
    (\<exists>n. r = Inr (fresh_handle w) \<and> ents w (comps p) = Some n \<and>
       w1 = w\<lparr>handles := (handles w)(fresh_handle w := Some n), fresh_handle := Suc (fresh_handle w)\<rparr>)"
  using assms by (auto simp: plain_os_def plain_OpenFile_def new_handle_def split: option.splits if_splits)

lemma open_dest:
  assumes "IsAbs p" "fl = \<lparr>o_write = True, o_create = True, o_trunc = True, o_append = False,
        o_excl = True, o_nofollow = True\<rparr>" "os_OpenFile plain_os p fl m w = (r, w1)"
  shows "(\<exists>e. r = Inl e) \<and> w1 = w \<or>
    r = Inr (fresh_handle w) \<and> ents w (comps p) = None \<and>
       w1 = w\<lparr>ents := (ents w)(comps p := Some (fresh_ino w)),
         inodes := (inodes w)(fresh_ino w :=
           \<lparr>i_type = Regular, i_target = [], i_perm = m, i_mtime = clock w, i_data = []\<rparr>),
         fresh_ino := Suc (fresh_ino w), names := last (comps p) # names w,
         handles := (handles w)(fresh_handle w := Some (fresh_ino w)), fresh_handle := Suc (fresh_handle w)\<rparr>"
  using assms
  by (auto simp: plain_os_def plain_OpenFile_def new_handle_def new_entry_def split: option.splits if_splits)

lemma copy_between:
  assumes "handles w src = Some n" "handles w dest = Some d" "n \<noteq> d"
    "SourcePermPreserve opts" "Copy_open plain_os opts src dest w = (None, w1)"
  shows "w1 = w\<lparr>inodes := (inodes w)(d := (inodes w d)\<lparr>i_data := i_data (inodes w d) @ i_data (inodes w n),
      i_mtime := clock w, i_perm := i_perm (inodes w n) mod 512\<rparr>)\<rparr>"
proof -
  obtain w2 where w2: "w2 = w\<lparr>inodes := (inodes w)(d := (inodes w d)\<lparr>
      i_data := i_data (inodes w d) @ i_data (inodes w n), i_mtime := clock w\<rparr>)\<rparr>" by simp
  have st: "f_Stat plain_os src w = (Inr (info w [] n), w)"
    using assms(1) by (simp add: plain_os_def plain_fStat_def)
  have same: "info w2 [] n = info w [] n" using assms(3) by (simp add: info_def w2)
  have st2: "f_Stat plain_os src w2 = (Inr (info w [] n), w2)"
    using assms(1) same by (simp add: plain_os_def plain_fStat_def) (simp add: w2)
  have cp: "io_Copy plain_os dest src w = ((int (length (i_data (inodes w n))), None), w2)"
    using assms(1,2) by (simp add: plain_os_def plain_Copy_def Let_def w2)
  have size: "fi_size (info w [] n) = int (length (i_data (inodes w n)))"
    "fi_perm (info w [] n) = i_perm (inodes w n)" by (simp_all add: info_def Let_def)
  have "copyInner plain_os src dest w = (Inr (i_perm (inodes w n) mod 512), w2)"
    by (simp add: copyInner_def st st2 cp size DescribeChanges_def SameFile_def changes_Err_def)
  moreover have "handles w2 dest = Some d" using assms(2) by (simp add: w2)
  ultimately have "w1 = w2\<lparr>inodes := (inodes w2)(d := (inodes w2 d)\<lparr>i_perm := i_perm (inodes w n) mod 512\<rparr>)\<rparr>"
    using assms(4,5)
    by (auto simp: Copy_open_def plain_os_def plain_Chmod_def plain_Sync_def split: if_splits)
  then show ?thesis by (simp add: w2)
qed

lemma close_two:
  assumes "handles w a = Some n" "handles w b = Some m" "a \<noteq> b" "close_all plain_os [a, b] err w = (None, w')"
  shows "err = None \<and> w' = w\<lparr>handles := (handles w)(a := None, b := None)\<rparr>"
  using assms by (auto simp: plain_os_def plain_Close_def split: if_splits)

lemma Copy_effect:
  assumes "fs_inv w" "\<And>h. fresh_handle w \<le> h \<Longrightarrow> handles w h = None"
    and "IsAbs (SourcePath opts)" "IsAbs (DestPath opts)"
    and "SourceFlags opts = SourceFlags DefaultCopyOptions" "SourcePermPreserve opts"
    and "DestFlags opts = (DestFlags DefaultCopyOptions)\<lparr>o_excl := True\<rparr>"
    and "Copy plain_os opts w = (None, w')"
  shows "\<exists>n d. ents w (comps (SourcePath opts)) = Some n \<and> ents w (comps (DestPath opts)) = None \<and>
    ents w' = (ents w)(comps (DestPath opts) := Some d) \<and>
    i_data (inodes w' d) = i_data (inodes w n) \<and> i_perm (inodes w' d) = i_perm (inodes w n) mod 512 \<and>
    (\<forall>k i. ents w k = Some i \<longrightarrow> inodes w' i = inodes w i) \<and> handles w' = handles w \<and> fs_inv w'"
proof -
  let ?h = "fresh_handle w"
  obtain r w1 where o1: "os_OpenFile plain_os (SourcePath opts) (SourceFlags opts) (SourceMode opts) w = (r, w1)"
    by fastforce
  have "\<not> (\<exists>e. r = Inl e)" using assms(8) o1 by (auto simp: Copy_def)
  then obtain n where n: "r = Inr ?h" "ents w (comps (SourcePath opts)) = Some n"
      "w1 = w\<lparr>handles := (handles w)(?h := Some n), fresh_handle := Suc ?h\<rparr>"
    using open_source [OF assms(3) _ o1] assms(5) by (auto simp: DefaultCopyOptions_def)
  let ?d = "fresh_ino w"
  have nd: "n \<noteq> ?d" using assms(1) n(2) by (auto simp: fs_inv_def)
  obtain r2 w2 where o2: "os_OpenFile plain_os (DestPath opts) (DestFlags opts) (DestMode opts) w1 = (r2, w2)"
    by fastforce
  have "\<not> (\<exists>e. r2 = Inl e)"
  proof
    assume "\<exists>e. r2 = Inl e"
    then obtain e where "r2 = Inl e" ..
    then have "close_all plain_os [?h] (Some e) w2 = (None, w')"
      using assms(8) o1 o2 n(1) by (simp add: Copy_def)
    then show False by (auto split: prod.splits)
  qed
  then have d: "r2 = Inr (Suc ?h)" "ents w (comps (DestPath opts)) = None"
    "w2 = w1\<lparr>ents := (ents w)(comps (DestPath opts) := Some ?d),
         inodes := (inodes w)(?d :=
           \<lparr>i_type = Regular, i_target = [], i_perm = DestMode opts, i_mtime = clock w, i_data = []\<rparr>),
         fresh_ino := Suc ?d, names := last (comps (DestPath opts)) # names w,
         handles := (handles w1)(Suc ?h := Some ?d), fresh_handle := Suc (Suc ?h)\<rparr>"
    using open_dest [OF assms(4) _ o2] assms(7) n(3) by (auto simp: DefaultCopyOptions_def)
  obtain err w3 where c: "Copy_open plain_os opts ?h (Suc ?h) w2 = (err, w3)" by fastforce
  then have cl: "close_all plain_os [?h, Suc ?h] err w3 = (None, w')"
    using assms(8) o1 o2 n(1) d(1) by (simp add: Copy_def)
  then have "err = None" by (auto split: prod.splits if_splits)
  with c have w3: "w3 = w2\<lparr>inodes := (inodes w2)(?d := (inodes w2 ?d)\<lparr>i_data := i_data (inodes w2 ?d) @ i_data (inodes w2 n),
      i_mtime := clock w2, i_perm := i_perm (inodes w2 n) mod 512\<rparr>)\<rparr>"
    using nd assms(6) n(3) d(3) by (intro copy_between [where src = ?h and dest = "Suc ?h"]) simp_all
  have "w' = w3\<lparr>handles := (handles w3)(?h := None, Suc ?h := None)\<rparr>"
    using close_two [OF _ _ _ cl, of n ?d] n(3) d(3) w3 by simp
  moreover have "(handles w)(?h := None, Suc ?h := None) = handles w"
    using assms(2) by (simp add: fun_eq_iff)
  moreover have "ents w k = Some i \<Longrightarrow> i \<noteq> ?d" for k i using assms(1) by (auto simp: fs_inv_def)
  moreover have "fs_inv (w3\<lparr>handles := (handles w3)(?h := None, Suc ?h := None)\<rparr>)"
  proof -
    have "comps (DestPath opts) \<noteq> []" using d(2) root_exists [OF assms(1)] by auto
    then show ?thesis
      using assms(1) n(3) d(3) w3 by (auto simp: fs_inv_def is_dir_def less_Suc_eq split: option.splits)
  qed
  ultimately show ?thesis
    using n d w3 nd by (intro exI [of _ n] exI [of _ ?d]) (auto simp: fun_upd_twist)
qed



definition sample_copy :: CopyOptions where
  "sample_copy = DefaultCopyOptions\<lparr>SourcePath := ''/in/f'', DestPath := ''/in/g'',
     DestFlags := (DestFlags DefaultCopyOptions)\<lparr>o_excl := True\<rparr>\<rparr>"


end
