(* ===== verification/HandlerCommand.thy ===== *)
theory HandlerCommand
  imports WaryIO
begin

text \<open>
  \<open>internal/handlercommand\<close>: the execution of a handler's command for a changed file. The command
  gets a private copy of the file in a directory of its own. Processes, contexts and the clock are
  dependencies given by the record \<open>proc_env\<close>; the path of the running program comes from
  \<open>exepath.Get\<close>.
\<close>

section \<open>Processes and contexts\<close>

record process_state =
  ExitCode :: int
  UserTime :: duration
  SystemTime :: duration

text \<open>The fields of \<open>exec.Cmd\<close> that the code sets; standard input is empty, and both outputs go to
  the same file.\<close>

record exec_cmd =
  cmd_Args :: "string list"
  cmd_Output :: handle
  cmd_Dir :: path
  cmd_Env :: "string list"

text \<open>\<open>cmd_Run\<close> starts a command under a context and waits for it; the process state is missing when
  it could not be started. \<open>ctx_Done\<close> is the error of a context once it is done.\<close>

record ('c, 'w) proc_env =
  cmd_Run :: "'c \<Rightarrow> exec_cmd \<Rightarrow> 'w \<Rightarrow> (err \<times> process_state option) \<times> 'w"
  ctx_Done :: "'c \<Rightarrow> 'w \<Rightarrow> err"
  WithTimeout :: "'c \<Rightarrow> duration \<Rightarrow> 'w \<Rightarrow> 'c \<times> 'w"
  ctx_Cancel :: "'c \<Rightarrow> 'w \<Rightarrow> 'w"
  time_Now :: "'w \<Rightarrow> gotime"
  os_Environ :: "string list"

section \<open>command.go\<close>

definition ErrMissing :: goerr where
  "ErrMissing = ErrNew ''missing command''"

fun createDirectories_loop :: "append_func \<Rightarrow> 'w os \<Rightarrow> path list \<Rightarrow> err \<Rightarrow> 'w \<Rightarrow> err \<times> 'w" where
  "createDirectories_loop app os [] result w = (result, w)"
| "createDirectories_loop app os (dir # dirs) result w =
     (case os_Mkdir os dir ModePerm w of
        (None, w1) \<Rightarrow> createDirectories_loop app os dirs result w1
      | (Some e, w1) \<Rightarrow>
          createDirectories_loop app os dirs (if os_IsExist e then result else app result (Some e)) w1)"

definition createDirectories :: "append_func \<Rightarrow> 'w os \<Rightarrow> path list \<Rightarrow> 'w \<Rightarrow> err \<times> 'w" where
  "createDirectories app os paths w = createDirectories_loop app os paths None w"

definition copyInputFile :: "'w os \<Rightarrow> path \<Rightarrow> path \<Rightarrow> 'w \<Rightarrow> err \<times> 'w" where
  "copyInputFile os source dest w =
     Copy os (DefaultCopyOptions
       \<lparr>SourcePath := source, SourceFlags := (SourceFlags DefaultCopyOptions)\<lparr>o_nofollow := True\<rparr>,
        DestPath := dest, DestFlags := (DestFlags DefaultCopyOptions)\<lparr>o_excl := True, o_nofollow := True\<rparr>\<rparr>) w"

text \<open>A metrics reporter gets exit code, wall time, user time and system time.\<close>

type_synonym 'w reporter = "int \<Rightarrow> duration \<Rightarrow> duration \<Rightarrow> duration \<Rightarrow> 'w \<Rightarrow> 'w"

definition runCommand :: "('c, 'w) proc_env \<Rightarrow> 'c \<Rightarrow> 'w reporter option \<Rightarrow> exec_cmd \<Rightarrow> 'w \<Rightarrow> err \<times> 'w" where
  "runCommand env ctx m cmd w =
     (let start = time_Now env w;
          ((err, state), w1) = cmd_Run env ctx cmd w;
          wallTime = Sub (time_Now env w1) start;
          w2 = (case (state, m) of
                  (Some ps, Some report) \<Rightarrow> report (ExitCode ps) wallTime (UserTime ps) (SystemTime ps) w1
                | _ \<Rightarrow> w1)
      in (case err of
            None \<Rightarrow> None
          | Some e \<Rightarrow>
              (case ctx_Done env ctx w2 of
                 Some ce \<Rightarrow> Some (ErrWrap ''command'' ce)
               | None \<Rightarrow> Some (ErrWrap ''command failed'' e)), w2))"

record 'w command_options =
  SourceFile :: path
  BaseDir :: path
  CommandArgs :: "string list"
  Metrics :: "'w reporter option"

record 'w command =
  c_opts :: "'w command_options"
  inputDir :: path
  inputFile :: path
  workDir :: path
  outputFile :: path
  c_environ :: "string list"

definition command_New :: "path \<times> err \<Rightarrow> 'w command_options \<Rightarrow> goerr + 'w command" where
  "command_New exe opts =
     (case exe of
        (_, Some e) \<Rightarrow> Inl e
      | (exe_path, None) \<Rightarrow>
          if length (CommandArgs opts) < 1 then Inl ErrMissing
          else
            let indir = Join [BaseDir opts, ''input''];
                wdir = Join [BaseDir opts, ''work''];
                infile = Join [indir, Base (SourceFile opts)]
            in Inr \<lparr>c_opts = opts, inputDir = indir, inputFile = infile, workDir = wdir,
                 outputFile = Join [BaseDir opts, ''command_output.txt''],
                 c_environ = [''BAAMHACKL_PROGRAM='' @ exe_path, ''BAAMHACKL_ORIGINAL='' @ SourceFile opts,
                   ''BAAMHACKL_WORKDIR='' @ wdir, ''BAAMHACKL_INPUT='' @ infile]\<rparr>)"

definition prepare :: "append_func \<Rightarrow> 'w os \<Rightarrow> 'w command \<Rightarrow> 'w \<Rightarrow> err \<times> 'w" where
  "prepare app os c w =
     (case createDirectories app os [inputDir c, workDir c] w of
        (Some e, w1) \<Rightarrow> (Some (ErrWrap ''creating directories failed'' e), w1)
      | (None, w1) \<Rightarrow>
          (case copyInputFile os (SourceFile (c_opts c)) (inputFile c) w1 of
             (Some e, w2) \<Rightarrow> (Some (ErrWrap ''copying changed file failed'' e), w2)
           | (None, w2) \<Rightarrow> (None, w2)))"

definition exec_command :: "('c, 'w) proc_env \<Rightarrow> 'w command \<Rightarrow> handle \<Rightarrow> exec_cmd" where
  "exec_command env c out =
     \<lparr>cmd_Args = CommandArgs (c_opts c), cmd_Output = out, cmd_Dir = workDir c,
      cmd_Env = os_Environ env @ c_environ c\<rparr>"

definition command_Run :: "append_func \<Rightarrow> 'w os \<Rightarrow> ('c, 'w) proc_env \<Rightarrow> 'w command \<Rightarrow> 'c \<Rightarrow> 'w \<Rightarrow> err \<times> 'w" where
  "command_Run app os env c ctx w =
     (case prepare app os c w of
        (Some e, w1) \<Rightarrow> (Some e, w1)
      | (None, w1) \<Rightarrow>
          (case os_OpenFile os (outputFile c)
                  \<lparr>o_write = True, o_create = True, o_trunc = False, o_append = True, o_excl = True, o_nofollow = False\<rparr>
                  438 w1 of
             (Inl e, w2) \<Rightarrow> (Some (ErrWrap ''opening output file failed'' e), w2)
           | (Inr out, w2) \<Rightarrow>
               (case runCommand env ctx (Metrics (c_opts c)) (exec_command env c out) w2 of
                  (err, w3) \<Rightarrow> (case f_Close os out w3 of (closeErr, w4) \<Rightarrow> (app err closeErr, w4)))))"

section \<open>What the command finds\<close>

lemma createDirectories_plain:
  assumes "multierr_law app" "fs_inv w" "\<forall>h \<ge> fresh_handle w. handles w h = None"
    and "\<And>d. d \<in> set ds \<Longrightarrow> IsAbs d" "createDirectories_loop app plain_os ds acc w = (err, w1)"
  shows "fs_inv w1 \<and> (\<forall>h \<ge> fresh_handle w1. handles w1 h = None) \<and>
    (\<forall>k i. ents w k = Some i \<longrightarrow> ents w1 k = Some i \<and> inodes w1 i = inodes w i) \<and>
    (err = None \<longrightarrow> acc = None \<and> (\<forall>d \<in> set ds. ents w1 (comps d) \<noteq> None))"
  using assms(2-)
proof (induction ds arbitrary: acc w)
  case (Cons d ds)
  obtain e w2 where m: "os_Mkdir plain_os d ModePerm w = (e, w2)" by fastforce
  have d: "IsAbs d" using Cons.prems(3) by simp
  have eff: "fs_inv w2 \<and> (\<forall>h \<ge> fresh_handle w2. handles w2 h = None) \<and>
      (\<forall>k i. ents w k = Some i \<longrightarrow> ents w2 k = Some i \<and> inodes w2 i = inodes w i) \<and>
      (e = None \<or> (\<exists>x. e = Some x \<and> os_IsExist x) \<longrightarrow> ents w2 (comps d) \<noteq> None)"
  proof (cases e)
    case None
    then have "ents w (comps d) = None" "w2 = new_entry (comps d)
        \<lparr>i_type = Directory, i_target = [], i_perm = ModePerm, i_mtime = clock w, i_data = []\<rparr> w"
      using m d by (auto simp: plain_os_def plain_Mkdir_def split: option.splits if_splits)
    moreover have "fs_inv w2" using plain.mkdir_ok [OF Cons.prems(1) d] m None by blast
    moreover have "ents w k = Some i \<Longrightarrow> i \<noteq> fresh_ino w" for k i using Cons.prems(1) by (auto simp: fs_inv_def)
    ultimately show ?thesis using Cons.prems(2) by (auto simp: new_entry_def)
  next
    case (Some x)
    then have "w2 = w" using plain.mkdir_err [OF Cons.prems(1)] m by blast
    moreover have "os_IsExist x \<Longrightarrow> ents w (comps d) \<noteq> None"
      using plain.mkdir_exist [OF Cons.prems(1) d] m Some d by (fastforce simp: plain_look_def)
    ultimately show ?thesis using Cons.prems(1,2) Some by auto
  qed
  let ?acc = "case e of None \<Rightarrow> acc | Some x \<Rightarrow> if os_IsExist x then acc else app acc e"
  have "createDirectories_loop app plain_os ds ?acc w2 = (err, w1)" using Cons.prems(4) m by (auto split: option.splits)
  from Cons.IH [OF _ _ _ this] eff Cons.prems(3) have IH: "fs_inv w1 \<and> (\<forall>h \<ge> fresh_handle w1. handles w1 h = None) \<and>
    (\<forall>k i. ents w2 k = Some i \<longrightarrow> ents w1 k = Some i \<and> inodes w1 i = inodes w2 i) \<and>
    (err = None \<longrightarrow> ?acc = None \<and> (\<forall>d \<in> set ds. ents w1 (comps d) \<noteq> None))" by simp
  have "?acc = None \<Longrightarrow> acc = None \<and> (e = None \<or> (\<exists>x. e = Some x \<and> os_IsExist x))"
    using multierr_law_None_iff [OF assms(1), of acc e] by (auto split: option.splits if_splits)
  then show ?case using IH eff by fastforce
qed auto

lemma Base_no_slash: "Base p \<noteq> [slash] \<Longrightarrow> slash \<notin> set (Base p)"
  by (auto simp: Base_def Split_def Let_def dest: set_takeWhileD split: if_splits)

lemma open_new_file:
  assumes "IsAbs p" "o_create fl" "o_excl fl" "fs_inv w" "os_OpenFile plain_os p fl m w = (Inr h, w1)"
  shows "\<forall>k i. ents w k = Some i \<longrightarrow> ents w1 k = Some i \<and> inodes w1 i = inodes w i"
proof -
  have "ents w k = Some i \<Longrightarrow> i \<noteq> fresh_ino w" for k i using assms(4) by (auto simp: fs_inv_def)
  then show ?thesis
    using assms(1-3,5)
    by (auto simp: plain_os_def plain_OpenFile_def new_handle_def new_entry_def split: option.splits if_splits)
qed

lemma prepare_plain:
  assumes "multierr_law app" "fs_inv w" "\<forall>h \<ge> fresh_handle w. handles w h = None"
    and "IsAbs (SourceFile (c_opts c))" "IsAbs (inputFile c)" "IsAbs (inputDir c)" "IsAbs (workDir c)"
    and "prepare app plain_os c w = (None, w1)" "ents w (comps (SourceFile (c_opts c))) = Some n"
  shows "fs_inv w1 \<and> (\<forall>k i. ents w k = Some i \<longrightarrow> ents w1 k = Some i \<and> inodes w1 i = inodes w i) \<and>
    ents w1 (comps (workDir c)) \<noteq> None \<and>
    (\<exists>d. ents w1 (comps (inputFile c)) = Some d \<and> i_data (inodes w1 d) = i_data (inodes w n) \<and>
       i_perm (inodes w1 d) = i_perm (inodes w n) mod 512)"
proof -
  obtain v where v: "createDirectories_loop app plain_os [inputDir c, workDir c] None w = (None, v)"
      "copyInputFile plain_os (SourceFile (c_opts c)) (inputFile c) v = (None, w1)"
    using assms(8) by (auto simp: prepare_def createDirectories_def split: prod.splits option.splits)
  have cd: "fs_inv v" "\<forall>h \<ge> fresh_handle v. handles v h = None"
    "\<forall>k i. ents w k = Some i \<longrightarrow> ents v k = Some i \<and> inodes v i = inodes w i" "ents v (comps (workDir c)) \<noteq> None"
    using createDirectories_plain [OF assms(1-3) _ v(1)] assms(6,7) by auto
  let ?o = "DefaultCopyOptions
       \<lparr>SourcePath := SourceFile (c_opts c), SourceFlags := (SourceFlags DefaultCopyOptions)\<lparr>o_nofollow := True\<rparr>,
        DestPath := inputFile c, DestFlags := (DestFlags DefaultCopyOptions)\<lparr>o_excl := True, o_nofollow := True\<rparr>\<rparr>"
  have "Copy plain_os ?o v = (None, w1)" using v(2) by (simp add: copyInputFile_def)
  from Copy_effect [OF cd(1) _ _ _ _ _ _ this] cd(2) assms(4,5) obtain m d where m:
      "ents v (comps (SourceFile (c_opts c))) = Some m" "ents v (comps (inputFile c)) = None"
      "ents w1 = (ents v)(comps (inputFile c) := Some d)" "i_data (inodes w1 d) = i_data (inodes v m)"
      "i_perm (inodes w1 d) = i_perm (inodes v m) mod 512" "\<forall>k i. ents v k = Some i \<longrightarrow> inodes w1 i = inodes v i"
      "fs_inv w1"
    by (auto simp: DefaultCopyOptions_def)
  have "m = n" "inodes v n = inodes w n" using m(1) cd(3) assms(9) by auto
  moreover have "ents w1 k = Some i \<and> inodes w1 i = inodes w i" if "ents w k = Some i" for k i
    using cd(3) that m(2,3,6) by (metis fun_upd_other option.distinct(1))
  ultimately show ?thesis using m cd(4) by simp
qed

section \<open>Properties\<close>

lemma command_New_fields:
  assumes "command_New (exe, None) opts = Inr c"
  shows "c_opts c = opts" "workDir c = Join [BaseDir opts, ''work'']" "inputDir c = Join [BaseDir opts, ''input'']"
    "inputFile c = Join [inputDir c, Base (SourceFile opts)]" "outputFile c = Join [BaseDir opts, ''command_output.txt'']"
    "c_environ c = [''BAAMHACKL_PROGRAM='' @ exe, ''BAAMHACKL_ORIGINAL='' @ SourceFile opts,
       ''BAAMHACKL_WORKDIR='' @ Join [BaseDir opts, ''work''], ''BAAMHACKL_INPUT='' @ inputFile c]"
  using assms by (auto simp: command_New_def Let_def split: if_splits)

text \<open>
  C31. The command works on an exact private copy. Whatever a run of the command does, it either fails
  before the command is started, or the command is started once in a world in which the changed
  file and everything else that existed is untouched, and the input file named in the
  environment has the content and permissions of the changed file.
\<close>

theorem command_gets_exact_copy:
  assumes "multierr_law app" "fs_inv w" "\<forall>h \<ge> fresh_handle w. handles w h = None"
    and "command_New (exe, None) opts = Inr c" "IsAbs (SourceFile opts)" "IsAbs (BaseDir opts)"
    and "ents w (comps (SourceFile opts)) = Some n"
  shows "(\<exists>e w1. \<forall>(env :: ('c, fs) proc_env) ctx. command_Run app plain_os env c ctx w = (Some e, w1)) \<or>
    (\<exists>out w2 d. (\<forall>k i. ents w k = Some i \<longrightarrow> ents w2 k = Some i \<and> inodes w2 i = inodes w i) \<and>
       ents w2 (comps (inputFile c)) = Some d \<and> i_data (inodes w2 d) = i_data (inodes w n) \<and>
       i_perm (inodes w2 d) = i_perm (inodes w n) mod 512 \<and>
       (\<forall>(env :: ('c, fs) proc_env) ctx. command_Run app plain_os env c ctx w =
          (case runCommand env ctx (Metrics opts)
                  \<lparr>cmd_Args = CommandArgs opts, cmd_Output = out, cmd_Dir = Join [BaseDir opts, ''work''],
                   cmd_Env = os_Environ env @
                     [''BAAMHACKL_PROGRAM='' @ exe, ''BAAMHACKL_ORIGINAL='' @ SourceFile opts,
                      ''BAAMHACKL_WORKDIR='' @ Join [BaseDir opts, ''work''], ''BAAMHACKL_INPUT='' @ inputFile c]\<rparr> w2 of
             (err, w3) \<Rightarrow> (case f_Close plain_os out w3 of (closeErr, w4) \<Rightarrow> (app err closeErr, w4)))))"
proof -
  note c = command_New_fields [OF assms(4)]
  have abs: "IsAbs (Join [p, q])" if "IsAbs p" for p q using that IsAbs_Join [of p "[q]"] by (auto simp: IsAbs_def)
  obtain perr w1 where p: "prepare app plain_os c w = (perr, w1)" by fastforce
  show ?thesis
  proof (cases perr)
    case (Some e)
    then have "\<forall>(env :: ('c, fs) proc_env) ctx. command_Run app plain_os env c ctx w = (Some e, w1)" using p by (simp add: command_Run_def)
    then show ?thesis by blast
  next
    case None
    have pre: "fs_inv w1 \<and> (\<forall>k i. ents w k = Some i \<longrightarrow> ents w1 k = Some i \<and> inodes w1 i = inodes w i) \<and>
        ents w1 (comps (workDir c)) \<noteq> None \<and> (\<exists>d. ents w1 (comps (inputFile c)) = Some d \<and>
          i_data (inodes w1 d) = i_data (inodes w n) \<and> i_perm (inodes w1 d) = i_perm (inodes w n) mod 512)"
      by (rule prepare_plain [OF assms(1-3)]) (use p None c abs assms(5-7) in simp_all)
    let ?fl = "\<lparr>o_write = True, o_create = True, o_trunc = False, o_append = True, o_excl = True, o_nofollow = False\<rparr>"
    obtain h w2 where o: "os_OpenFile plain_os (outputFile c) ?fl 438 w1 = (h, w2)" by fastforce
    show ?thesis
    proof (cases h)
      case (Inl e)
      then have "\<forall>(env :: ('c, fs) proc_env) ctx. command_Run app plain_os env c ctx w = (Some (ErrWrap ''opening output file failed'' e), w2)"
        using p None o by (simp add: command_Run_def)
      then show ?thesis by blast
    next
      case (Inr out)
      have "IsAbs (outputFile c)" using c(5) abs assms(6) by simp
      then have k: "\<forall>k i. ents w1 k = Some i \<longrightarrow> ents w2 k = Some i \<and> inodes w2 i = inodes w1 i"
        using open_new_file [OF _ _ _ _ o [unfolded Inr]] pre by simp
      have "\<forall>(env :: ('c, fs) proc_env) ctx. command_Run app plain_os env c ctx w =
          (case runCommand env ctx (Metrics opts) (exec_command env c out) w2 of
             (err, w3) \<Rightarrow> (case f_Close plain_os out w3 of (closeErr, w4) \<Rightarrow> (app err closeErr, w4)))"
        using p None o Inr c(1) by (simp add: command_Run_def)
      note run = this [unfolded exec_command_def c(1,2,6)]
      obtain d where d: "ents w1 (comps (inputFile c)) = Some d"
          "i_data (inodes w1 d) = i_data (inodes w n)" "i_perm (inodes w1 d) = i_perm (inodes w n) mod 512"
        using pre by blast
      moreover have "\<forall>k i. ents w k = Some i \<longrightarrow> ents w2 k = Some i \<and> inodes w2 i = inodes w i"
        using pre k by metis
      moreover have "ents w2 (comps (inputFile c)) = Some d" "inodes w2 d = inodes w1 d" using k d(1) by blast+
      ultimately show ?thesis
        using run by - (rule disjI2, rule exI [of _ out], rule exI [of _ w2], rule exI [of _ d], simp)
    qed
  qed
qed

definition sample_command :: "fs command_options" where
  "sample_command = \<lparr>SourceFile = ''/in/f'', BaseDir = ''/in'', CommandArgs = [''cat''], Metrics = None\<rparr>"

theorem command_gets_exact_copy_witness:
  "\<exists>c out w2 d. command_New (''/bin/baamhackl'', None) sample_command = Inr c \<and>
     i_data (inodes w2 d) = ''data'' \<and> ents w2 [''in'', ''input'', ''f''] = Some d \<and>
     (\<forall>(env :: (unit, fs) proc_env) ctx. command_Run join_errors plain_os env c ctx sample_fs =
       (case runCommand env ctx None
                  \<lparr>cmd_Args = [''cat''], cmd_Output = out, cmd_Dir = ''/in/work'',
                   cmd_Env = os_Environ env @
                     [''BAAMHACKL_PROGRAM='' @ ''/bin/baamhackl'', ''BAAMHACKL_ORIGINAL='' @ ''/in/f'',
                      ''BAAMHACKL_WORKDIR='' @ ''/in/work'', ''BAAMHACKL_INPUT='' @ ''/in/input/f'']\<rparr> w2 of
             (err, w3) \<Rightarrow> (case f_Close plain_os out w3 of (closeErr, w4) \<Rightarrow> (join_errors err closeErr, w4))))"
proof -
  let ?c = "\<lparr>c_opts = sample_command, inputDir = ''/in/input'', inputFile = ''/in/input/f'', workDir = ''/in/work'',
       outputFile = ''/in/command_output.txt'',
       c_environ = [''BAAMHACKL_PROGRAM=/bin/baamhackl'', ''BAAMHACKL_ORIGINAL=/in/f'',
         ''BAAMHACKL_WORKDIR=/in/work'', ''BAAMHACKL_INPUT=/in/input/f'']\<rparr>"
  let ?env = "\<lparr>cmd_Run = (\<lambda>_ _ w. ((None, None), w)), ctx_Done = (\<lambda>_ _. None), WithTimeout = (\<lambda>c _ w. (c, w)),
       ctx_Cancel = (\<lambda>_ w. w), time_Now = (\<lambda>_. Time 0), os_Environ = []\<rparr> :: (unit, fs) proc_env"
  have j: "Join [''/in'', ''input''] = ''/in/input''" "Join [''/in'', ''work''] = ''/in/work''"
    "Join [''/in'', ''command_output.txt''] = ''/in/command_output.txt''" "Base ''/in/f'' = ''f''"
    "Join [''/in/input'', ''f''] = ''/in/input/f''" by code_simp+
  have c: "command_New (''/bin/baamhackl'', None) sample_command = Inr ?c"
    by (simp add: command_New_def sample_command_def j Let_def)
  have s: "fs_inv sample_fs" "\<forall>h \<ge> fresh_handle sample_fs. handles sample_fs h = None"
    using sample_fs_inv by (simp_all add: linkfree_inv_def) (simp add: sample_fs_def empty_fs_def new_entry_def)
  have p: "IsAbs (SourceFile sample_command)" "IsAbs (BaseDir sample_command)"
    "ents sample_fs (comps (SourceFile sample_command)) = Some 2" "comps ''/in/input/f'' = [''in'', ''input'', ''f'']"
    "i_data (inodes sample_fs 2) = ''data''" by code_simp+
  have ok: "fst (command_Run join_errors plain_os ?env ?c () sample_fs) = None" by code_simp
  have f: "Metrics sample_command = None" "CommandArgs sample_command = [''cat'']" "SourceFile sample_command = ''/in/f''"
    "BaseDir sample_command = ''/in''" "inputFile ?c = ''/in/input/f''" by (simp_all add: sample_command_def)
  note t = command_gets_exact_copy [OF multierr_law_join_errors s c p(1-3), where ?'c = unit, unfolded f j p(4,5)]
  have no: "\<not> (\<exists>e w1. \<forall>(env :: (unit, fs) proc_env) ctx. command_Run join_errors plain_os env ?c ctx sample_fs = (Some e, w1))"
  proof
    assume "\<exists>e w1. \<forall>(env :: (unit, fs) proc_env) ctx. command_Run join_errors plain_os env ?c ctx sample_fs = (Some e, w1)"
    then obtain e w1 where "command_Run join_errors plain_os ?env ?c () sample_fs = (Some e, w1)" by blast
    then show False using ok by (simp only: fst_conv option.distinct)
  qed
  from t show ?thesis
  proof (rule disjE)
    assume "\<exists>e w1. \<forall>(env :: (unit, fs) proc_env) ctx. command_Run join_errors plain_os env ?c ctx sample_fs = (Some e, w1)"
    then show ?thesis using no by (rule_tac notE)
  next
    assume a: "\<exists>out w2 d. (\<forall>k i. ents sample_fs k = Some i \<longrightarrow> ents w2 k = Some i \<and> inodes w2 i = inodes sample_fs i) \<and>
       ents w2 [''in'', ''input'', ''f''] = Some d \<and> i_data (inodes w2 d) = ''data'' \<and>
       i_perm (inodes w2 d) = i_perm (inodes sample_fs 2) mod 512 \<and>
       (\<forall>(env :: (unit, fs) proc_env) ctx. command_Run join_errors plain_os env ?c ctx sample_fs =
         (case runCommand env ctx None
                  \<lparr>cmd_Args = [''cat''], cmd_Output = out, cmd_Dir = ''/in/work'',
                   cmd_Env = os_Environ env @
                     [''BAAMHACKL_PROGRAM='' @ ''/bin/baamhackl'', ''BAAMHACKL_ORIGINAL='' @ ''/in/f'',
                      ''BAAMHACKL_WORKDIR='' @ ''/in/work'', ''BAAMHACKL_INPUT='' @ ''/in/input/f'']\<rparr> w2 of
             (err, w3) \<Rightarrow> (case f_Close plain_os out w3 of (closeErr, w4) \<Rightarrow> (join_errors err closeErr, w4))))"
    then show ?thesis
      by (elim exE conjE) (rule exI, rule exI, rule exI, rule exI, rule conjI [OF c], rule conjI, assumption,
        rule conjI, assumption, assumption)
  qed
qed

end
