(* ===== verification/UniqueName.thy ===== *)
theory UniqueName
  imports FilePath GoErrors WaryIO
begin

text \<open>
  \<open>internal/uniquename\<close>: names for files in the archive and journal directories. A generator first
  proposes the original name, possibly with the current time in front, then names with a number
  in parentheses that are cut to the length a file name may have. Strings are sequences of bytes.

  Three things come from outside and are parameters: the clock, time zone and random numbers of
  \<open>Runtime\<close>; formatting and parsing of times; and the segmentation of a string into grapheme
  clusters by the package \<open>uniseg\<close>, of which the code needs that the segments make up the string.
\<close>

section \<open>text.go\<close>

type_synonym segmenter = "string \<Rightarrow> string list"

definition segments_law :: "segmenter \<Rightarrow> bool" where
  "segments_law seg \<longleftrightarrow> (\<forall>s. concat (seg s) = s \<and> [] \<notin> set (seg s))"

text \<open>The two loops: the end of the last segment of the prefix that still fits, and the start of
  the first segment of the suffix from which the rest fits.\<close>

fun prefix_end :: "nat \<Rightarrow> nat \<Rightarrow> nat \<Rightarrow> string list \<Rightarrow> nat" where
  "prefix_end others maxBytes pos [] = pos"
| "prefix_end others maxBytes pos (s # ss) =
     (let endBytePos = pos + length s
      in if endBytePos + others > maxBytes then pos else prefix_end others maxBytes endBytePos ss)"

fun suffix_start :: "nat \<Rightarrow> nat \<Rightarrow> nat \<Rightarrow> nat \<Rightarrow> string list \<Rightarrow> nat option" where
  "suffix_start others maxBytes len startBytePos [] = None"
| "suffix_start others maxBytes len startBytePos (s # ss) =
     (if others + (len - startBytePos) \<le> maxBytes then Some startBytePos
      else suffix_start others maxBytes len (startBytePos + length s) ss)"

definition combineWithMaxLen :: "segmenter \<Rightarrow> string \<Rightarrow> string \<Rightarrow> string \<Rightarrow> nat \<Rightarrow> string may_panic" where
  "combineWithMaxLen seg pre middle suf maxBytes =
     (if length middle > maxBytes then Inl (Panic ''middle part too long'')
      else
        let pre1 = take (prefix_end (length middle + length suf) maxBytes 0 (seg pre)) pre;
            suf1 = (case suffix_start (length pre1 + length middle) maxBytes (length suf) 0 (seg suf) of
              None \<Rightarrow> [] | Some p \<Rightarrow> drop p suf)
        in Inr (pre1 @ middle @ suf1))"

section \<open>Regular expression and white space\<close>

text \<open>The class \<open>\s\<close> of regular expressions, and hexadecimal digits.\<close>

definition re_space :: "char \<Rightarrow> bool" where
  "re_space c \<longleftrightarrow> of_char c \<in> {9, 10, 12, 13, 32 :: nat}"

definition hex_digit :: "char \<Rightarrow> bool" where
  "hex_digit c \<longleftrightarrow> (let n = of_char c :: nat in 48 \<le> n \<and> n \<le> 57 \<or> 65 \<le> n \<and> n \<le> 70 \<or> 97 \<le> n \<and> n \<le> 102)"

text \<open>A match of \<open>suffixRe\<close> at the beginning of the string: what follows it.\<close>

definition match_suffix :: "string \<Rightarrow> string option" where
  "match_suffix s =
     (let s1 = dropWhile re_space s
      in if s \<noteq> [] \<and> re_space (hd s) then
           (case s1 of
              [] \<Rightarrow> None
            | c # s2 \<Rightarrow>
                let s3 = dropWhile hex_digit s2
                in if c = CHR ''('' \<and> s2 \<noteq> [] \<and> hex_digit (hd s2) \<and> s3 \<noteq> [] \<and> hd s3 = CHR '')''
                   then Some (dropWhile re_space (tl s3)) else None)
         else None)"

lemma match_suffix_length: "match_suffix s = Some r \<Longrightarrow> length r < length s"
proof -
  assume m: "match_suffix s = Some r"
  obtain c s2 where c: "dropWhile re_space s = c # s2" "r = dropWhile re_space (tl (dropWhile hex_digit s2))"
    using m by (auto simp: match_suffix_def Let_def split: if_splits list.splits)
  have "length r \<le> length (tl (dropWhile hex_digit s2))" using c(2) length_dropWhile_le by metis
  also have "\<dots> \<le> length s2" using length_dropWhile_le [of hex_digit s2] by simp
  also have "\<dots> < length (dropWhile re_space s)" using c(1) by simp
  also have "\<dots> \<le> length s" by (rule length_dropWhile_le)
  finally show ?thesis .
qed

text \<open>\<open>suffixRe.ReplaceAllLiteralString(s, "")\<close>.\<close>

function strip_suffixes :: "string \<Rightarrow> string" where
  "strip_suffixes [] = []"
| "strip_suffixes (c # s) =
     (case match_suffix (c # s) of
        Some r \<Rightarrow> strip_suffixes r
      | None \<Rightarrow> c # strip_suffixes s)"
  by pat_completeness auto
termination
  by (relation "measure length") (use match_suffix_length in force)+

text \<open>\<open>unicode.IsSpace\<close> on UTF-8 text: the number of bytes of the space character the string starts
  with, or zero. No byte that starts a space occurs inside another character.\<close>

definition space_len :: "string \<Rightarrow> nat" where
  "space_len s =
     (let b = map of_char s :: int list
      in case b of
           [] \<Rightarrow> 0
         | x # xs \<Rightarrow>
             if 9 \<le> x \<and> x \<le> 13 \<or> x = 32 then 1
             else if take 2 b = [194, 133] \<or> take 2 b = [194, 160] then 2
             else if take 3 b \<in> {[225, 154, 128], [226, 128, 168], [226, 128, 169], [226, 128, 175],
                                 [226, 129, 159], [227, 128, 128]} then 3
             else if take 2 b = [226, 128] \<and> length b > 2 \<and> 128 \<le> b ! 2 \<and> b ! 2 \<le> 138 then 3
             else 0)"

function trim_left :: "string \<Rightarrow> string" where
  "trim_left s = (if s = [] \<or> space_len s = 0 then s else trim_left (drop (space_len s) s))"
  by pat_completeness auto
termination by (relation "measure length") auto

declare trim_left.simps [simp del]

lemma trim_left_code [code]: "trim_left s = (case space_len s of 0 \<Rightarrow> s | Suc k \<Rightarrow> trim_left (drop (Suc k) s))"
  by (subst trim_left.simps) (auto simp: space_len_def split: nat.split)

fun index_space :: "nat \<Rightarrow> string \<Rightarrow> nat option" where
  "index_space i [] = None"
| "index_space i (c # s) = (if space_len (c # s) > 0 then Some i else index_space (Suc i) s)"

text \<open>\<open>strings.TrimRightFunc(s, unicode.IsSpace)\<close>: the last character of a text is a space when
  its last one, two or three bytes are the encoding of one.\<close>

definition last_space :: "string \<Rightarrow> nat" where
  "last_space s =
     (let n = length s
      in if n \<ge> 1 \<and> space_len (drop (n - 1) s) = 1 then 1
         else if n \<ge> 2 \<and> space_len (drop (n - 2) s) = 2 then 2
         else if n \<ge> 3 \<and> space_len (drop (n - 3) s) = 3 then 3
         else 0)"

function trim_right :: "string \<Rightarrow> string" where
  "trim_right s = (if last_space s = 0 then s else trim_right (take (length s - last_space s) s))"
  by pat_completeness auto
termination by (relation "measure length") (auto simp: last_space_def Let_def split: if_splits)

declare trim_right.simps [simp del]

text \<open>\<open>strconv.FormatInt(n, 16)\<close> of a number that is not negative.\<close>

definition hex_char :: "nat \<Rightarrow> char" where
  "hex_char d = char_of (if d < 10 then 48 + d else 87 + d)"

fun to_hex :: "nat \<Rightarrow> string" where
  "to_hex n = (if n < 16 then [hex_char n] else to_hex (n div 16) @ [hex_char (n mod 16)])"

declare to_hex.simps [simp del]

section \<open>uniquename.go, runtime.go\<close>

record Options =
  TimePrefixEnabled :: bool
  TimePrefixLayout :: string
  TimePrefixSupportedLayouts :: "string list"
  BeforeExtension :: bool
  MaxExtensionLength :: int

definition DefaultOptions :: Options where
  "DefaultOptions =
     \<lparr>TimePrefixEnabled = True, TimePrefixLayout = ''2006-01-02T150405'',
      TimePrefixSupportedLayouts = [''2006-01-02T150405-0700'', ''2006-01-02T150405''],
      BeforeExtension = True, MaxExtensionLength = 10\<rparr>"

text \<open>The runtime: current time, formatting and parsing in the local time zone, and the random
  number generator with its state.\<close>

record 'r Runtime =
  rt_now :: gotime
  rt_format :: "string \<Rightarrow> gotime \<Rightarrow> string"
  rt_parse :: "string \<Rightarrow> string \<Rightarrow> gotime option"
  rt_rand :: "'r \<Rightarrow> nat \<times> 'r"

record Generator =
  g_dir :: path
  g_timePrefix :: string
  g_prefix :: string
  g_suffix :: string
  g_originalName :: string
  g_timeSuffix :: gotime

definition NAME_MAX :: nat where
  "NAME_MAX = 255"

definition ErrMissingTime :: goerr where
  "ErrMissingTime = ErrNew ''missing timestamp''"

definition name_split :: "Options \<Rightarrow> string \<Rightarrow> string \<times> string" where
  "name_split opts name =
     (if BeforeExtension opts \<and> MaxExtensionLength opts > 0 then
        let ext = Ext name
        in if int (length ext) < MaxExtensionLength opts then
             let base = take (length name - length ext) name
             in if base = [] then (ext, []) else (base, ext)
           else (name, [])
      else (name, []))"

definition uniquename_New :: "'r Runtime \<Rightarrow> path \<Rightarrow> Options \<Rightarrow> goerr + Generator" where
  "uniquename_New rt path opts =
     (let (dir, name) = Split path
      in if name = [] then Inl (ErrWrap ''path contains no name'' (ErrNew ''invalid argument''))
         else
           let (pre, suf) = name_split opts name;
               g = \<lparr>g_dir = dir, g_timePrefix = [], g_prefix = strip_suffixes pre, g_suffix = suf,
                    g_originalName = name, g_timeSuffix = Time 0\<rparr>
           in Inr (if TimePrefixEnabled opts
                   then g\<lparr>g_timePrefix := trim_right (rt_format rt (TimePrefixLayout opts) (rt_now rt)) @ '' ''\<rparr>
                   else g\<lparr>g_timeSuffix := rt_now rt\<rparr>))"

definition Next :: "segmenter \<Rightarrow> 'r Runtime \<Rightarrow> Generator \<Rightarrow> 'r \<Rightarrow> ((path \<times> bool) \<times> Generator \<times> 'r) may_panic" where
  "Next seg rt g r =
     (if g_originalName g \<noteq> [] then
        Inr ((Join [g_dir g, g_timePrefix g @ g_originalName g], True), g\<lparr>g_originalName := []\<rparr>, r)
      else
        let (uniq, g1, r1) =
              (if IsZero (g_timeSuffix g) then (let (n, r1) = rt_rand rt r in (to_hex n, g, r1))
               else (rt_format rt ''20060102150405'' (g_timeSuffix g), g\<lparr>g_timeSuffix := Time 0\<rparr>, r))
        in case combineWithMaxLen seg (g_timePrefix g @ g_prefix g) ('' ('' @ uniq @ '')'') (g_suffix g) NAME_MAX of
             Inl p \<Rightarrow> Inl p
           | Inr name \<Rightarrow> Inr ((Join [g_dir g, name], True), g1, r1))"

fun parse_first :: "'r Runtime \<Rightarrow> string list \<Rightarrow> string \<Rightarrow> gotime option" where
  "parse_first rt [] name = None"
| "parse_first rt (layout # ls) name =
     (case rt_parse rt layout name of Some ts \<Rightarrow> Some ts | None \<Rightarrow> parse_first rt ls name)"

definition ExtractTime :: "'r Runtime \<Rightarrow> path \<Rightarrow> Options \<Rightarrow> goerr + gotime" where
  "ExtractTime rt path opts =
     (let name = trim_left (snd (Split path));
          name1 = (case index_space 0 name of
            Some pos \<Rightarrow> if pos > 0 then take pos name else name
          | None \<Rightarrow> name)
      in case parse_first rt (TimePrefixSupportedLayouts opts) name1 of
           Some ts \<Rightarrow> Inr ts
         | None \<Rightarrow> Inl (ErrWrap path ErrMissingTime))"

text \<open>The generator as an iterator; \<open>Next\<close> of a generator made by \<open>New\<close> does not panic.\<close>

definition gen_iter :: "segmenter \<Rightarrow> 'r Runtime \<Rightarrow> (Generator \<times> 'r) string_iter" where
  "gen_iter seg rt s =
     (case Next seg rt (fst s) (snd s) of
        Inl _ \<Rightarrow> (([], False), s)
      | Inr (res, g1, r1) \<Rightarrow> (res, g1, r1))"


section \<open>Cutting names\<close>

lemma prefix_end_spec:
  "\<exists>i. prefix_end others m pos ss = pos + length (concat (take i ss))"
  "prefix_end others m pos ss = pos \<or> prefix_end others m pos ss + others \<le> m"
  "pos + length (concat ss) + others \<le> m \<Longrightarrow> prefix_end others m pos ss = pos + length (concat ss)"
proof -
  show "\<exists>i. prefix_end others m pos ss = pos + length (concat (take i ss))"
  proof (induction ss arbitrary: pos)
    case (Cons s ss)
    obtain i where "prefix_end others m (pos + length s) ss = pos + length s + length (concat (take i ss))"
      using Cons by blast
    moreover have "pos = pos + length (concat (take 0 (s # ss)))" by simp
    ultimately show ?case
      by (cases "pos + length s + others > m") (auto simp: Let_def intro: exI [of _ 0] exI [of _ "Suc i"])
  qed simp
  show "prefix_end others m pos ss = pos \<or> prefix_end others m pos ss + others \<le> m"
    by (induction ss arbitrary: pos) (auto simp: Let_def not_less, metis)
  show "pos + length (concat ss) + others \<le> m \<Longrightarrow> prefix_end others m pos ss = pos + length (concat ss)"
    by (induction ss arbitrary: pos) (auto simp: Let_def)
qed

lemma suffix_start_spec:
  "suffix_start others m len st ss = Some p \<Longrightarrow> others + (len - p) \<le> m"
  "suffix_start others m len st ss = Some p \<Longrightarrow> \<exists>j. p = st + length (concat (take j ss))"
  "others + (len - st) \<le> m \<Longrightarrow> ss \<noteq> [] \<Longrightarrow> suffix_start others m len st ss = Some st"
proof -
  show "suffix_start others m len st ss = Some p \<Longrightarrow> others + (len - p) \<le> m"
    by (induction ss arbitrary: st) (auto split: if_splits)
  show "suffix_start others m len st ss = Some p \<Longrightarrow> \<exists>j. p = st + length (concat (take j ss))"
  proof (induction ss arbitrary: st)
    case (Cons s ss)
    show ?case
    proof (cases "others + (len - st) \<le> m")
      case True
      then show ?thesis using Cons.prems by (intro exI [of _ 0]) simp
    next
      case False
      then obtain j where "p = st + length s + length (concat (take j ss))" using Cons by auto
      then show ?thesis by (intro exI [of _ "Suc j"]) simp
    qed
  qed simp
  show "others + (len - st) \<le> m \<Longrightarrow> ss \<noteq> [] \<Longrightarrow> suffix_start others m len st ss = Some st"
    by (cases ss) auto
qed

lemma take_concat: "take (length (concat (take i ss))) (concat ss) = concat (take i ss)"
  and drop_concat: "drop (length (concat (take i ss))) (concat ss) = concat (drop i ss)"
proof -
  have "concat ss = concat (take i ss) @ concat (drop i ss)"
    by (metis append_take_drop_id concat_append)
  then show "take (length (concat (take i ss))) (concat ss) = concat (take i ss)"
    "drop (length (concat (take i ss))) (concat ss) = concat (drop i ss)"
    by (metis append_eq_conv_conj)+
qed

lemma combine_spec:
  assumes "segments_law seg" "length middle \<le> maxBytes"
  shows "\<exists>r i j. combineWithMaxLen seg pre middle suf maxBytes = Inr r \<and> length r \<le> maxBytes \<and>
    r = concat (take i (seg pre)) @ middle @ concat (drop j (seg suf)) \<and>
    (length pre + length middle + length suf \<le> maxBytes \<longrightarrow> r = pre @ middle @ suf)"
proof -
  have seg: "concat (seg s) = s" for s using assms(1) by (simp add: segments_law_def)
  let ?e = "prefix_end (length middle + length suf) maxBytes 0 (seg pre)"
  obtain i where "?e = length (concat (take i (seg pre)))"
    using prefix_end_spec(1) [of "length middle + length suf" maxBytes 0 "seg pre"] by auto
  then have pre1: "take ?e pre = concat (take i (seg pre))" using take_concat [of i "seg pre"] seg by simp
  have e: "?e = 0 \<or> ?e + (length middle + length suf) \<le> maxBytes" by (rule prefix_end_spec(2))
  let ?pre = "take ?e pre"
  let ?o = "suffix_start (length ?pre + length middle) maxBytes (length suf) 0 (seg suf)"
  let ?suf = "case ?o of None \<Rightarrow> [] | Some p \<Rightarrow> drop p suf"
  have "\<exists>j. ?suf = concat (drop j (seg suf))"
  proof (cases ?o)
    case None
    then show ?thesis by (intro exI [of _ "length (seg suf)"]) simp
  next
    case (Some p)
    obtain j where "p = length (concat (take j (seg suf)))" using suffix_start_spec(2) [OF Some] by auto
    then show ?thesis using Some drop_concat [of j "seg suf"] seg by auto
  qed
  then obtain j where suf1: "?suf = concat (drop j (seg suf))" ..
  have "length (?pre @ middle @ ?suf) \<le> maxBytes"
  proof (cases ?o)
    case None
    then show ?thesis using e assms(2) by auto
  next
    case (Some p)
    then show ?thesis using suffix_start_spec(1) [OF Some] by simp
  qed
  moreover have "?pre @ middle @ ?suf = pre @ middle @ suf" if "length pre + length middle + length suf \<le> maxBytes"
  proof -
    have p: "?pre = pre" using prefix_end_spec(3) [of 0 "seg pre"] that seg [of pre] by simp
    show ?thesis
    proof (cases "seg suf = []")
      case True
      then have "suf = []" using seg [of suf] by simp
      then show ?thesis using p True by simp
    next
      case False
      have "?o = Some 0" by (rule suffix_start_spec(3)) (use that p False in simp_all)
      then show ?thesis using p by simp
    qed
  qed
  moreover have "combineWithMaxLen seg pre middle suf maxBytes = Inr (?pre @ middle @ ?suf)"
    using assms(2) by (simp add: combineWithMaxLen_def Let_def)
  ultimately show ?thesis using pre1 suf1 by metis
qed

text \<open>Segments of one byte each.\<close>

definition byte_segments :: segmenter where
  "byte_segments s = map (\<lambda>c. [c]) s"

lemma byte_segments_law: "segments_law byte_segments"
proof -
  have "concat (byte_segments s) = s" for s by (induction s) (simp_all add: byte_segments_def)
  then show ?thesis by (auto simp: segments_law_def byte_segments_def)
qed

text \<open>
  \<open>combineWithMaxLen\<close> keeps to its limit: the result has at most the given number of bytes, the
  middle part is complete, prefix and suffix are cut only at the boundaries of grapheme clusters,
  and nothing is cut when everything fits.
\<close>

theorem combine_within_limit:
  assumes "segments_law seg" "length middle \<le> maxBytes"
  shows "\<exists>r i j. combineWithMaxLen seg pre middle suf maxBytes = Inr r \<and> length r \<le> maxBytes \<and>
    r = concat (take i (seg pre)) @ middle @ concat (drop j (seg suf)) \<and>
    (length pre + length middle + length suf \<le> maxBytes \<longrightarrow> r = pre @ middle @ suf)"
  by (rule combine_spec [OF assms])

theorem combine_within_limit_witness:
  "\<exists>r i j. combineWithMaxLen byte_segments ''report'' '' (1f)'' ''.txt'' 12 = Inr r \<and> length r \<le> 12 \<and>
     r = concat (take i (byte_segments ''report'')) @ '' (1f)'' @ concat (drop j (byte_segments ''.txt''))"
proof -
  have "length '' (1f)'' \<le> 12" by simp
  from combine_within_limit [OF byte_segments_law this, of "''report''" "''.txt''"] show ?thesis by blast
qed

lemma to_hex_length: "n < 16 ^ Suc k \<Longrightarrow> length (to_hex n) \<le> Suc k"
proof (induction k arbitrary: n)
  case 0
  then show ?case by (subst to_hex.simps) simp
next
  case (Suc k)
  show ?case
  proof (cases "n < 16")
    case False
    have "n div 16 < 16 ^ Suc k" using Suc.prems by (simp add: less_mult_imp_div_less)
    then show ?thesis using Suc.IH [of "n div 16"] False by (subst to_hex.simps) simp
  qed (subst to_hex.simps, simp)
qed

lemma Next_fits:
  assumes "segments_law seg" "\<And>r. fst (rt_rand rt r) < 2 ^ 31" "\<And>l t. length (rt_format rt l t) \<le> 100"
  shows "\<exists>name g' r'. Next seg rt g r = Inr ((Join [g_dir g, name], True), g', r') \<and>
    g_originalName g' = [] \<and> (g_originalName g = [] \<longrightarrow> length name \<le> NAME_MAX)"
proof (cases "g_originalName g = []")
  case True
  obtain uniq g1 r1 where u: "(if IsZero (g_timeSuffix g) then (let (n, r1) = rt_rand rt r in (to_hex n, g, r1))
      else (rt_format rt ''20060102150405'' (g_timeSuffix g), g\<lparr>g_timeSuffix := Time 0\<rparr>, r)) = (uniq, g1, r1)"
    by (metis prod_cases3)
  have "length (to_hex (fst (rt_rand rt r))) \<le> 8"
    using to_hex_length [of "fst (rt_rand rt r)" 7] assms(2) [of r] by simp
  then have "length uniq \<le> 100" and g1: "g_originalName g1 = []"
    using u assms(3) True by (auto split: if_splits prod.splits)
  then have "length ('' ('' @ uniq @ '')'') \<le> NAME_MAX" by (simp add: NAME_MAX_def)
  from combine_spec [OF assms(1) this, of "g_timePrefix g @ g_prefix g" "g_suffix g"] obtain name
    where n: "combineWithMaxLen seg (g_timePrefix g @ g_prefix g) ('' ('' @ uniq @ '')'') (g_suffix g) NAME_MAX = Inr name"
      "length name \<le> NAME_MAX" by blast
  then show ?thesis using True u g1 by (auto simp: Next_def)
qed (auto simp: Next_def)


text \<open>
  C23. A generator never panics, and every name it proposes after the first one fits the limit of the
  file system: for random numbers of 31 bits and formatted times of reasonable length, the name
  below the directory has at most 255 bytes.
\<close>

theorem generated_names_fit:
  assumes "segments_law seg" "\<And>r. fst (rt_rand rt r) < 2 ^ 31" "\<And>l t. length (rt_format rt l t) \<le> 100"
  shows "\<exists>name g' r'. Next seg rt g r = Inr ((Join [g_dir g, name], True), g', r') \<and>
    g_originalName g' = [] \<and> (g_originalName g = [] \<longrightarrow> length name \<le> NAME_MAX)"
  by (rule Next_fits [OF assms])

text \<open>A runtime for samples: the clock stands still, times are formatted as a constant that parses
  back, and the random numbers are counted.\<close>

definition sample_runtime :: "nat Runtime" where
  "sample_runtime = \<lparr>rt_now = Time 7, rt_format = (\<lambda>l t. ''2024-05-06T070809''),
     rt_parse = (\<lambda>l s. if l = ''2006-01-02T150405'' \<and> s = ''2024-05-06T070809'' then Some (Time 7) else None),
     rt_rand = (\<lambda>r. (r mod 7, Suc r))\<rparr>"

definition sample_generator :: Generator where
  "sample_generator = \<lparr>g_dir = ''/in/'', g_timePrefix = ''2024-05-06T070809 '', g_prefix = ''f'', g_suffix = ''.txt'',
     g_originalName = [], g_timeSuffix = Time 0\<rparr>"

theorem generated_names_fit_witness:
  "\<exists>name g' r'. Next byte_segments sample_runtime sample_generator 5 = Inr ((Join [''/in/'', name], True), g', r') \<and>
     length name \<le> NAME_MAX"
proof -
  have "fst (rt_rand sample_runtime r) < 2 ^ 31" "length (rt_format sample_runtime l t) \<le> 100" for r l t
    by (simp_all add: sample_runtime_def)
  from generated_names_fit [OF byte_segments_law this, of sample_generator 5]
  show ?thesis by (auto simp: sample_generator_def)
qed

section \<open>Time stamps in names\<close>

lemma Split_after: "slash \<notin> set x \<Longrightarrow> snd (Split (y @ slash # x)) = x"
  "slash \<notin> set x \<Longrightarrow> snd (Split x) = x"
proof -
  assume x: "slash \<notin> set x"
  have a: "takeWhile (\<lambda>c. c \<noteq> slash) (rev (y @ slash # x)) = rev x"
    using x takeWhile_append2 [of "rev x" "\<lambda>c. c \<noteq> slash" "slash # rev y"] by auto
  have b: "takeWhile (\<lambda>c. c \<noteq> slash) (rev x) = rev x"
    using x by (intro takeWhile_eq_all_conv [THEN iffD2]) auto
  show "snd (Split (y @ slash # x)) = x" by (simp only: Split_def a Let_def snd_conv rev_rev_ident)
  show "snd (Split x) = x" by (simp only: Split_def b Let_def snd_conv rev_rev_ident)
qed

lemma Split_Join:
  assumes "normal x" "x \<noteq> ''..''"
  shows "snd (Split (Join [d, x])) = x"
proof -
  have x: "slash \<notin> set x" "x \<noteq> []" "x \<noteq> ''.''" using assms(1) by (simp_all add: normal_def)
  show ?thesis
  proof (cases "d = []")
    case True
    have "Clean x = x"
      using x assms(2) by (cases x) (auto simp: Clean_def comps_def clean_comps_def clean_step_def render_def IsAbs_def)
    then show ?thesis using True x Split_after(2) by (simp add: Join_def)
  next
    case False
    let ?cs = "comps d @ [x]"
    have "Join [d, x] = render (IsAbs d) ?cs"
      using Join_below [OF False, of "[x]"] x descend_append [of "[x]"] assms by simp
    moreover have "\<exists>y. render (IsAbs d) ?cs = y @ slash # x \<or> render (IsAbs d) ?cs = x"
    proof -
      have "\<exists>y. join_with slash (cs @ [x]) = y @ slash # x \<or> join_with slash (cs @ [x]) = x" for cs
      proof (induction cs)
        case (Cons c cs)
        then obtain y where y: "join_with slash (cs @ [x]) = y @ slash # x \<or> join_with slash (cs @ [x]) = x" by blast
        have "join_with slash ((c # cs) @ [x]) = c @ slash # join_with slash (cs @ [x])"
          by (simp add: join_with_Cons)
        then show ?case using y by (metis append.assoc append_Cons)
      qed simp
      then obtain y where "join_with slash ?cs = y @ slash # x \<or> join_with slash ?cs = x" by blast
      then have "render (IsAbs d) ?cs = slash # join_with slash ?cs \<or> render (IsAbs d) ?cs = join_with slash ?cs"
        by (simp add: render_def)
      then show ?thesis
        using \<open>join_with slash ?cs = y @ slash # x \<or> join_with slash ?cs = x\<close> by (metis append_Cons append_Nil)
    qed
    ultimately show ?thesis using Split_after x(1) by metis
  qed
qed

text \<open>Text without white space at any position.\<close>

fun spaceless :: "string \<Rightarrow> bool" where
  "spaceless [] = True"
| "spaceless (c # s) = ((9 > (of_char c :: int) \<or> of_char c > (13 :: int)) \<and> of_char c \<noteq> (32 :: int) \<and>
     (of_char c :: int) < 128 \<and> spaceless s)"

lemma spaceless_start: "spaceless (c # s) \<Longrightarrow> space_len (c # s @ t) = 0"
  by (auto simp: space_len_def Let_def)

lemma spaceless_drop: "spaceless s \<Longrightarrow> spaceless (drop k s)"
  by (induction s arbitrary: k) (auto simp: drop_Cons split: nat.splits)

lemma spaceless_trim_right: "spaceless s \<Longrightarrow> trim_right s = s"
proof -
  assume "spaceless s"
  then have "space_len (drop k s) = 0" for k
    using spaceless_drop [of s k] spaceless_start [of "hd (drop k s)" "tl (drop k s)" "[]"]
    by (cases "drop k s") (auto simp: space_len_def)
  then show ?thesis by (subst trim_right.simps) (simp add: last_space_def)
qed

lemma New_ok: "snd (Split path) \<noteq> [] \<Longrightarrow> \<exists>g. uniquename_New rt path opts = Inr g"
  by (cases "Split path") (auto simp: uniquename_New_def Let_def split: prod.splits)

text \<open>
  C26. The first name is not shortened: with a time prefix the name proposed first is longer than the
  original name by the length of the prefix, so for an original name of nearly maximal length it
  exceeds what a file system accepts (and the loops that use the generator give up on the error
  this causes, since it is not "file exists").
\<close>

theorem first_name_not_shortened:
  assumes "uniquename_New rt path opts = Inr g" "TimePrefixEnabled opts"
    "length (trim_right (rt_format rt (TimePrefixLayout opts) (rt_now rt))) = 17"
    "length (snd (Split path)) > NAME_MAX - 18"
  shows "\<exists>name g' r'. Next seg rt g r = Inr ((Join [g_dir g, name], True), g', r') \<and> length name > NAME_MAX"
  using assms by (auto simp: uniquename_New_def Next_def Let_def NAME_MAX_def split: prod.splits if_splits)

theorem first_name_not_shortened_witness:
  "\<exists>path g name g' r'. uniquename_New sample_runtime path DefaultOptions = Inr g \<and>
     Next byte_segments sample_runtime g 0 = Inr ((Join [g_dir g, name], True), g', r') \<and> length name > NAME_MAX"
proof -
  obtain a where a: "a = replicate 240 CHR ''a''" by simp
  have l: "length a = 240" unfolding a by (rule length_replicate)
  have "slash \<notin> set a" unfolding a set_replicate_conv_if by simp
  then have n: "snd (Split (''/in'' @ slash # a)) = a" by (rule Split_after)
  have b: "length a > NAME_MAX - 18" unfolding l NAME_MAX_def by simp
  then have "a \<noteq> []" by (metis list.size(3) not_less_zero)
  then obtain g where g: "uniquename_New sample_runtime (''/in'' @ slash # a) DefaultOptions = Inr g"
    using New_ok [of "''/in'' @ slash # a" sample_runtime DefaultOptions] unfolding n by blast
  have f: "length (trim_right (rt_format sample_runtime (TimePrefixLayout DefaultOptions) (rt_now sample_runtime))) = 17"
    "TimePrefixEnabled DefaultOptions"
    by (simp_all add: sample_runtime_def DefaultOptions_def spaceless_trim_right)
  have "length (snd (Split (''/in'' @ slash # a))) > NAME_MAX - 18" unfolding n by (rule b)
  from first_name_not_shortened [OF g f(2,1) this] g show ?thesis by blast
qed

lemma index_space_after:
  "spaceless f \<Longrightarrow> index_space i (f @ CHR '' '' # rest) = Some (i + length f)"
proof (induction f arbitrary: i)
  case Nil
  have "space_len (CHR '' '' # rest) = 1" by (simp add: space_len_def)
  then show ?case by simp
next
  case (Cons c f)
  have "space_len ((c # f) @ CHR '' '' # rest) = 0" using spaceless_start [of c f] Cons.prems by simp
  then show ?case using Cons.IH [of "Suc i"] Cons.prems by simp
qed

text \<open>
  C22. The time a file was archived can be read back from its name: for every original name, when the
  formatted time contains neither white space nor a slash and parses back, \<open>ExtractTime\<close> on
  the first name the generator proposes returns the parsed time.
\<close>

theorem archive_time_roundtrip:
  assumes "uniquename_New rt path opts = Inr g" "TimePrefixEnabled opts"
    "f = rt_format rt (TimePrefixLayout opts) (rt_now rt)" "f \<noteq> []" "spaceless f" "slash \<notin> set f"
    "parse_first rt (TimePrefixSupportedLayouts opts) f = Some t"
    "Next seg rt g r = Inr ((p, ok), g', r')"
  shows "ExtractTime rt p opts = Inr t"
proof -
  let ?n = "snd (Split path)"
  have trim: "trim_right f = f" using assms(5) by (rule spaceless_trim_right)
  have n: "?n \<noteq> []" "slash \<notin> set ?n"
    using assms(1) set_takeWhileD [of slash "\<lambda>c. c \<noteq> slash" "rev path"]
    by (auto simp: uniquename_New_def Split_def Let_def split: if_splits prod.splits)
  let ?name = "f @ CHR '' '' # ?n"
  have p: "p = Join [g_dir g, ?name]"
    using assms(1-3,8) n trim by (auto simp: uniquename_New_def Next_def Let_def split: if_splits prod.splits)
  have "normal ?name" "?name \<noteq> ''..''"
    using n(2) assms(4,6) by (auto simp: normal_def append_eq_Cons_conv)
  then have s: "snd (Split p) = ?name" unfolding p by (rule Split_Join)
  have "space_len ?name = 0" using spaceless_start [of "hd f" "tl f"] assms(4,5) by (cases f) auto
  then have "trim_left ?name = ?name" by (subst trim_left.simps) simp
  moreover have "index_space 0 ?name = Some (length f)" using index_space_after [OF assms(5), of 0] by simp
  ultimately show ?thesis using s assms(4,7) by (simp add: ExtractTime_def Let_def)
qed

theorem archive_time_roundtrip_witness:
  "\<exists>g p ok g' r'. uniquename_New sample_runtime ''/in/a b.txt'' DefaultOptions = Inr g \<and>
     Next byte_segments sample_runtime g 0 = Inr ((p, ok), g', r') \<and>
     ExtractTime sample_runtime p DefaultOptions = Inr (Time 7)"
proof -
  obtain g where g: "uniquename_New sample_runtime ''/in/a b.txt'' DefaultOptions = Inr g"
    by (cases "uniquename_New sample_runtime ''/in/a b.txt'' DefaultOptions")
      (auto simp: uniquename_New_def Split_def Let_def split: if_splits prod.splits)
  have "fst (rt_rand sample_runtime r) < 2 ^ 31" "length (rt_format sample_runtime l t) \<le> 100" for r l t
    by (simp_all add: sample_runtime_def)
  then obtain p ok g' r' where n: "Next byte_segments sample_runtime g 0 = Inr ((p, ok), g', r')"
    using g by (auto simp: uniquename_New_def Next_def Let_def split: if_splits prod.splits)
  let ?f = "rt_format sample_runtime (TimePrefixLayout DefaultOptions) (rt_now sample_runtime)"
  have f: "TimePrefixEnabled DefaultOptions" "?f \<noteq> []" "spaceless ?f" "slash \<notin> set ?f"
    "parse_first sample_runtime (TimePrefixSupportedLayouts DefaultOptions) ?f = Some (Time 7)"
    by (simp_all add: sample_runtime_def DefaultOptions_def)
  from archive_time_roundtrip [OF g f(1) refl f(2-5) n] g n show ?thesis by blast
qed

end
