(* ===== verification/ArchiveNames.thy ===== *)
theory ArchiveNames
  imports UniqueName
begin

text \<open>
  Where the names of a \<open>uniquename.Generator\<close> lie: a generator made for a name in a directory
  proposes names in that directory only. The journal relies on this for its directories.
\<close>

text \<open>What the runtime promises: 31-bit random numbers, and formatted times without slashes and of
  limited length.\<close>

definition runtime_law :: "segmenter \<Rightarrow> 'r Runtime \<Rightarrow> bool" where
  "runtime_law seg rt \<longleftrightarrow> segments_law seg \<and> (\<forall>r. fst (rt_rand rt r) < 2 ^ 31) \<and>
     (\<forall>l t. length (rt_format rt l t) \<le> 100 \<and> slash \<notin> set (rt_format rt l t))"

lemma join_with_snoc: "join_with c (cs @ [h]) = (if cs = [] then h else join_with c cs @ c # h)"
proof (induction cs)
  case (Cons x cs)
  then show ?case by (cases cs) auto
qed simp

lemma Split_append: "slash \<notin> set h \<Longrightarrow> Split (y @ slash # h) = (y @ [slash], h)"
  using Split_after(1) [of h y] by (simp add: Split_def Let_def)

lemma Split_Join_dir:
  assumes "IsAbs d" "normal h" "h \<noteq> ''..''"
  obtains dir where "Split (Join [d, h]) = (dir, h)" "IsAbs dir" "comps dir = comps d"
proof -
  have d: "d \<noteq> []" using assms(1) by (auto simp: IsAbs_def)
  have h: "slash \<notin> set h" using assms(2) by (simp add: normal_def)
  have j: "Join [d, h] = slash # join_with slash (comps d @ [h])"
    using Join_below [OF d, of "[h]"] descend_append [of "[h]"] assms h by (simp add: render_def)
  show ?thesis
  proof (cases "comps d = []")
    case True
    then have "Split (Join [d, h]) = ([slash], h)" using j Split_append [OF h, of "[]"] by simp
    then show ?thesis using that [of "[slash]"] True by (auto simp: IsAbs_def comps_def clean_comps_def clean_step_def)
  next
    case False
    then have "Split (Join [d, h]) = (Clean d @ [slash], h)"
      using j Split_append [OF h, of "Clean d"] assms(1) by (simp add: join_with_snoc Clean_def render_def)
    moreover have "comps (Clean d @ [slash]) = comps d" "IsAbs (Clean d @ [slash])"
      using comps_join [of "Clean d" "[]"] assms(1) by (simp_all add: descend_def clean_step_def)
    ultimately show ?thesis using that by blast
  qed
qed

section \<open>Characters of the names\<close>

lemma match_suffix_subset: "match_suffix s = Some r \<Longrightarrow> set r \<subseteq> set s"
proof
  fix x
  assume m: "match_suffix s = Some r" and x: "x \<in> set r"
  obtain c s2 where c: "dropWhile re_space s = c # s2" "r = dropWhile re_space (tl (dropWhile hex_digit s2))"
    using m by (auto simp: match_suffix_def Let_def split: if_splits list.splits)
  have "x \<in> set (tl (dropWhile hex_digit s2))" using x c(2) set_dropWhileD by metis
  then have "x \<in> set (dropWhile hex_digit s2)" by (metis list.sel(2) list.set_sel(2))
  then have "x \<in> set (c # s2)" using set_dropWhileD by fastforce
  then show "x \<in> set s" using c(1) set_dropWhileD by metis
qed

lemma strip_suffixes_subset: "set (strip_suffixes s) \<subseteq> set s"
proof (induction s rule: strip_suffixes.induct)
  case (2 c s)
  then show ?case
    using match_suffix_subset [of "c # s"] by (cases "match_suffix (c # s)") fastforce+
qed simp

lemma Ext_subset: "set (Ext p) \<subseteq> set (snd (Split p))"
proof
  fix x
  assume x: "x \<in> set (Ext p)"
  let ?n = "snd (Split p)" and ?t = "takeWhile (\<lambda>c. c \<noteq> CHR ''.'') (rev (snd (Split p)))"
  have ne: "length ?t \<noteq> length ?n" and "x = CHR ''.'' \<or> x \<in> set ?t"
    using x by (auto simp: Ext_def Let_def split: if_splits)
  moreover have "CHR ''.'' \<in> set ?n"
  proof (rule ccontr)
    assume "CHR ''.'' \<notin> set ?n"
    then have "?t = rev ?n" by (intro takeWhile_eq_all_conv [THEN iffD2]) auto
    then have "length ?t = length ?n" by (metis length_rev)
    then show False using ne by blast
  qed
  ultimately show "x \<in> set ?n" using set_takeWhileD [of x _ "rev ?n"] by auto
qed

lemma name_split_subset:
  assumes "slash \<notin> set name" "name_split opts name = (pre, suf)"
  shows "set pre \<union> set suf \<subseteq> set name"
proof -
  have "set (Ext name) \<subseteq> set name" using Ext_subset [of name] Split_after(2) [OF assms(1)] by simp
  then show ?thesis
    using assms(2) by (auto simp: name_split_def Let_def dest: in_set_takeD split: if_splits)
qed

lemma to_hex_low: "of_char c < (48 :: nat) \<Longrightarrow> c \<notin> set (to_hex n)"
proof (induction n rule: to_hex.induct)
  case (1 n)
  have "c \<noteq> hex_char k" if "k < 16" for k
  proof
    assume "c = hex_char k"
    then have "of_char c = (of_char (hex_char k) :: nat)" by simp
    then show False using that "1.prems" by (simp add: hex_char_def split: if_splits)
  qed
  then show ?case using 1 by (subst to_hex.simps) auto
qed

lemma to_hex_no_slash: "slash \<notin> set (to_hex n)"
  by (rule to_hex_low) simp

section \<open>Generators of a directory\<close>

text \<open>The invariant of the generators: no part of a name has a slash, and the first name, if it was
  not taken yet, is a file name.\<close>

definition gen_ok :: "Generator \<Rightarrow> bool" where
  "gen_ok g \<longleftrightarrow>
     (g_originalName g \<noteq> [] \<longrightarrow> normal (g_timePrefix g @ g_originalName g) \<and> g_timePrefix g @ g_originalName g \<noteq> ''..'') \<and>
     slash \<notin> set (g_timePrefix g @ g_prefix g @ g_suffix g @ g_originalName g)"

lemma space_normal: "CHR '' '' \<in> set n \<Longrightarrow> slash \<notin> set n \<Longrightarrow> normal n \<and> n \<noteq> ''..''"
  by (auto simp: normal_def)

lemma New_gen_ok:
  assumes "runtime_law seg rt" "IsAbs d" "normal h" "h \<noteq> ''..''"
  obtains g where "uniquename_New rt (Join [d, h]) opts = Inr g" "gen_ok g" "IsAbs (g_dir g)" "comps (g_dir g) = comps d"
proof -
  obtain dir where dir: "Split (Join [d, h]) = (dir, h)" "IsAbs dir" "comps dir = comps d"
    using Split_Join_dir [OF assms(2-4)] by blast
  obtain pre suf where s: "name_split opts h = (pre, suf)" by fastforce
  have h: "h \<noteq> []" "slash \<notin> set h" using assms(3) by (simp_all add: normal_def)
  have "set (trim_right t) \<subseteq> set t" for t
    by (induction t rule: trim_right.induct) (subst trim_right.simps, auto dest: in_set_takeD)
  then have "slash \<notin> set (trim_right (rt_format rt l t))" for l t
    using assms(1) unfolding runtime_law_def by blast
  moreover have "slash \<notin> set (strip_suffixes pre)" "slash \<notin> set suf"
    using name_split_subset [OF h(2) s] strip_suffixes_subset [of pre] h(2) by blast+
  moreover from calculation have "normal (trim_right (rt_format rt l t) @ '' '' @ h) \<and>
      trim_right (rt_format rt l t) @ '' '' @ h \<noteq> ''..''" for l t
    using h by (intro space_normal) auto
  ultimately show ?thesis
    using that assms(3,4) dir s h by (cases "TimePrefixEnabled opts") (auto simp: uniquename_New_def gen_ok_def)
qed

lemma Next_in_dir:
  assumes "runtime_law seg rt" "gen_ok g"
  obtains n g' r' where "Next seg rt g r = Inr ((Join [g_dir g, n], True), g', r')"
    "normal n" "n \<noteq> ''..''" "gen_ok g'" "g_dir g' = g_dir g"
proof (cases "g_originalName g = []")
  case True
  obtain uniq g1 r1 where u: "(if IsZero (g_timeSuffix g) then (let (n, r1) = rt_rand rt r in (to_hex n, g, r1))
      else (rt_format rt ''20060102150405'' (g_timeSuffix g), g\<lparr>g_timeSuffix := Time 0\<rparr>, r)) = (uniq, g1, r1)"
    by (metis prod_cases3)
  have "length (to_hex (fst (rt_rand rt r))) \<le> 8"
  proof -
    have "fst (rt_rand rt r) < 2 ^ 31" using assms(1) by (simp add: runtime_law_def)
    then show ?thesis using to_hex_length [of "fst (rt_rand rt r)" 7] by simp
  qed
  then have q: "length uniq \<le> 100" "slash \<notin> set uniq" "gen_ok g1" "g_dir g1 = g_dir g"
    using u assms to_hex_no_slash by (auto simp: runtime_law_def gen_ok_def split: if_splits prod.splits)
  have "length ('' ('' @ uniq @ '')'') \<le> NAME_MAX" "segments_law seg"
    using q(1) assms(1) by (simp_all add: NAME_MAX_def runtime_law_def)
  from combine_spec [OF this(2,1), of "g_timePrefix g @ g_prefix g" "g_suffix g"] obtain n i j
    where n: "combineWithMaxLen seg (g_timePrefix g @ g_prefix g) ('' ('' @ uniq @ '')'') (g_suffix g) NAME_MAX = Inr n"
      "n = concat (take i (seg (g_timePrefix g @ g_prefix g))) @ ('' ('' @ uniq @ '')'') @ concat (drop j (seg (g_suffix g)))"
    by blast
  have "set (concat (take i (seg s))) \<subseteq> set s" "set (concat (drop j (seg s))) \<subseteq> set s" for s
  proof -
    have "concat (seg s) = s" using assms(1) by (simp add: runtime_law_def segments_law_def)
    then have "set s = (\<Union>x \<in> set (seg s). set x)" by (metis set_concat)
    then show "set (concat (take i (seg s))) \<subseteq> set s" "set (concat (drop j (seg s))) \<subseteq> set s"
      by (auto dest: in_set_takeD in_set_dropD)
  qed
  then have "slash \<notin> set n" "CHR '' '' \<in> set n"
    using assms(2) q(2) unfolding n(2) gen_ok_def by fastforce+
  then show ?thesis
    using that [of n] space_normal [of n] True u n(1) q(3,4) by (simp add: Next_def)
next
  case False
  let ?n = "g_timePrefix g @ g_originalName g"
  have "normal ?n \<and> ?n \<noteq> ''..''" using assms(2) False by (simp add: gen_ok_def)
  then show ?thesis
    using that [of ?n] False assms(2) by (simp add: Next_def gen_ok_def)
qed

lemma gen_iter_endless: "runtime_law seg rt \<Longrightarrow> endless (gen_iter seg rt)"
  unfolding endless_def gen_iter_def
proof
  fix s :: "Generator \<times> 'a"
  assume rt: "runtime_law seg rt"
  have "segments_law seg" "\<And>r. fst (rt_rand rt r) < 2 ^ 31" "\<And>l t. length (rt_format rt l t) \<le> 100"
    using rt by (simp_all add: runtime_law_def)
  from Next_fits [OF this, of "fst s" "snd s"]
  show "snd (fst (case Next seg rt (fst s) (snd s) of Inl x \<Rightarrow> (([], False), s) | Inr (res, g1, r1) \<Rightarrow> (res, g1, r1)))"
    by auto
qed

text \<open>As an iterator: endless on its invariant, and every candidate is an entry of the directory.\<close>

lemma gen_iter_in_dir:
  assumes "runtime_law seg rt" "gen_ok g" "IsAbs (g_dir g)"
  shows "\<exists>n g' r'. iter_state (gen_iter seg rt) (g, r) k = (g', r') \<and> gen_ok g' \<and> g_dir g' = g_dir g \<and>
    normal n \<and> n \<noteq> ''..'' \<and> snd (fst (gen_iter seg rt (g', r'))) \<and>
    candidate (gen_iter seg rt) (g, r) k = Join [g_dir g, n]"
proof -
  have st: "\<exists>g' r'. iter_state (gen_iter seg rt) (g, r) k = (g', r') \<and> gen_ok g' \<and> g_dir g' = g_dir g"
  proof (induction k)
    case (Suc k)
    then obtain g1 r1 where 1: "iter_state (gen_iter seg rt) (g, r) k = (g1, r1)" "gen_ok g1" "g_dir g1 = g_dir g"
      by blast
    obtain n g2 r2 where "Next seg rt g1 r1 = Inr ((Join [g_dir g1, n], True), g2, r2)" "gen_ok g2" "g_dir g2 = g_dir g1"
      using Next_in_dir [OF assms(1) 1(2), of r1] by metis
    moreover from this have "gen_iter seg rt (g1, r1) = ((Join [g_dir g1, n], True), g2, r2)"
      by (simp add: gen_iter_def)
    ultimately show ?case using 1 by simp
  qed (use assms(2) in simp)
  then obtain g' r' where g': "iter_state (gen_iter seg rt) (g, r) k = (g', r')" "gen_ok g'" "g_dir g' = g_dir g"
    by blast
  obtain n g2 r2 where n: "Next seg rt g' r' = Inr ((Join [g_dir g', n], True), g2, r2)" "normal n" "n \<noteq> ''..''"
    using Next_in_dir [OF assms(1) g'(2), of r'] by metis
  then have "gen_iter seg rt (g', r') = ((Join [g_dir g', n], True), g2, r2)" by (simp add: gen_iter_def)
  then show ?thesis using g' n(2,3) by (auto simp: candidate_def)
qed

lemma sample_runtime_law: "runtime_law byte_segments sample_runtime"
proof -
  have "r mod 7 < 2 ^ 31" for r :: nat by (rule less_trans [of _ 7]) simp_all
  then show ?thesis by (simp add: runtime_law_def byte_segments_law sample_runtime_def)
qed

end
