(* ===== verification/Prune.thy ===== *)
theory Prune
  imports UniqueName
begin

text \<open>
  \<open>internal/prune\<close>: removal of old entries from a directory while holding a lock file. The
  directory operations of \<open>afero\<close>, the file lock of \<open>gofrs/flock\<close>, the context and \<open>multierr\<close>
  are dependencies: the definitions take them as arguments, and the locale \<open>prune_system\<close> states
  what they promise. It is interpreted on the file system of the theory \<open>FileSystem\<close>.
\<close>

section \<open>Definitions\<close>

definition lockName :: string where
  "lockName = ''.prune.lock''"

definition ErrUnavailable :: goerr where
  "ErrUnavailable = ErrNew ''lock unavailable''"

type_synonym accept_func = "string \<Rightarrow> fileinfo \<Rightarrow> bool"

definition MakeAgeFilter :: "'r Runtime \<Rightarrow> gotime \<Rightarrow> Options \<Rightarrow> accept_func" where
  "MakeAgeFilter rt deadline opts name fi =
     (if Before deadline (fi_mtime fi) then False
      else case ExtractTime rt name opts of
             Inr ts \<Rightarrow> \<not> IsZero ts \<and> Before ts deadline
           | Inl _ \<Rightarrow> True)"

text \<open>The dependencies: \<open>ctx_Err\<close> is the error of the context once it is done.\<close>

record 'w prune_env =
  ReadDir :: "path \<Rightarrow> 'w \<Rightarrow> (goerr + fileinfo list) \<times> 'w"
  RemoveAll :: "path \<Rightarrow> 'w \<Rightarrow> err \<times> 'w"
  TryLock :: "path \<Rightarrow> 'w \<Rightarrow> (bool \<times> err) \<times> 'w"
  lock_Close :: "path \<Rightarrow> 'w \<Rightarrow> err \<times> 'w"
  ctx_Err :: "'w \<Rightarrow> err"

record Pruner =
  Dir :: path
  Accept :: accept_func

fun runLocked_loop ::
  "append_func \<Rightarrow> 'w prune_env \<Rightarrow> Pruner \<Rightarrow> fileinfo list \<Rightarrow> err \<Rightarrow> 'w \<Rightarrow> err \<times> 'w" where
  "runLocked_loop app env p [] resultErr w = (resultErr, w)"
| "runLocked_loop app env p (fi # entries) resultErr w =
     (case ctx_Err env w of
        Some e \<Rightarrow> (app resultErr (Some e), w)
      | None \<Rightarrow>
          if fi_name fi \<noteq> lockName \<and> Accept p (fi_name fi) fi then
            (case RemoveAll env (Join [Dir p, fi_name fi]) w of
               (err, w1) \<Rightarrow>
                 runLocked_loop app env p entries
                   (case err of
                      None \<Rightarrow> resultErr
                    | Some e \<Rightarrow> if os_IsNotExist e then resultErr else app resultErr err) w1)
          else runLocked_loop app env p entries resultErr w)"

definition runLocked :: "append_func \<Rightarrow> 'w prune_env \<Rightarrow> Pruner \<Rightarrow> 'w \<Rightarrow> err \<times> 'w" where
  "runLocked app env p w =
     (case ReadDir env (Dir p) w of
        (Inl e, w1) \<Rightarrow> (Some e, w1)
      | (Inr entries, w1) \<Rightarrow> runLocked_loop app env p entries None w1)"

definition prune_Run :: "append_func \<Rightarrow> 'w prune_env \<Rightarrow> Pruner \<Rightarrow> 'w \<Rightarrow> err \<times> 'w" where
  "prune_Run app env p w =
     (let lock = Join [Dir p, lockName]
      in case TryLock env lock w of
           ((locked, Some e), w1) \<Rightarrow> (Some e, w1)
         | ((locked, None), w1) \<Rightarrow>
             if \<not> locked then (Some ErrUnavailable, w1)
             else case runLocked app env p w1 of
                    (resultErr, w2) \<Rightarrow>
                      (case lock_Close env lock w2 of (closeErr, w3) \<Rightarrow> (app resultErr closeErr, w3)))"

section \<open>What the dependencies promise\<close>

text \<open>
  \<open>look\<close> is the entry at an absolute path and \<open>held\<close> tells whether some process holds the lock of
  a lock file. Listing a directory changes nothing and reports existing entries by their names.
  \<open>RemoveAll\<close> touches nothing but the given path and what is below it. Trying to lock may create
  the lock file; it takes the lock only if nobody holds it.
\<close>

locale prune_system =
  fixes env :: "'w prune_env" and inv :: "'w \<Rightarrow> bool" and look :: "'w \<Rightarrow> path \<Rightarrow> fileinfo option"
    and held :: "'w \<Rightarrow> path \<Rightarrow> bool"
  assumes readdir: "inv w \<Longrightarrow> IsAbs d \<Longrightarrow> ReadDir env d w = (r, w') \<Longrightarrow> w' = w"
    and readdir_entry: "inv w \<Longrightarrow> IsAbs d \<Longrightarrow> ReadDir env d w = (Inr es, w') \<Longrightarrow> fi \<in> set es \<Longrightarrow>
      normal (fi_name fi) \<and> fi_name fi \<noteq> ''..'' \<and> look w (Join [d, fi_name fi]) = Some fi"
    and readdir_all: "inv w \<Longrightarrow> IsAbs d \<Longrightarrow> ReadDir env d w = (Inr es, w') \<Longrightarrow> normal n \<Longrightarrow> n \<noteq> ''..'' \<Longrightarrow>
      look w (Join [d, n]) \<noteq> None \<Longrightarrow> n \<in> fi_name ` set es"
    and remove: "inv w \<Longrightarrow> IsAbs p \<Longrightarrow> comps p \<noteq> [] \<Longrightarrow> RemoveAll env p w = (err, w') \<Longrightarrow>
      inv w' \<and> (\<forall>q. IsAbs q \<longrightarrow> \<not> below p q \<longrightarrow> look w' q = look w q \<and> held w' q = held w q) \<and>
      (\<forall>q. IsAbs q \<longrightarrow> look w q = None \<longrightarrow> look w' q = None)"
    and remove_ok: "inv w \<Longrightarrow> IsAbs p \<Longrightarrow> comps p \<noteq> [] \<Longrightarrow> RemoveAll env p w = (err, w') \<Longrightarrow>
      err = None \<or> err = Some (ErrNo ENOENT) \<Longrightarrow> look w' p = None"
    and lock: "inv w \<Longrightarrow> IsAbs p \<Longrightarrow> TryLock env p w = ((locked, err), w') \<Longrightarrow>
      inv w' \<and> (\<forall>q. IsAbs q \<longrightarrow> Clean q \<noteq> Clean p \<longrightarrow> look w' q = look w q)"
    and lock_ok: "inv w \<Longrightarrow> IsAbs p \<Longrightarrow> TryLock env p w = ((True, None), w') \<Longrightarrow> \<not> held w p \<and> held w' p"
    and lock_busy: "inv w \<Longrightarrow> IsAbs p \<Longrightarrow> held w p \<Longrightarrow> TryLock env p w = ((locked, None), w') \<Longrightarrow>
      \<not> locked \<and> held w' p"
    and unlock: "inv w \<Longrightarrow> IsAbs p \<Longrightarrow> lock_Close env p w = (err, w') \<Longrightarrow> inv w' \<and> look w' = look w"
    and unlock_ok: "inv w \<Longrightarrow> IsAbs p \<Longrightarrow> held w p \<Longrightarrow> lock_Close env p w = (None, w') \<Longrightarrow> \<not> held w' p"

lemma lockName_normal: "normal lockName" "lockName \<noteq> ''..''"
  by (simp_all add: lockName_def normal_def)

lemma comps_entry: "IsAbs d \<Longrightarrow> normal n \<Longrightarrow> n \<noteq> ''..'' \<Longrightarrow> comps (Join [d, n]) = comps d @ [n]"
  using comps_Join [of d "[n]"] by (auto simp: IsAbs_def)

lemma IsAbs_entry: "IsAbs d \<Longrightarrow> IsAbs (Join [d, n])"
  using IsAbs_Join [of d "[n]"] by (auto simp: IsAbs_def)

lemma entry_not_below:
  "IsAbs d \<Longrightarrow> normal m \<Longrightarrow> m \<noteq> ''..'' \<Longrightarrow> normal n \<Longrightarrow> n \<noteq> ''..'' \<Longrightarrow> m \<noteq> n \<Longrightarrow>
   \<not> below (Join [d, m]) (Join [d, n])"
  by (simp add: below_def comps_entry)

lemma entry_path:
  assumes "IsAbs d" "normal n" "n \<noteq> ''..''" "n \<noteq> lockName"
  shows "Clean (Join [d, n]) \<noteq> Join [d, lockName]"
proof
  assume "Clean (Join [d, n]) = Join [d, lockName]"
  then have "comps (Join [d, n]) = comps (Join [d, lockName])" by (metis comps_Clean)
  then show False using assms lockName_normal by (simp add: comps_entry)
qed

text \<open>An entry that the pruner may remove.\<close>

definition removable :: "('w \<Rightarrow> path \<Rightarrow> fileinfo option) \<Rightarrow> Pruner \<Rightarrow> 'w \<Rightarrow> string \<Rightarrow> bool" where
  "removable look p w n \<longleftrightarrow> normal n \<and> n \<noteq> ''..'' \<and> n \<noteq> lockName \<and>
     (\<exists>fi. look w (Join [Dir p, n]) = Some fi \<and> fi_name fi = n \<and> Accept p n fi)"

context prune_system
begin

lemma loop_effect:
  assumes "multierr_law app" "IsAbs (Dir p)"
    "\<And>fi. fi \<in> set es \<Longrightarrow> normal (fi_name fi) \<and> fi_name fi \<noteq> ''..''"
    "runLocked_loop app env p es acc w = (err, w')" "inv w"
  shows "inv w' \<and> held w' (Join [Dir p, lockName]) = held w (Join [Dir p, lockName]) \<and>
    (\<forall>q. IsAbs q \<longrightarrow> look w' q \<noteq> look w q \<longrightarrow>
       (\<exists>fi \<in> set es. fi_name fi \<noteq> lockName \<and> Accept p (fi_name fi) fi \<and> below (Join [Dir p, fi_name fi]) q)) \<and>
    (\<forall>q. IsAbs q \<longrightarrow> look w q = None \<longrightarrow> look w' q = None) \<and>
    (err = None \<longrightarrow> acc = None \<and>
       (\<forall>fi \<in> set es. fi_name fi \<noteq> lockName \<longrightarrow> Accept p (fi_name fi) fi \<longrightarrow>
          look w' (Join [Dir p, fi_name fi]) = None))"
  using assms(3-5)
proof (induction es arbitrary: acc w)
  case (Cons fi es)
  let ?q = "Join [Dir p, fi_name fi]" and ?l = "Join [Dir p, lockName]"
  have q: "IsAbs ?q" "comps ?q \<noteq> []"
    using Cons.prems(1) assms(2) by (simp_all add: IsAbs_entry comps_entry)
  show ?case
  proof (cases "ctx_Err env w")
    case (Some e)
    then show ?thesis
      using Cons.prems(2,3) multierr_law_None_iff [OF assms(1), of acc "Some e"] by auto
  next
    case None
    show ?thesis
    proof (cases "fi_name fi \<noteq> lockName \<and> Accept p (fi_name fi) fi")
      case False
      then have "runLocked_loop app env p es acc w = (err, w')" using Cons.prems(2) None by auto
      from Cons.IH [OF _ this Cons.prems(3)] Cons.prems(1) False show ?thesis by force
    next
      case True
      obtain e w1 where r: "RemoveAll env ?q w = (e, w1)" by fastforce
      note eff = remove [OF Cons.prems(3) q r]
      let ?acc = "case e of None \<Rightarrow> acc | Some x \<Rightarrow> if os_IsNotExist x then acc else app acc e"
      have "runLocked_loop app env p es ?acc w1 = (err, w')" using Cons.prems(2) None True r by simp
      from Cons.IH [OF _ this] Cons.prems(1) eff have IH: "inv w' \<and> held w' ?l = held w1 ?l \<and>
        (\<forall>q. IsAbs q \<longrightarrow> look w' q \<noteq> look w1 q \<longrightarrow>
           (\<exists>fi \<in> set es. fi_name fi \<noteq> lockName \<and> Accept p (fi_name fi) fi \<and> below (Join [Dir p, fi_name fi]) q)) \<and>
        (\<forall>q. IsAbs q \<longrightarrow> look w1 q = None \<longrightarrow> look w' q = None) \<and>
        (err = None \<longrightarrow> ?acc = None \<and>
          (\<forall>fi \<in> set es. fi_name fi \<noteq> lockName \<longrightarrow> Accept p (fi_name fi) fi \<longrightarrow>
             look w' (Join [Dir p, fi_name fi]) = None))" by simp
      have "\<not> below ?q ?l"
        using Cons.prems(1) True assms(2) lockName_normal by (intro entry_not_below) auto
      then have h: "held w1 ?l = held w ?l" using eff assms(2) IsAbs_entry by blast
      have g: "acc = None \<and> look w' ?q = None" if "?acc = None"
      proof -
        have "acc = None \<and> (e = None \<or> e = Some (ErrNo ENOENT))"
          using that multierr_law_None_iff [OF assms(1), of acc e]
          by (auto simp: os_IsNotExist_def split: option.splits if_splits)
        then show ?thesis using remove_ok [OF Cons.prems(3) q r] IH q(1) by blast
      qed
      have "below ?q x" if "IsAbs x" "look w1 x \<noteq> look w x" for x using eff that by blast
      then have c: "\<exists>fi \<in> set (fi # es). fi_name fi \<noteq> lockName \<and> Accept p (fi_name fi) fi \<and>
          below (Join [Dir p, fi_name fi]) x" if "IsAbs x" "look w' x \<noteq> look w x" for x
        using that IH True by (metis list.set_intros(1,2))
      have n: "IsAbs x \<Longrightarrow> look w x = None \<Longrightarrow> look w' x = None" for x using eff IH by blast
      show ?thesis using IH h c n g by auto
    qed
  qed
qed simp

text \<open>With the lock held only accepted entries go, and all of them when no error is reported.\<close>

lemma runLocked_effect:
  assumes "multierr_law app" "IsAbs (Dir p)" "inv w" "runLocked app env p w = (err, w')"
  shows "inv w' \<and> held w' (Join [Dir p, lockName]) = held w (Join [Dir p, lockName]) \<and>
    (\<forall>q. IsAbs q \<longrightarrow> look w' q \<noteq> look w q \<longrightarrow> (\<exists>n. removable look p w n \<and> below (Join [Dir p, n]) q)) \<and>
    (err = None \<longrightarrow> (\<forall>n. removable look p w n \<longrightarrow> look w' (Join [Dir p, n]) = None))"
proof -
  obtain rd w1 where "ReadDir env (Dir p) w = (rd, w1)" by fastforce
  then have rd: "ReadDir env (Dir p) w = (rd, w)" using readdir [OF assms(3,2)] by blast
  show ?thesis
  proof (cases rd)
    case (Inl x)
    then show ?thesis using assms(3,4) rd by (auto simp: runLocked_def)
  next
    case (Inr es)
    note ent = readdir_entry [OF assms(3,2) rd [unfolded Inr]]
    have "runLocked_loop app env p es None w = (err, w')" using assms(4) rd Inr by (simp add: runLocked_def)
    note L = loop_effect [OF assms(1,2) _ this assms(3)]
    have del: "look w' (Join [Dir p, fi_name fi]) = None"
      if "err = None" "fi \<in> set es" "fi_name fi \<noteq> lockName" "Accept p (fi_name fi) fi" for fi
      using that ent L by blast
    have rem: "removable look p w (fi_name fi)"
      if "fi \<in> set es" "fi_name fi \<noteq> lockName" "Accept p (fi_name fi) fi" for fi
      using ent that by (auto simp: removable_def)
    moreover have "\<exists>fi \<in> set es. fi_name fi = n \<and> n \<noteq> lockName \<and> Accept p n fi" if n: "removable look p w n" for n
    proof -
      have "n \<in> fi_name ` set es"
        using n readdir_all [OF assms(3,2) rd [unfolded Inr], of n] by (auto simp: removable_def)
      then show ?thesis using n ent by (fastforce simp: removable_def)
    qed
    ultimately have "look w' (Join [Dir p, n]) = None" if "err = None" "removable look p w n" for n
      using del that by metis
    moreover have "inv w'" "held w' (Join [Dir p, lockName]) = held w (Join [Dir p, lockName])"
      using L ent by blast+
    moreover have "\<exists>n. removable look p w n \<and> below (Join [Dir p, n]) q" if "IsAbs q" "look w' q \<noteq> look w q" for q
      using L ent that rem by metis
    ultimately show ?thesis by blast
  qed
qed

text \<open>What a run does: with the lock unavailable, nothing apart from the lock file.\<close>

lemma removable_lock:
  assumes "IsAbs (Dir p)" "\<And>q. IsAbs q \<Longrightarrow> Clean q \<noteq> Join [Dir p, lockName] \<Longrightarrow> look w1 q = look w q"
  shows "removable look p w1 n = removable look p w n"
proof -
  have "look w1 (Join [Dir p, n]) = look w (Join [Dir p, n])" if "normal n" "n \<noteq> ''..''" "n \<noteq> lockName"
    by (rule assms(2) [OF IsAbs_entry [OF assms(1)] entry_path [OF assms(1) that]])
  then show ?thesis unfolding removable_def by (metis (no_types, lifting))
qed

lemma run_effect:
  assumes "multierr_law app" "IsAbs (Dir p)" "inv w" "prune_Run app env p w = (err, w')"
  shows "inv w' \<and>
    (\<forall>q. IsAbs q \<longrightarrow> look w' q \<noteq> look w q \<longrightarrow>
       Clean q = Join [Dir p, lockName] \<or> (\<exists>n. removable look p w n \<and> below (Join [Dir p, n]) q)) \<and>
    (held w (Join [Dir p, lockName]) \<longrightarrow> err \<noteq> None \<and>
       (\<forall>q. IsAbs q \<longrightarrow> Clean q \<noteq> Join [Dir p, lockName] \<longrightarrow> look w' q = look w q)) \<and>
    (err = None \<longrightarrow> \<not> held w' (Join [Dir p, lockName]) \<and>
       (\<forall>n. removable look p w n \<longrightarrow> look w' (Join [Dir p, n]) = None))"
proof -
  let ?l = "Join [Dir p, lockName]"
  have l: "IsAbs ?l" using assms(2) by (rule IsAbs_entry)
  have cl: "Clean ?l = ?l" using assms(2) by (auto simp: Join_def IsAbs_def)
  obtain locked lerr w1 where t: "TryLock env ?l w = ((locked, lerr), w1)"
    by (metis prod.collapse)
  have w1: "inv w1" "\<And>q. IsAbs q \<Longrightarrow> Clean q \<noteq> ?l \<Longrightarrow> look w1 q = look w q"
    using lock [OF assms(3) l t] cl by auto
  show ?thesis
  proof (cases "lerr = None \<and> locked")
    case False
    then have "err \<noteq> None" "w' = w1"
      using assms(4) t by (auto simp: prune_Run_def Let_def split: option.splits if_splits)
    then show ?thesis using w1 by blast
  next
    case True
    then have t: "TryLock env ?l w = ((True, None), w1)" using t by simp
    have held: "\<not> held w ?l" "held w1 ?l" using lock_ok [OF assms(3) l t] by auto
    obtain rerr w2 cerr w3 where r: "runLocked app env p w1 = (rerr, w2)" "lock_Close env ?l w2 = (cerr, w3)"
      by (metis prod.collapse)
    then have e: "err = app rerr cerr" "w' = w3" using assms(4) t by (simp_all add: prune_Run_def Let_def)
    note L = runLocked_effect [OF assms(1,2) w1(1) r(1)] and rm = removable_lock [of p w1 w, OF assms(2) w1(2)]
    have u: "inv w'" "look w' = look w2" using unlock [OF _ l r(2)] L e(2) by auto
    have "rerr = None \<and> \<not> held w' ?l" if "err = None"
      using that e multierr_law_None_iff [OF assms(1), of rerr cerr] unlock_ok [OF _ l] r(2) held(2) L by auto
    moreover have "Clean q = ?l \<or> (\<exists>n. removable look p w n \<and> below (Join [Dir p, n]) q)"
      if "IsAbs q" "look w' q \<noteq> look w q" for q
      using that L u(2) w1(2) [of q] rm by metis
    ultimately show ?thesis using u L held(1) rm by simp
  qed
qed

end

section \<open>The dependencies on the file system model\<close>

text \<open>A lock is held while some handle is open on the inode of the lock file.\<close>

definition plain_ReadDir :: "path \<Rightarrow> fs \<Rightarrow> (goerr + fileinfo list) \<times> fs" where
  "plain_ReadDir d w =
     (if is_dir w (key d) then
        Inr (List.map_filter (\<lambda>n. map_option (info w (key d @ [n])) (ents w (key d @ [n])))
          (filter (\<lambda>n. normal n \<and> n \<noteq> ''..'') (remdups (names w))))
      else Inl (ErrNo ENOENT), w)"

definition plain_RemoveAll :: "path \<Rightarrow> fs \<Rightarrow> err \<times> fs" where
  "plain_RemoveAll p w =
     (if key p = [] then (Some (ErrNo EINVAL), w)
      else (None, w\<lparr>ents := (\<lambda>k. if prefix (key p) k then None else ents w k)\<rparr>))"

definition plain_TryLock :: "path \<Rightarrow> fs \<Rightarrow> (bool \<times> err) \<times> fs" where
  "plain_TryLock p w =
     (case ents w (key p) of
        Some n \<Rightarrow>
          if i_type (inodes w n) = Directory then ((False, Some (ErrNo EISDIR)), w)
          else if \<exists>h \<in> set [0..<fresh_handle w]. handles w h = Some n then ((False, None), w)
          else ((True, None), snd (new_handle n w))
      | None \<Rightarrow>
          (case parent_error w (key p) of
             Some e \<Rightarrow> ((False, Some e), w)
           | None \<Rightarrow> ((True, None), snd (new_handle (fresh_ino w) (new_entry (key p) (file_inode []) w)))))"

definition plain_lock_Close :: "path \<Rightarrow> fs \<Rightarrow> err \<times> fs" where
  "plain_lock_Close p w =
     (None, case ents w (key p) of
        None \<Rightarrow> w
      | Some n \<Rightarrow> w\<lparr>handles := (\<lambda>h. if handles w h = Some n then None else handles w h)\<rparr>)"

definition plain_env :: "(fs \<Rightarrow> err) \<Rightarrow> fs prune_env" where
  "plain_env ctx = \<lparr>ReadDir = plain_ReadDir, RemoveAll = plain_RemoveAll, TryLock = plain_TryLock,
     lock_Close = plain_lock_Close, ctx_Err = ctx\<rparr>"

definition lock_held :: "fs \<Rightarrow> path \<Rightarrow> bool" where
  "lock_held w p \<longleftrightarrow> (\<exists>n h. ents w (key p) = Some n \<and> handles w h = Some n)"

definition lock_inv :: "fs \<Rightarrow> bool" where
  "lock_inv w \<longleftrightarrow> linkfree_inv w \<and> (\<forall>h \<ge> fresh_handle w. handles w h = None)"

lemma info_handles [simp]:
  "info (w\<lparr>handles := f\<rparr>) k = info w k" "info (w\<lparr>fresh_handle := m\<rparr>) k = info w k"
  by (simp_all add: info_def fun_eq_iff)

lemma look_new_handle [simp]: "plain_look (snd (new_handle n w)) q = plain_look w q"
  by (simp add: new_handle_def plain_look_def)

lemma lock_inv_new_handle: "lock_inv w \<Longrightarrow> lock_inv (snd (new_handle n w))"
  by (auto simp: lock_inv_def linkfree_inv_def fs_inv_def is_dir_def new_handle_def Suc_le_eq
      split: option.splits)

lemma lock_inv_new_entry:
  "lock_inv w \<Longrightarrow> ents w k = None \<Longrightarrow> i_type i \<noteq> Symlink \<Longrightarrow> lock_inv (new_entry k i w)"
  using new_entry_linkfree [of w k i] by (auto simp: lock_inv_def) (simp add: new_entry_def)

lemma lock_inv_handles:
  "lock_inv w \<Longrightarrow> \<forall>h \<ge> fresh_handle w. f h = None \<Longrightarrow> lock_inv (w\<lparr>handles := f\<rparr>)"
  by (auto simp: lock_inv_def linkfree_inv_def fs_inv_def is_dir_def split: option.splits)

lemma lock_inv_remove:
  assumes "lock_inv w" "k \<noteq> []"
  shows "lock_inv (w\<lparr>ents := (\<lambda>q. if prefix k q then None else ents w q)\<rparr>)"
  using assms by (auto simp: lock_inv_def linkfree_inv_def fs_inv_def is_dir_def split: if_splits option.splits)

lemma plain_TryLock_cases:
  assumes "lock_inv w" "IsAbs p" "plain_TryLock p w = ((locked, err), w')"
  obtains (busy) n h where "ents w (comps p) = Some n" "handles w h = Some n" "\<not> locked" "w' = w"
    | (error) e where "err = Some e" "w' = w"
    | (old) n where "ents w (comps p) = Some n" "\<forall>h. handles w h \<noteq> Some n" "locked" "err = None"
        "w' = snd (new_handle n w)"
    | (new) "ents w (comps p) = None" "comps p \<noteq> []" "locked" "err = None"
        "w' = snd (new_handle (fresh_ino w) (new_entry (comps p) (file_inode []) w))"
proof (cases "ents w (comps p)")
  case None
  show ?thesis
  proof (cases "parent_error w (comps p)")
    case (Some e)
    then have "err = Some e" "w' = w" using None assms(2,3) by (auto simp: plain_TryLock_def)
    then show ?thesis by (rule error)
  next
    case no: None
    then have "locked" "err = None"
        "w' = snd (new_handle (fresh_ino w) (new_entry (comps p) (file_inode []) w))"
      using None assms(2,3) by (auto simp: plain_TryLock_def)
    moreover have "comps p \<noteq> []" using no by (auto simp: parent_error_def)
    ultimately show ?thesis using None by (intro new)
  qed
next
  case (Some n)
  have "handles w h = Some n \<Longrightarrow> h < fresh_handle w" for h
    using assms(1) by (metis lock_inv_def not_le option.distinct(1))
  then have h: "(\<exists>h \<in> set [0..<fresh_handle w]. handles w h = Some n) \<longleftrightarrow> (\<exists>h. handles w h = Some n)"
    by auto
  have t: "plain_TryLock p w =
      (if i_type (inodes w n) = Directory then ((False, Some (ErrNo EISDIR)), w)
       else if \<exists>h. handles w h = Some n then ((False, None), w)
       else ((True, None), snd (new_handle n w)))"
    using Some assms(2) h unfolding plain_TryLock_def by (simp only: key_abs option.case)
  consider "i_type (inodes w n) = Directory" | "i_type (inodes w n) \<noteq> Directory" "\<exists>h. handles w h = Some n"
    | "i_type (inodes w n) \<noteq> Directory" "\<nexists>h. handles w h = Some n" by blast
  then show ?thesis
  proof cases
    case 1
    then have "err = Some (ErrNo EISDIR)" "w' = w" using assms(3) t by auto
    then show ?thesis by (rule error)
  next
    case 2
    then obtain h where "handles w h = Some n" by blast
    moreover have "\<not> locked" "w' = w" using assms(3) t 2 by auto
    ultimately show ?thesis using Some by (intro busy)
  next
    case 3
    then have "locked" "err = None" "w' = snd (new_handle n w)" using assms(3) t by auto
    with Some show ?thesis by (intro old) (use 3 in blast)+
  qed
qed

interpretation plain_prune: prune_system "plain_env ctx" lock_inv plain_look lock_held
proof
  fix w w' :: fs and d p q :: path and r es fi err locked n
  assume inv: "lock_inv w"
  then have fs: "fs_inv w" by (simp add: lock_inv_def linkfree_inv_def)
  show "w' = w" if "ReadDir (plain_env ctx) d w = (r, w')"
    using that by (simp add: plain_env_def plain_ReadDir_def)
  show "normal (fi_name fi) \<and> fi_name fi \<noteq> ''..'' \<and> plain_look w (Join [d, fi_name fi]) = Some fi"
    if "IsAbs d" "ReadDir (plain_env ctx) d w = (Inr es, w')" "fi \<in> set es"
  proof -
    note h = that
    obtain n i where n: "normal n" "n \<noteq> ''..''" "ents w (comps d @ [n]) = Some i"
        "fi = info w (comps d @ [n]) i"
      using h by (auto simp: plain_env_def plain_ReadDir_def List.map_filter_def split: if_splits)
    then have "fi_name fi = n" by (simp add: info_def Let_def)
    then show ?thesis using n h(1) by (simp add: plain_look_def IsAbs_entry comps_entry)
  qed
  show "n \<in> fi_name ` set es"
    if "IsAbs d" "ReadDir (plain_env ctx) d w = (Inr es, w')" "normal n" "n \<noteq> ''..''"
      "plain_look w (Join [d, n]) \<noteq> None"
  proof -
    note h = that
    obtain i where i: "ents w (comps d @ [n]) = Some i"
      using h(1,3-5) by (auto simp: plain_look_def IsAbs_entry comps_entry)
    then have "n \<in> set (names w)" using fs by (force simp: fs_inv_def)
    then have "info w (comps d @ [n]) i \<in> set es"
      using h(1-4) i
      by (auto simp: plain_env_def plain_ReadDir_def List.map_filter_def image_iff split: if_splits intro!: exI [of _ n])
    then show ?thesis by (force simp: info_def Let_def)
  qed
  show "lock_inv w' \<and> (\<forall>q. IsAbs q \<longrightarrow> \<not> below p q \<longrightarrow>
      plain_look w' q = plain_look w q \<and> lock_held w' q = lock_held w q) \<and>
      (\<forall>q. IsAbs q \<longrightarrow> plain_look w q = None \<longrightarrow> plain_look w' q = None)"
    if "IsAbs p" "comps p \<noteq> []" "RemoveAll (plain_env ctx) p w = (err, w')"
    using that lock_inv_remove [OF inv that(2)]
    by (auto simp: plain_env_def plain_RemoveAll_def plain_look_def lock_held_def below_def)
  show "plain_look w' p = None"
    if "IsAbs p" "comps p \<noteq> []" "RemoveAll (plain_env ctx) p w = (err, w')" "err = None \<or> err = Some (ErrNo ENOENT)"
    using that by (auto simp: plain_env_def plain_RemoveAll_def plain_look_def)
  show "lock_inv w' \<and> (\<forall>q. IsAbs q \<longrightarrow> Clean q \<noteq> Clean p \<longrightarrow> plain_look w' q = plain_look w q)"
    if p: "IsAbs p" "TryLock (plain_env ctx) p w = ((locked, err), w')"
  proof -
    have "plain_TryLock p w = ((locked, err), w')" using p(2) by (simp add: plain_env_def)
    with inv p(1) show ?thesis
    proof (cases rule: plain_TryLock_cases)
      case (old n)
      then show ?thesis using inv by (simp add: lock_inv_new_handle)
    next
      case new
      have "file_inode [] = i \<Longrightarrow> i_type i \<noteq> Symlink" for i by (auto simp: file_inode_def)
      then show ?thesis
        using new inv p(1) new_entry_look(4) [OF fs new(1,2)]
        by (auto simp: lock_inv_new_handle lock_inv_new_entry Clean_eq_comps)
    qed (use inv in auto)
  qed
  show "\<not> lock_held w p \<and> lock_held w' p" if "IsAbs p" "TryLock (plain_env ctx) p w = ((True, None), w')"
  proof -
    have "plain_TryLock p w = ((True, None), w')" using that(2) by (simp add: plain_env_def)
    with inv that(1) show ?thesis
      by (cases rule: plain_TryLock_cases) (use that(1) in \<open>auto simp: lock_held_def new_handle_def new_entry_def\<close>)
  qed
  show "\<not> locked \<and> lock_held w' p"
    if "IsAbs p" "lock_held w p" "TryLock (plain_env ctx) p w = ((locked, None), w')"
  proof -
    have "plain_TryLock p w = ((locked, None), w')" using that(3) by (simp add: plain_env_def)
    with inv that(1) show ?thesis
      by (cases rule: plain_TryLock_cases) (use that(1,2) in \<open>auto simp: lock_held_def\<close>)
  qed
  show "lock_inv w' \<and> plain_look w' = plain_look w" if "IsAbs p" "lock_Close (plain_env ctx) p w = (err, w')"
  proof (cases "ents w (comps p)")
    case None
    then show ?thesis using that inv by (simp add: plain_env_def plain_lock_Close_def)
  next
    case (Some n)
    then have "w' = w\<lparr>handles := (\<lambda>h. if handles w h = Some n then None else handles w h)\<rparr>"
      using that by (simp add: plain_env_def plain_lock_Close_def)
    then show ?thesis
      using inv lock_inv_handles [OF inv] by (simp add: plain_look_def fun_eq_iff) (simp add: lock_inv_def)
  qed
  show "\<not> lock_held w' p"
    if "IsAbs p" "lock_held w p" "lock_Close (plain_env ctx) p w = (None, w')"
    using that by (auto simp: plain_env_def plain_lock_Close_def lock_held_def split: option.splits if_splits)
qed

section \<open>Properties\<close>

text \<open>The filter accepts exactly the entries whose modification time is not after the deadline and
  whose name carries no time, or one before the deadline.\<close>

lemma MakeAgeFilter_iff:
  "MakeAgeFilter rt deadline opts name fi \<longleftrightarrow> fi_mtime fi \<le> deadline \<and>
     (\<forall>ts. ExtractTime rt name opts = Inr ts \<longrightarrow> \<not> IsZero ts \<and> ts < deadline)"
  by (auto simp: MakeAgeFilter_def Before_def split: sum.split)

text \<open>
  Pruning removes nothing but old entries of the directory, and all of them. A run of a pruner
  with the age filter changes no entry except its lock file and what is at or below an entry
  of the directory that was last modified at or before the deadline and whose name carries no
  later time; if somebody else holds the lock it removes nothing and reports an error; and if it
  reports no error every such entry is gone and the lock is free again.
\<close>

theorem prune_only_old_entries:
  assumes "prune_system env valid look held" "multierr_law app" "IsAbs d" "valid w"
    and p: "p = \<lparr>Dir = d, Accept = MakeAgeFilter rt deadline opts\<rparr>"
    and "prune_Run app env p w = (err, w')"
  shows "(\<forall>q. IsAbs q \<longrightarrow> look w' q \<noteq> look w q \<longrightarrow> Clean q = Join [d, lockName] \<or>
      (\<exists>n fi. normal n \<and> n \<noteq> ''..'' \<and> n \<noteq> lockName \<and> look w (Join [d, n]) = Some fi \<and> below (Join [d, n]) q \<and> fi_mtime fi \<le> deadline \<and>
         (\<forall>ts. ExtractTime rt n opts = Inr ts \<longrightarrow> ts < deadline)))
    \<and> (held w (Join [d, lockName]) \<longrightarrow> err \<noteq> None \<and>
         (\<forall>q. IsAbs q \<longrightarrow> Clean q \<noteq> Join [d, lockName] \<longrightarrow> look w' q = look w q))
    \<and> (err = None \<longrightarrow> \<not> held w' (Join [d, lockName]) \<and>
         (\<forall>n. removable look p w n \<longrightarrow> look w' (Join [d, n]) = None))"
proof -
  note run = prune_system.run_effect [OF assms(1,2) _ assms(4,6)]
  have d: "Dir p = d" "Accept p = MakeAgeFilter rt deadline opts" by (simp_all add: p)
  note run = run [unfolded d(1), OF assms(3)]
  have "\<exists>fi. normal n \<and> n \<noteq> ''..'' \<and> n \<noteq> lockName \<and> look w (Join [d, n]) = Some fi \<and> fi_mtime fi \<le> deadline \<and>
      (\<forall>ts. ExtractTime rt n opts = Inr ts \<longrightarrow> ts < deadline)" if "removable look p w n" for n
    using that unfolding removable_def d MakeAgeFilter_iff by blast
  then show ?thesis using run by (intro conjI) blast+
qed

definition sample_pruner :: Pruner where
  "sample_pruner = \<lparr>Dir = ''/in'', Accept = MakeAgeFilter sample_runtime (Time 150) DefaultOptions\<rparr>"

lemma sample_fs_lock_inv: "lock_inv sample_fs"
  using sample_fs_inv by (simp add: lock_inv_def) (simp add: sample_fs_def empty_fs_def new_entry_def)

theorem prune_only_old_entries_witness:
  "\<exists>w'. prune_Run join_errors (plain_env (\<lambda>_. None)) sample_pruner sample_fs = (None, w') \<and>
     plain_look w' ''/in/f'' = None \<and> \<not> lock_held w' ''/in/.prune.lock''"
proof -
  have "fst (prune_Run join_errors (plain_env (\<lambda>_. None)) sample_pruner sample_fs) = None" by code_simp
  then obtain w' where r: "prune_Run join_errors (plain_env (\<lambda>_. None)) sample_pruner sample_fs = (None, w')"
    by (metis prod.collapse)
  have p: "Join [''/in'', ''f''] = ''/in/f''" "Join [''/in'', lockName] = ''/in/.prune.lock''" "IsAbs ''/in''"
    by code_simp+
  have a: "Accept sample_pruner ''f'' (the (plain_look sample_fs ''/in/f''))" "plain_look sample_fs ''/in/f'' \<noteq> None"
    "fi_name (the (plain_look sample_fs ''/in/f'')) = ''f''" by code_simp+
  then have "removable plain_look sample_pruner sample_fs ''f''"
    by (auto simp: removable_def lockName_def normal_def sample_pruner_def p)
  then show ?thesis
    using prune_only_old_entries [OF plain_prune.prune_system_axioms multierr_law_join_errors p(3)
        sample_fs_lock_inv sample_pruner_def r] r p by auto
qed

end
