(* ===== verification/GoFloat.thy ===== *)
theory GoFloat
  imports Prelude Complex_Main
begin

text \<open>
  Binary floating-point arithmetic with correct rounding, on rational numbers: \<open>fround p\<close> rounds
  to \<open>p\<close> significant bits, ties to even, as \<open>float64\<close> (\<open>p = 53\<close>) and \<open>float32\<close> (\<open>p = 24\<close>) do.
  The exponent is unbounded: the values the program computes with, durations in nanoseconds and
  products with small factors, are far from overflow and from the subnormal range.
\<close>

section \<open>Rounding to an integer\<close>

definition round_even :: "rat \<Rightarrow> int" where
  "round_even x =
     (let f = floor x; r = x - of_int f
      in if r < 1/2 then f else if r > 1/2 then f + 1 else if even f then f else f + 1)"

lemma round_even_of_int [simp]: "round_even (of_int n) = n"
  by (simp add: round_even_def)

lemma round_even_bounds: "floor x \<le> round_even x \<and> round_even x \<le> floor x + 1"
  by (simp add: round_even_def Let_def)

lemma round_even_mono:
  assumes "x \<le> y"
  shows "round_even x \<le> round_even y"
proof (cases "floor x = floor y")
  case True
  have "x - of_int (floor x) \<le> y - of_int (floor y)" using assms True by simp
  then show ?thesis unfolding round_even_def Let_def True by (auto split: if_splits)
next
  case False
  then have "floor x + 1 \<le> floor y" using floor_mono [OF assms] by simp
  then show ?thesis using round_even_bounds [of x] round_even_bounds [of y] by linarith
qed

lemma round_even_between:
  "of_int a \<le> x \<Longrightarrow> x \<le> of_int b \<Longrightarrow> a \<le> round_even x \<and> round_even x \<le> b"
  using round_even_mono [of "of_int a" x] round_even_mono [of x "of_int b"] by simp

section \<open>Binades\<close>

definition pow2 :: "int \<Rightarrow> rat" where
  "pow2 k = (if 0 \<le> k then 2 ^ nat k else 1 / 2 ^ nat (- k))"

lemma pow2_eq: "pow2 k = 2 powi k"
  by (simp add: pow2_def power_int_def power_one_over)

lemma pow2_pos [simp]: "0 < pow2 k"
  by (simp add: pow2_def)

lemma pow2_nonneg [simp]: "0 \<le> pow2 k" and pow2_nonzero [simp]: "pow2 k \<noteq> 0"
  and pow2_not_neg [simp]: "\<not> pow2 k < 0"
  using pow2_pos [of k] by (auto simp del: pow2_pos)

lemma pow2_add: "pow2 (a + b) = pow2 a * pow2 b"
  by (simp add: pow2_eq power_int_add)

lemma pow2_diff: "pow2 a / pow2 b = pow2 (a - b)"
  using pow2_add [of "a - b" b] by (simp add: divide_eq_eq)

lemma pow2_Suc: "pow2 (k + 1) = 2 * pow2 k"
  by (simp add: pow2_add) (simp add: pow2_def)

lemma pow2_mono: "a \<le> b \<Longrightarrow> pow2 a \<le> pow2 b"
  by (simp add: pow2_eq power_int_increasing)

lemma pow2_strict: "pow2 a < pow2 b \<Longrightarrow> a < b"
  using pow2_mono [of b a] by (rule_tac ccontr) auto

text \<open>The number of bits of an integer.\<close>

function bits :: "int \<Rightarrow> int" where
  "bits n = (if n \<le> 0 then 0 else 1 + bits (n div 2))"
  by pat_completeness auto
termination by (relation "measure nat") auto

declare bits.simps [simp del]

lemma bits_bounds:
  assumes "0 < n"
  shows "pow2 (bits n - 1) \<le> of_int n" "of_int n < pow2 (bits n)"
proof -
  have "pow2 (bits n - 1) \<le> of_int n \<and> of_int n < pow2 (bits n)"
    using assms
  proof (induction n rule: bits.induct)
    case (1 n)
    have b: "bits n = 1 + bits (n div 2)" using 1(2) by (subst bits.simps) simp
    show ?case
    proof (cases "n = 1")
      case True
      then have "bits n = 1" using b by (simp add: bits.simps [of 0])
      then show ?thesis using True by (simp add: pow2_def)
    next
      case False
      then have d: "0 < n div 2" using 1(2) by simp
      then have ih: "pow2 (bits (n div 2) - 1) \<le> of_int (n div 2)" "of_int (n div 2) < pow2 (bits (n div 2))"
        using 1 by auto
      have "bits (n div 2) = 1 + bits (n div 2 div 2)" using d by (subst bits.simps) simp
      moreover have "0 \<le> bits m" for m by (induction m rule: bits.induct) (subst bits.simps, simp)
      ultimately have "0 \<le> bits (n div 2)" by (metis add_nonneg_nonneg zero_le_one)
      then have p: "pow2 (bits (n div 2)) = of_int (2 ^ nat (bits (n div 2)))" by (simp add: pow2_def)
      then have "n div 2 + 1 \<le> 2 ^ nat (bits (n div 2))" using ih(2) by (simp only: of_int_less_iff)
      then have "n < 2 * 2 ^ nat (bits (n div 2))" by linarith
      then have "(of_int n :: rat) < of_int (2 * 2 ^ nat (bits (n div 2)))" by (simp only: of_int_less_iff)
      then have u: "of_int n < pow2 (bits n)" using p b pow2_Suc [of "bits (n div 2)"] by (simp add: add.commute)
      have "(of_int (2 * (n div 2)) :: rat) \<le> of_int n" by (simp only: of_int_le_iff)
      then have "pow2 (bits n - 1) \<le> of_int n"
        using ih(1) b pow2_Suc [of "bits (n div 2) - 1"] by simp
      with u show ?thesis by simp
    qed
  qed
  then show "pow2 (bits n - 1) \<le> of_int n" "of_int n < pow2 (bits n)" by simp_all
qed

text \<open>The exponent of a positive number: \<open>pow2 (expo x) \<le> x < pow2 (expo x + 1)\<close>.\<close>

definition expo :: "rat \<Rightarrow> int" where
  "expo x =
     (let (n, d) = quotient_of x; e = bits n - bits d
      in if pow2 e \<le> x then e else e - 1)"

lemma expo_bounds:
  assumes "0 < x"
  shows "pow2 (expo x) \<le> x" "x < pow2 (expo x + 1)"
proof -
  obtain n d where q: "quotient_of x = (n, d)" by fastforce
  have x: "x = of_int n / of_int d" "0 < d" using q quotient_of_div quotient_of_denom_pos by blast+
  then have n: "0 < n" using assms by (simp add: zero_less_divide_iff)
  let ?a = "bits n" and ?b = "bits d"
  note bn = bits_bounds [OF n] and bd = bits_bounds [OF x(2)]
  have d: "(0 :: rat) < of_int d" using x(2) by simp
  have up: "x < pow2 (?a - ?b + 1)"
  proof -
    have "of_int n < pow2 (?a - ?b + 1) * pow2 (?b - 1)" using bn(2) by (simp flip: pow2_add)
    also have "\<dots> \<le> pow2 (?a - ?b + 1) * of_int d" using bd(1) by (simp add: mult_left_mono)
    finally show ?thesis using d x(1) by (simp add: pos_divide_less_eq)
  qed
  have low: "pow2 (?a - ?b - 1) \<le> x"
  proof -
    have "pow2 (?a - ?b - 1) * of_int d \<le> pow2 (?a - ?b - 1) * pow2 ?b" using bd(2) by (simp add: mult_left_mono)
    also have "\<dots> = pow2 (?a - 1)" by (simp flip: pow2_add)
    also have "\<dots> \<le> of_int n" by (rule bn(1))
    finally show ?thesis using d x(1) by (simp add: pos_le_divide_eq)
  qed
  show "pow2 (expo x) \<le> x" "x < pow2 (expo x + 1)"
    using up low q by (auto simp: expo_def Let_def not_le)
qed

lemma expo_unique: "0 < x \<Longrightarrow> pow2 e \<le> x \<Longrightarrow> x < pow2 (e + 1) \<Longrightarrow> expo x = e"
  using expo_bounds [of x] pow2_strict [of e "expo x + 1"] pow2_strict [of "expo x" "e + 1"] by linarith

lemma expo_mono: "0 < x \<Longrightarrow> x \<le> y \<Longrightarrow> expo x \<le> expo y"
  using expo_bounds [of x] expo_bounds [of y] pow2_strict [of "expo x" "expo y + 1"] by linarith

section \<open>Rounding to a floating-point number\<close>

definition fround_pos :: "nat \<Rightarrow> rat \<Rightarrow> rat" where
  "fround_pos p x = (let u = pow2 (expo x - int p + 1) in of_int (round_even (x / u)) * u)"

definition fround :: "nat \<Rightarrow> rat \<Rightarrow> rat" where
  "fround p x = (if x = 0 then 0 else if x < 0 then - fround_pos p (- x) else fround_pos p x)"


lemma scaled_bounds:
  assumes "0 < x" "0 < p"
  defines "u \<equiv> pow2 (expo x - int p + 1)"
  shows "of_int (2 ^ (p - 1)) \<le> x / u" "x / u \<le> of_int (2 ^ p)"
proof -
  have p: "pow2 (int p - 1) = 2 ^ (p - 1)" "pow2 (int p) = 2 ^ p"
    using assms(2) by (simp_all add: pow2_def nat_diff_distrib)
  have e: "pow2 (int p - 1) * u = pow2 (expo x)" "pow2 (int p) * u = pow2 (expo x + 1)"
    unfolding u_def by (simp_all flip: pow2_add add: algebra_simps)
  have u: "0 < u" by (simp add: u_def)
  show "of_int (2 ^ (p - 1)) \<le> x / u"
    using expo_bounds(1) [OF assms(1)] u e(1) p(1) by (simp add: pos_le_divide_eq)
  show "x / u \<le> of_int (2 ^ p)"
    using expo_bounds(2) [OF assms(1)] u e(2) p(2) by (simp add: pos_divide_le_eq)
qed

lemma fround_pos_bounds:
  assumes "0 < x" "0 < p"
  shows "pow2 (expo x) \<le> fround_pos p x" "fround_pos p x \<le> pow2 (expo x + 1)"
proof -
  let ?u = "pow2 (expo x - int p + 1)"
  have r: "2 ^ (p - 1) \<le> round_even (x / ?u)" "round_even (x / ?u) \<le> 2 ^ p"
    using round_even_between [OF scaled_bounds [OF assms]] by auto
  have p: "pow2 (int p - 1) = 2 ^ (p - 1)" "pow2 (int p) = 2 ^ p"
    using assms(2) by (simp_all add: pow2_def nat_diff_distrib)
  have e: "pow2 (int p - 1) * ?u = pow2 (expo x)" "pow2 (int p) * ?u = pow2 (expo x + 1)"
    by (simp_all flip: pow2_add add: algebra_simps)
  have "(of_int (2 ^ (p - 1)) :: rat) \<le> of_int (round_even (x / ?u))" using r(1) by (simp only: of_int_le_iff)
  then have "(2 :: rat) ^ (p - 1) \<le> of_int (round_even (x / ?u))" by simp
  then have "2 ^ (p - 1) * ?u \<le> of_int (round_even (x / ?u)) * ?u" by (intro mult_right_mono) simp_all
  then show "pow2 (expo x) \<le> fround_pos p x" by (simp only: fround_pos_def Let_def p(1) [symmetric] e(1))
  have "(of_int (round_even (x / ?u)) :: rat) \<le> of_int (2 ^ p)" using r(2) by (simp only: of_int_le_iff)
  then have "(of_int (round_even (x / ?u)) :: rat) \<le> 2 ^ p" by simp
  then have "of_int (round_even (x / ?u)) * ?u \<le> 2 ^ p * ?u" by (intro mult_right_mono) simp_all
  then show "fround_pos p x \<le> pow2 (expo x + 1)" by (simp only: fround_pos_def Let_def p(2) [symmetric] e(2))
qed

lemma fround_pos_mono:
  assumes "0 < x" "x \<le> y" "0 < p"
  shows "fround_pos p x \<le> fround_pos p y"
proof (cases "expo x = expo y")
  case True
  have "x / pow2 (expo y - int p + 1) \<le> y / pow2 (expo y - int p + 1)"
    using assms(2) by (simp add: divide_right_mono)
  then show ?thesis
    using True round_even_mono by (simp add: fround_pos_def Let_def mult_right_mono)
next
  case False
  then have "expo x + 1 \<le> expo y" using expo_mono [OF assms(1,2)] by simp
  then have "pow2 (expo x + 1) \<le> pow2 (expo y)" by (rule pow2_mono)
  then show ?thesis
    using fround_pos_bounds(2) [OF assms(1,3)] fround_pos_bounds(1) [of y p] assms by linarith
qed

lemma fround_pos_pos: "0 < x \<Longrightarrow> 0 < p \<Longrightarrow> 0 < fround_pos p x"
  using fround_pos_bounds(1) [of x p] pow2_pos [of "expo x"] by linarith

lemma fround_0 [simp]: "fround p 0 = 0"
  by (simp add: fround_def)

lemma fround_minus: "fround p (- x) = - fround p x"
  by (auto simp: fround_def)

lemma fround_mono:
  assumes "x \<le> y" "0 < p"
  shows "fround p x \<le> fround p y"
proof -
  have n: "z < 0 \<Longrightarrow> fround p z < 0" "0 < z \<Longrightarrow> 0 < fround p z" for z
    using fround_pos_pos [of "- z" p] fround_pos_pos [of z p] assms(2) by (auto simp: fround_def)
  consider "x \<le> 0" "0 \<le> y" | "0 < x" | "y < 0" using assms(1) by linarith
  then show ?thesis
  proof cases
    case 1
    then have "fround p x \<le> 0" "0 \<le> fround p y" using n [of x] n [of y] by (auto simp: le_less)
    then show ?thesis by simp
  next
    case 2
    then show ?thesis using fround_pos_mono [of x y p] assms by (auto simp: fround_def)
  next
    case 3
    then show ?thesis using fround_pos_mono [of "- y" "- x" p] assms by (auto simp: fround_def)
  qed
qed

lemma fround_scale: "0 < p \<Longrightarrow> fround p (pow2 j * x) = pow2 j * fround p x"
proof -
  have pos: "fround_pos p (pow2 j * y) = pow2 j * fround_pos p y" if y: "0 < y" for y
  proof -
    have "expo (pow2 j * y) = j + expo y"
    proof (rule expo_unique)
      show "pow2 (j + expo y) \<le> pow2 j * y" using expo_bounds(1) [OF y] by (simp add: pow2_add)
      have "pow2 j * y < pow2 j * pow2 (expo y + 1)" using expo_bounds(2) [OF y] by simp
      then show "pow2 j * y < pow2 (j + expo y + 1)" by (simp flip: pow2_add add: algebra_simps)
    qed (use y in simp)
    then have "pow2 (expo (pow2 j * y) - int p + 1) = pow2 j * pow2 (expo y - int p + 1)"
      by (simp flip: pow2_add add: algebra_simps)
    then show ?thesis unfolding fround_pos_def Let_def by (simp only:) simp
  qed
  have "pow2 j * x < 0 \<longleftrightarrow> x < 0" by (simp add: mult_less_0_iff)
  then show ?thesis using pos [of x] pos [of "- x"] by (auto simp: fround_def)
qed

lemma fround_half: "0 < p \<Longrightarrow> fround p (x / 2) = fround p x / 2"
  using fround_scale [of p "- 1" x] by (simp add: pow2_def)

text \<open>Integers of at most \<open>p\<close> bits are represented exactly.\<close>

lemma fround_of_int:
  assumes "\<bar>n\<bar> \<le> 2 ^ p" "0 < p"
  shows "fround p (of_int n) = of_int n"
proof -
  have pos: "fround_pos p (of_int m) = of_int m" if m: "0 < m" "m \<le> 2 ^ p" for m :: int
  proof -
    let ?x = "of_int m :: rat"
    have x: "0 < ?x" using m(1) by simp
    let ?k = "expo ?x - int p + 1"
    have "\<exists>j :: int. ?x / pow2 ?k = of_int j"
    proof (cases "m = 2 ^ p")
      case True
      have "?x = pow2 (int p)" using True by (simp add: pow2_def)
      then have "?x / pow2 ?k = pow2 (int p - ?k)" by (simp only: pow2_diff)
      moreover have "0 \<le> int p - ?k"
      proof -
        have "expo ?x = int p" by (rule expo_unique) (use \<open>?x = pow2 (int p)\<close> x in \<open>simp_all add: pow2_Suc\<close>)
        then show ?thesis using assms(2) by simp
      qed
      ultimately show ?thesis
        by (intro exI [of _ "2 ^ nat (int p - ?k)"]) (simp add: pow2_def)
    next
      case False
      then have "?x < of_int (2 ^ p)" using m(2) by (simp only: of_int_less_iff)
      then have "?x < pow2 (int p)" by (simp add: pow2_def)
      then have "expo ?x < int p"
        using expo_bounds(1) [OF x] pow2_strict by (meson le_less_trans)
      then have k: "?k \<le> 0" by simp
      have "pow2 ?k * pow2 (- ?k) = 1" using pow2_add [of ?k "- ?k"] by (simp add: pow2_def)
      then have "?x / pow2 ?k = ?x * pow2 (- ?k)" by (simp add: divide_eq_eq mult.assoc mult.commute [of "pow2 ?k"])
      moreover have "pow2 (- ?k) = of_int (2 ^ nat (- ?k))" using k by (simp add: pow2_def)
      ultimately show ?thesis by (intro exI [of _ "m * 2 ^ nat (- ?k)"]) simp
    qed
    then obtain j :: int where j: "?x / pow2 ?k = of_int j" ..
    then have "fround_pos p ?x = of_int j * pow2 ?k" by (simp add: fround_pos_def Let_def)
    also have "\<dots> = ?x" using j by (simp add: divide_eq_eq)
    finally show ?thesis .
  qed
  show ?thesis using pos [of n] pos [of "- n"] assms(1) by (cases n "0 :: int" rule: linorder_cases) (auto simp: fround_def)
qed


lemma fround_idem:
  assumes "0 < p"
  shows "fround p (fround p x) = fround p x"
proof -
  have pos: "fround p (fround_pos p y) = fround_pos p y" if y: "0 < y" for y
  proof -
    let ?u = "expo y - int p + 1"
    let ?k = "round_even (y / pow2 ?u)"
    have k: "2 ^ (p - 1) \<le> ?k" "?k \<le> 2 ^ p" using round_even_between [OF scaled_bounds [OF y assms]] by auto
    then have "0 \<le> ?k" by (meson order_trans zero_le_numeral zero_le_power)
    then have "fround p (of_int ?k) = of_int ?k" using k(2) assms by (intro fround_of_int) simp_all
    then have "fround p (pow2 ?u * of_int ?k) = pow2 ?u * of_int ?k" using fround_scale [OF assms] by simp
    then show ?thesis by (simp add: fround_pos_def Let_def mult.commute)
  qed
  show ?thesis
    using pos [of x] pos [of "- x"] fround_minus [of p "fround_pos p (- x)"]
    by (auto simp: fround_def [of p x])
qed

end
