(* ===== verification/Config.thy ===== *)
theory Config
  imports FilePath GoErrors GoFloat
begin

text \<open>
  \<open>internal/config\<close>: the configuration of the handlers and how it is loaded. The YAML decoder with
  its validation is a dependency: functions that use it take it as an argument. Its contract is
  that a decoded handler obeys the \<open>validate\<close> tags, which \<open>handler_valid\<close> and \<open>root_valid\<close> spell
  out.
\<close>

section \<open>handler.go, root.go\<close>

record Handler =
  hName :: string
  hPath :: path
  Command :: "string list"
  Timeout :: duration
  Recursive :: bool
  IncludeHidden :: bool
  MinSizeBytes :: "64 word"
  MaxSizeBytes :: "64 word"
  SettleDuration :: duration
  RetryCount :: int
  RetryDelayInitial :: duration
  RetryDelayFactor :: rat
  RetryDelayMax :: duration
  JournalDir :: path
  JournalRetention :: duration
  SuccessDir :: path
  FailureDir :: path

definition second :: duration where "second = 1000000000"
definition minute :: duration where "minute = 60 * second"
definition hour :: duration where "hour = 60 * minute"

definition HandlerDefaults :: Handler where
  "HandlerDefaults =
     \<lparr>hName = [], hPath = [], Command = [], Timeout = hour, Recursive = False, IncludeHidden = False,
      MinSizeBytes = 0, MaxSizeBytes = 0, SettleDuration = second, RetryCount = 2,
      RetryDelayInitial = 15 * minute, RetryDelayFactor = 3/2, RetryDelayMax = hour,
      JournalDir = ''_/journal'', JournalRetention = 24 * 7 * hour, SuccessDir = ''_/success'',
      FailureDir = ''_/failure''\<rparr>"

text \<open>What the \<open>validate\<close> tags of the structure require.\<close>

definition handler_valid :: "Handler \<Rightarrow> bool" where
  "handler_valid h \<longleftrightarrow>
     hName h \<noteq> [] \<and> hPath h \<noteq> [] \<and> length (Command h) \<ge> 1 \<and> Timeout h \<ge> 0 \<and> SettleDuration h \<ge> 0 \<and>
     RetryCount h \<ge> 0 \<and> RetryDelayInitial h > 0 \<and> RetryDelayFactor h \<ge> 1 \<and>
     (RetryDelayMax h = 0 \<or> RetryDelayMax h \<ge> RetryDelayInitial h) \<and> JournalDir h \<noteq> [] \<and>
     (JournalRetention h \<ge> hour \<or> JournalRetention h \<ge> Timeout h \<or> JournalRetention h \<ge> RetryDelayMax h) \<and>
     SuccessDir h \<noteq> [] \<and> FailureDir h \<noteq> []"

record Root =
  Handlers :: "Handler list"

definition root_valid :: "Root \<Rightarrow> bool" where
  "root_valid r \<longleftrightarrow> distinct (map hName (Handlers r)) \<and> (\<forall>h \<in> set (Handlers r). handler_valid h)"

text \<open>\<open>UnmarshalYAML\<close>: \<open>unmarshal\<close> stores the values found in the document over those of its
  argument.\<close>

definition UnmarshalYAML :: "(Handler \<Rightarrow> err \<times> Handler) \<Rightarrow> Handler \<Rightarrow> err \<times> Handler" where
  "UnmarshalYAML unmarshal h = unmarshal HandlerDefaults"

section \<open>yaml.go, validate.go\<close>

definition io_EOF :: goerr where
  "io_EOF = ErrNew ''EOF''"

definition ErrMultipleFragments :: goerr where
  "ErrMultipleFragments = ErrNew ''input contained multiple YAML fragments''"

text \<open>A decoder on the state of its input: \<open>decode\<close> reads a document into a value, \<open>decode_any\<close>
  into an empty structure.\<close>

record ('s, 'v) decoder =
  decode :: "'v \<Rightarrow> 's \<Rightarrow> err \<times> 'v \<times> 's"
  decode_any :: "'s \<Rightarrow> err \<times> 's"

definition validatedUnmarshal :: "('s, 'v) decoder \<Rightarrow> 'v \<Rightarrow> 's \<Rightarrow> err \<times> 'v" where
  "validatedUnmarshal dec v s =
     (case decode dec v s of
        (err, v1, s1) \<Rightarrow>
          if \<not> (case err of None \<Rightarrow> True | Some e \<Rightarrow> errors_Is e io_EOF) then (err, v1)
          else case decode_any dec s1 of
                 (err2, s2) \<Rightarrow>
                   if \<not> (case err2 of None \<Rightarrow> False | Some e \<Rightarrow> errors_Is e io_EOF)
                   then (Some ErrMultipleFragments, v1)
                   else (None, v1))"

definition Unmarshal :: "('s, Root) decoder \<Rightarrow> Root \<Rightarrow> 's \<Rightarrow> err \<times> Root" where
  "Unmarshal dec r s = validatedUnmarshal dec \<lparr>Handlers = []\<rparr> s"

text \<open>An encoder on the state of its output.\<close>

record ('s, 'v) encoder =
  enc_Encode :: "'v \<Rightarrow> 's \<Rightarrow> err \<times> 's"
  enc_Close :: "'s \<Rightarrow> err \<times> 's"

definition marshal :: "('s, 'v) encoder \<Rightarrow> 'v \<Rightarrow> 's \<Rightarrow> err \<times> 's" where
  "marshal enc v s =
     (case enc_Encode enc v s of
        (Some e, s1) \<Rightarrow> (Some e, s1)
      | (None, s1) \<Rightarrow> enc_Close enc s1)"

definition Marshal :: "('s, Root) encoder \<Rightarrow> Root \<Rightarrow> 's \<Rightarrow> err \<times> 's" where
  "Marshal enc r s = marshal enc r s"

text \<open>The name validation errors use for a field: the YAML name from its tag.\<close>

definition tag_name :: "string \<Rightarrow> string" where
  "tag_name tag = (let name = hd (split_on (CHR '','') tag) in if name = ''-'' then [] else name)"

section \<open>flag.go\<close>

definition PathEnvVar :: string where
  "PathEnvVar = ''BAAMHACKL_CONFIG_FILE''"

text \<open>\<open>SetFlags\<close>: the default of the path is an environment variable.\<close>

definition config_SetFlags :: "(string \<Rightarrow> string) \<Rightarrow> path" where
  "config_SetFlags getenv = getenv PathEnvVar"

definition ErrMissingFile :: goerr where
  "ErrMissingFile = ErrNew ''missing configuration file''"

definition read :: "(path \<Rightarrow> goerr + 's) \<Rightarrow> ('s, Root) decoder \<Rightarrow> Root \<Rightarrow> path \<Rightarrow> err \<times> Root" where
  "read os_Open dec cfg path =
     (case os_Open path of
        Inl e \<Rightarrow> (Some e, cfg)
      | Inr fh \<Rightarrow> Unmarshal dec cfg fh)"

definition Load :: "(path \<Rightarrow> goerr + 's) \<Rightarrow> ('s, Root) decoder \<Rightarrow> path \<Rightarrow> goerr + Root" where
  "Load os_Open dec flag_path =
     (if flag_path = [] then Inl ErrMissingFile
      else case read os_Open dec \<lparr>Handlers = []\<rparr> flag_path of
             (Some e, _) \<Rightarrow> Inl (ErrWrap ''loading configuration failed'' e)
           | (None, cfg) \<Rightarrow> Inr cfg)"

section \<open>Properties\<close>

lemma handler_defaults_valid:
  "hName h \<noteq> [] \<Longrightarrow> hPath h \<noteq> [] \<Longrightarrow> Command h \<noteq> [] \<Longrightarrow>
   h = HandlerDefaults\<lparr>hName := hName h, hPath := hPath h, Command := Command h\<rparr> \<Longrightarrow> handler_valid h"
  by (subst handler_valid_def, cases h)
    (auto simp: HandlerDefaults_def second_def minute_def hour_def Suc_le_eq)

text \<open>
  A configuration is accepted only if the input is a single valid document: \<open>Load\<close> succeeds
  exactly when a path is given, the file opens, its first document decodes (or there is none) and
  nothing follows it. The result then satisfies the validation rules, and an empty input gives
  a configuration without handlers.
\<close>

theorem load_single_document:
  assumes "\<And>v s v1 s1. decode dec v s = (None, v1, s1) \<Longrightarrow> root_valid v1"
    and "\<And>v s e v1 s1. decode dec v s = (Some e, v1, s1) \<Longrightarrow> errors_Is e io_EOF \<Longrightarrow> v1 = v"
  shows "Load os_Open dec p = Inr cfg \<longleftrightarrow>
    p \<noteq> [] \<and> (\<exists>s err s1 e s2. os_Open p = Inr s \<and> decode dec \<lparr>Handlers = []\<rparr> s = (err, cfg, s1) \<and>
      (err = None \<and> root_valid cfg \<or> err \<noteq> None \<and> errors_Is (the err) io_EOF \<and> Handlers cfg = []) \<and>
      decode_any dec s1 = (Some e, s2) \<and> errors_Is e io_EOF)"
proof -
  have "Load os_Open dec p = Inr cfg \<longleftrightarrow>
    p \<noteq> [] \<and> (\<exists>s err s1 e s2. os_Open p = Inr s \<and> decode dec \<lparr>Handlers = []\<rparr> s = (err, cfg, s1) \<and>
      (err = None \<or> errors_Is (the err) io_EOF) \<and> decode_any dec s1 = (Some e, s2) \<and> errors_Is e io_EOF)"
    by (auto simp: Load_def read_def Unmarshal_def validatedUnmarshal_def
        split: sum.splits prod.splits option.splits if_splits)
  moreover have "decode dec \<lparr>Handlers = []\<rparr> s = (Some e, cfg, s1) \<Longrightarrow> errors_Is e io_EOF \<Longrightarrow> Handlers cfg = []"
    for s e s1 using assms(2) by fastforce
  moreover have "decode dec \<lparr>Handlers = []\<rparr> s = (None, cfg, s1) \<Longrightarrow> root_valid cfg" for s s1
    using assms(1) by blast
  ultimately show ?thesis by (metis option.exhaust_sel option.sel)
qed

text \<open>A decoder of documents that are already parsed.\<close>

definition list_decoder :: "(Root list, Root) decoder" where
  "list_decoder =
     \<lparr>decode = (\<lambda>v s. case s of [] \<Rightarrow> (Some io_EOF, v, [])
        | r # rs \<Rightarrow> if root_valid r then (None, r, rs) else (Some (ErrNew ''invalid''), v, rs)),
      decode_any = (\<lambda>s. case s of [] \<Rightarrow> (Some io_EOF, []) | r # rs \<Rightarrow> (None, rs))\<rparr>"

definition sample_handler :: Handler where
  "sample_handler = HandlerDefaults\<lparr>hName := ''h'', hPath := ''/in'', Command := [''cat'']\<rparr>"

theorem load_single_document_witness:
  "Load (\<lambda>p. Inr [\<lparr>Handlers = [sample_handler]\<rparr>]) list_decoder ''cfg'' = Inr \<lparr>Handlers = [sample_handler]\<rparr> \<and>
   \<not> Load (\<lambda>p. Inr [\<lparr>Handlers = [sample_handler]\<rparr>, \<lparr>Handlers = []\<rparr>]) list_decoder ''cfg'' = Inr \<lparr>Handlers = [sample_handler]\<rparr>"
proof -
  have v: "root_valid \<lparr>Handlers = [sample_handler]\<rparr>"
    by (simp add: root_valid_def) (rule handler_defaults_valid, simp_all add: sample_handler_def HandlerDefaults_def)
  have a: "decode list_decoder v s = (None, v1, s1) \<Longrightarrow> root_valid v1"
    and b: "decode list_decoder v s = (Some e, v1, s1) \<Longrightarrow> errors_Is e io_EOF \<Longrightarrow> v1 = v" for v s v1 s1 e
    by (auto simp: list_decoder_def split: list.splits if_splits)
  show ?thesis
  proof
    show "Load (\<lambda>p. Inr [\<lparr>Handlers = [sample_handler]\<rparr>]) list_decoder ''cfg'' = Inr \<lparr>Handlers = [sample_handler]\<rparr>"
      by (rule iffD2 [OF load_single_document [OF a b]]) (simp_all add: list_decoder_def v io_EOF_def)
    show "\<not> Load (\<lambda>p. Inr [\<lparr>Handlers = [sample_handler]\<rparr>, \<lparr>Handlers = []\<rparr>]) list_decoder ''cfg'' =
        Inr \<lparr>Handlers = [sample_handler]\<rparr>"
    proof
      assume "Load (\<lambda>p. Inr [\<lparr>Handlers = [sample_handler]\<rparr>, \<lparr>Handlers = []\<rparr>]) list_decoder ''cfg'' =
        Inr \<lparr>Handlers = [sample_handler]\<rparr>"
      from iffD1 [OF load_single_document [OF a b] this] show False
        by (auto simp: list_decoder_def v)
    qed
  qed
qed

end
