(* ===== verification/Journal.thy ===== *)
theory Journal
  imports ArchiveNames Prune Config
begin

text \<open>
  \<open>internal/journal\<close>: the directories a handler keeps below its root: journal entries, and the
  archives of files whose processing succeeded or failed. New entries get unique names, and
  pruning removes old ones from all three.
\<close>

section \<open>Definitions\<close>

record dirOptions =
  d_path :: path
  d_opts :: Options

record Journal =
  cfg :: Handler
  journalDir :: dirOptions
  successDir :: dirOptions
  failureDir :: dirOptions

definition journal_New :: "Handler \<Rightarrow> Journal" where
  "journal_New c =
     \<lparr>cfg = c,
      journalDir = \<lparr>d_path = JournalDir c, d_opts = DefaultOptions\<lparr>BeforeExtension := False\<rparr>\<rparr>,
      successDir = \<lparr>d_path = SuccessDir c, d_opts = DefaultOptions\<rparr>,
      failureDir = \<lparr>d_path = FailureDir c, d_opts = DefaultOptions\<rparr>\<rparr>"

definition ensureDir :: "'w os \<Rightarrow> Journal \<Rightarrow> path \<Rightarrow> 'w \<Rightarrow> (goerr + path) \<times> 'w" where
  "ensureDir os j path w = EnsureRelDir os (hPath (cfg j)) path ModePerm w"

definition ensureDirForName ::
  "'w os \<Rightarrow> 'r Runtime \<Rightarrow> Journal \<Rightarrow> dirOptions \<Rightarrow> string \<Rightarrow> 'w \<Rightarrow> (goerr + Generator) \<times> 'w" where
  "ensureDirForName os rt j d hint w =
     (let hint1 = Base hint
      in if hint1 = [] then (Inl (ErrWrap ''non-empty hint is required'' ErrInvalid), w)
         else case ensureDir os j (d_path d) w of
                (Inl e, w1) \<Rightarrow> (Inl e, w1)
              | (Inr base, w1) \<Rightarrow> (uniquename_New rt (Join [base, hint1]) (d_opts d), w1))"

text \<open>The functions that try one name after the other may run forever: then the result is \<open>None\<close>.
  Besides the world they pass on the state of the random number generator.\<close>

definition CreateTaskDir ::
  "'w os \<Rightarrow> segmenter \<Rightarrow> 'r Runtime \<Rightarrow> Journal \<Rightarrow> string \<Rightarrow> 'r \<times> 'w \<Rightarrow> ((goerr + path) \<times> 'r \<times> 'w) option" where
  "CreateTaskDir os seg rt j hint s =
     (case ensureDirForName os rt j (journalDir j) hint (snd s) of
        (Inl e, w1) \<Rightarrow> Some (Inl e, fst s, w1)
      | (Inr g, w1) \<Rightarrow>
          map_option (\<lambda>(res, (g', r'), w2). (res, r', w2)) (MakeAvailableDir os (gen_iter seg rt) (g, fst s) w1))"

definition MoveToArchive ::
  "'w os \<Rightarrow> segmenter \<Rightarrow> 'r Runtime \<Rightarrow> Journal \<Rightarrow> path \<Rightarrow> bool \<Rightarrow> 'r \<times> 'w \<Rightarrow>
   ((goerr + path) \<times> 'r \<times> 'w) option" where
  "MoveToArchive os seg rt j path success s =
     (let destDir = (if success then successDir j else failureDir j)
      in case ensureDirForName os rt j destDir (Base path) (snd s) of
           (Inl e, w1) \<Rightarrow> Some (Inl e, fst s, w1)
         | (Inr g, w1) \<Rightarrow>
             map_option (\<lambda>(res, (g', r'), w2). (res, r', w2))
               (RenameToAvailableName os path (gen_iter seg rt) (g, fst s) w1))"

text \<open>\<open>Time.Truncate\<close> rounds down to a multiple of a duration since the zero time.\<close>

definition Truncate :: "gotime \<Rightarrow> duration \<Rightarrow> gotime" where
  "Truncate t d = (if d \<le> 0 then t else Time (nanos t - nanos t mod d))"

definition prune_deadline :: "gotime \<Rightarrow> Journal \<Rightarrow> gotime" where
  "prune_deadline t j = Truncate (AddDur t (- JournalRetention (cfg j))) minute"

fun make_pruners ::
  "'w os \<Rightarrow> 'r Runtime \<Rightarrow> Journal \<Rightarrow> gotime \<Rightarrow> dirOptions list \<Rightarrow> 'w \<Rightarrow> (goerr + Pruner list) \<times> 'w" where
  "make_pruners os rt j deadline [] w = (Inr [], w)"
| "make_pruners os rt j deadline (i # is) w =
     (case ensureDir os j (d_path i) w of
        (Inl e, w1) \<Rightarrow> (Inl e, w1)
      | (Inr dir, w1) \<Rightarrow>
          (case make_pruners os rt j deadline is w1 of
             (Inl e, w2) \<Rightarrow> (Inl e, w2)
           | (Inr ps, w2) \<Rightarrow>
               (Inr (\<lparr>Dir = dir, Accept = MakeAgeFilter rt deadline (d_opts i)\<rparr> # ps), w2)))"

fun run_pruners :: "append_func \<Rightarrow> 'w prune_env \<Rightarrow> Pruner list \<Rightarrow> err \<Rightarrow> 'w \<Rightarrow> err \<times> 'w" where
  "run_pruners app env [] allErrors w = (allErrors, w)"
| "run_pruners app env (p # ps) allErrors w =
     (case prune_Run app env p w of (err, w1) \<Rightarrow> run_pruners app env ps (app allErrors err) w1)"

definition journal_Prune ::
  "append_func \<Rightarrow> 'w os \<Rightarrow> 'w prune_env \<Rightarrow> 'r Runtime \<Rightarrow> gotime \<Rightarrow> Journal \<Rightarrow> 'w \<Rightarrow> err \<times> 'w" where
  "journal_Prune app os env rt t j w =
     (case make_pruners os rt j (prune_deadline t j) [journalDir j, successDir j, failureDir j] w of
        (Inl e, w1) \<Rightarrow> (Some e, w1)
      | (Inr pruners, w1) \<Rightarrow> run_pruners app env pruners None w1)"

section \<open>Directories\<close>

lemma ensureDir_abs:
  assumes "IsAbs (hPath (cfg j))" "ensureDir os j p w = (Inr d, w1)"
  shows "IsAbs d \<and> d = (if IsAbs p then Clean p else Join [Clean (hPath (cfg j)), p])"
proof -
  obtain q where q: "q = (if IsAbs p then Clean p else Join [Clean (hPath (cfg j)), p])" by simp
  then have "IsAbs q" using assms(1) by (auto simp: IsAbs_Join)
  have "\<exists>r. Resolve (hPath (cfg j)) p = Inr r \<and> Path r = q"
    by (rule Resolve_abs [OF assms(1) q]) simp
  then obtain r where r: "Resolve (hPath (cfg j)) p = Inr r" "Path r = q" by blast
  then have "d = q" using assms(2)
    by (auto simp: ensureDir_def EnsureRelDir_def split: if_splits prod.splits option.splits)
  then show ?thesis using q \<open>IsAbs q\<close> by simp
qed

lemma ensureDir_keeps:
  assumes "file_system os valid look" "valid w" "IsAbs (hPath (cfg j))" "ensureDir os j p w = (r, w1)"
  shows "valid w1 \<and> (\<forall>q. IsAbs q \<longrightarrow> look w q \<noteq> None \<longrightarrow> look w1 q = look w q)"
  using EnsureRelDir_keeps [OF assms(1-3), of p ModePerm] assms(4) by (simp add: ensureDir_def)

lemma ensureDirForName_gen:
  assumes "file_system os valid look" "valid w" "IsAbs (hPath (cfg j))" "runtime_law seg rt"
    and "TimePrefixEnabled (d_opts d)" "normal (Base hint)" "Base hint \<noteq> ''..''"
    and "ensureDirForName os rt j d hint w = (res, w1)"
  shows "valid w1 \<and> (\<forall>q. IsAbs q \<longrightarrow> look w q \<noteq> None \<longrightarrow> look w1 q = look w q) \<and>
    (\<forall>g. res = Inr g \<longrightarrow> gen_ok g \<and> IsAbs (g_dir g) \<and>
       comps (g_dir g) = comps (if IsAbs (d_path d) then Clean (d_path d) else Join [Clean (hPath (cfg j)), d_path d]))"
proof -
  have h: "Base hint \<noteq> []" using assms(6) by (simp add: normal_def)
  obtain r v where e: "ensureDir os j (d_path d) w = (r, v)" by fastforce
  note keeps = ensureDir_keeps [OF assms(1-3) e]
  have w1: "w1 = v" using assms(8) e h by (auto simp: ensureDirForName_def split: sum.splits)
  show ?thesis
  proof (cases r)
    case (Inl x)
    then show ?thesis using keeps assms(8) e h by (auto simp: ensureDirForName_def)
  next
    case (Inr base)
    have b: "IsAbs base" "base = (if IsAbs (d_path d) then Clean (d_path d) else Join [Clean (hPath (cfg j)), d_path d])"
      using ensureDir_abs [OF assms(3) e [unfolded Inr]] by auto
    obtain g where g: "uniquename_New rt (Join [base, Base hint]) (d_opts d) = Inr g" "gen_ok g"
        "IsAbs (g_dir g)" "comps (g_dir g) = comps base"
      using New_gen_ok [OF assms(4) b(1) assms(6,7)] by blast
    then have "res = Inr g" using assms(8) e Inr h by (simp add: ensureDirForName_def)
    then show ?thesis using keeps w1 g b(2) by simp
  qed
qed

section \<open>Archiving\<close>

definition resolved_dir :: "Handler \<Rightarrow> path \<Rightarrow> path" where
  "resolved_dir c d = (if IsAbs d then Clean d else Join [Clean (hPath c), d])"

lemma Base_name: "normal n \<Longrightarrow> Base n = n"
proof -
  assume n: "normal n"
  then have "rev n \<noteq> []" "hd (rev n) \<noteq> slash"
    by (auto simp: normal_def hd_rev dest: last_in_set)
  then have "dropWhile (\<lambda>c. c = slash) (rev n) = rev n" by (cases "rev n") auto
  then show ?thesis using n Split_after(2) [of n] by (simp add: Base_def normal_def)
qed

lemma journal_New_simps [simp]:
  "cfg (journal_New c) = c" "d_path (journalDir (journal_New c)) = JournalDir c"
  "d_path (successDir (journal_New c)) = SuccessDir c" "d_path (failureDir (journal_New c)) = FailureDir c"
  "TimePrefixEnabled (d_opts (journalDir (journal_New c)))"
  "TimePrefixEnabled (d_opts (successDir (journal_New c)))"
  "TimePrefixEnabled (d_opts (failureDir (journal_New c)))"
  by (simp_all add: journal_New_def DefaultOptions_def)

text \<open>The names tried for an entry of a directory, when the directory could be made.\<close>

lemma directory_candidates:
  assumes "file_system os valid look" "valid w" "IsAbs (hPath c)" "runtime_law seg rt"
    and "TimePrefixEnabled (d_opts d)" "normal h" "h \<noteq> ''..''"
    and "ensureDirForName os rt (journal_New c) d h w = (Inr g, w1)"
  obtains "valid w1" "\<forall>q. IsAbs q \<longrightarrow> look w q \<noteq> None \<longrightarrow> look w1 q = look w q"
    "endless (gen_iter seg rt)" "\<And>i. IsAbs (candidate (gen_iter seg rt) (g, r) i)"
    "\<And>i. \<exists>n. normal n \<and> n \<noteq> ''..'' \<and>
       comps (candidate (gen_iter seg rt) (g, r) i) = comps (resolved_dir c (d_path d)) @ [n]"
proof -
  note h = Base_name [OF assms(6)]
  have e: "valid w1 \<and> (\<forall>q. IsAbs q \<longrightarrow> look w q \<noteq> None \<longrightarrow> look w1 q = look w q) \<and>
      gen_ok g \<and> IsAbs (g_dir g) \<and> comps (g_dir g) = comps (resolved_dir c (d_path d))"
    using ensureDirForName_gen [OF assms(1,2) _ assms(4,5) _ _ assms(8)] assms(3,6,7) h
    by (simp add: resolved_dir_def)
  have c: "\<exists>n. normal n \<and> n \<noteq> ''..'' \<and> candidate (gen_iter seg rt) (g, r) i = Join [g_dir g, n]" for i
    using gen_iter_in_dir [OF assms(4), of g r i] e by blast
  have "IsAbs (candidate (gen_iter seg rt) (g, r) i)" for i using c [of i] e by (auto intro: IsAbs_entry)
  moreover have "\<exists>n. normal n \<and> n \<noteq> ''..'' \<and>
      comps (candidate (gen_iter seg rt) (g, r) i) = comps (resolved_dir c (d_path d)) @ [n]" for i
    using c [of i] e comps_entry [of "g_dir g"] by metis
  ultimately show ?thesis using that e gen_iter_endless [OF assms(4)] by blast
qed

lemma MoveToArchive_effect:
  assumes fs: "file_system os valid look" "valid w" "IsAbs (hPath c)" and rt: "runtime_law seg rt"
    and p: "IsAbs path" "normal (Base path)" "Base path \<noteq> ''..''" "look w path \<noteq> None"
    and d: "d = (if success then successDir (journal_New c) else failureDir (journal_New c))"
    and free: "\<And>g w1. ensureDirForName os rt (journal_New c) d (Base path) w = (Inr g, w1) \<Longrightarrow>
      look w1 (candidate (gen_iter seg rt) (g, r) n) = None"
  shows "\<exists>res r' w'. MoveToArchive os seg rt (journal_New c) path success (r, w) = Some (res, r', w') \<and> valid w' \<and>
    (case res of
       Inl e \<Rightarrow> \<forall>q. IsAbs q \<longrightarrow> look w q \<noteq> None \<longrightarrow> look w' q = look w q
     | Inr dest \<Rightarrow> IsAbs dest \<and> look w dest = None \<and> look w' path = None \<and>
         (\<exists>m. normal m \<and> m \<noteq> ''..'' \<and>
            comps dest = comps (resolved_dir c (if success then SuccessDir c else FailureDir c)) @ [m]) \<and>
         map_option fi_id (look w' dest) = map_option fi_id (look w path) \<and>
         (\<forall>q. IsAbs q \<longrightarrow> look w q \<noteq> None \<longrightarrow> \<not> below path q \<longrightarrow> \<not> below dest q \<longrightarrow> look w' q = look w q))"
proof -
  have tp: "TimePrefixEnabled (d_opts d)" using d by simp
  have dp: "d_path d = (if success then SuccessDir c else FailureDir c)" using d by simp
  obtain res1 w1 where e: "ensureDirForName os rt (journal_New c) d (Base path) w = (res1, w1)" by fastforce
  show ?thesis
  proof (cases res1)
    case (Inl x)
    have "valid w1 \<and> (\<forall>q. IsAbs q \<longrightarrow> look w q \<noteq> None \<longrightarrow> look w1 q = look w q)"
      using ensureDirForName_gen [OF fs(1,2) _ rt tp _ _ e] fs(3) p(2,3) Base_name by simp
    then show ?thesis using e Inl d by (simp add: MoveToArchive_def Let_def)
  next
    case (Inr g)
    note e = e [unfolded Inr]
    obtain w1: "valid w1" "\<forall>q. IsAbs q \<longrightarrow> look w q \<noteq> None \<longrightarrow> look w1 q = look w q" "endless (gen_iter seg rt)"
        "\<And>i. IsAbs (candidate (gen_iter seg rt) (g, r) i)"
        "\<And>i. \<exists>n. normal n \<and> n \<noteq> ''..'' \<and>
           comps (candidate (gen_iter seg rt) (g, r) i) = comps (resolved_dir c (d_path d)) @ [n]"
      using directory_candidates [OF fs rt tp p(2,3) e, of r] by blast
    from file_system.available_name [OF fs(1) w1(1,3,4) p(1) free [OF e]] obtain res gr w'
      where r: "RenameToAvailableName os path (gen_iter seg rt) (g, r) w1 = Some (res, gr, w')" "valid w'"
        "case res of Inl e \<Rightarrow> w' = w1
         | Inr q \<Rightarrow> \<exists>k \<le> n. q = candidate (gen_iter seg rt) (g, r) k \<and>
             (\<forall>i < k. look w1 (candidate (gen_iter seg rt) (g, r) i) \<noteq> None) \<and>
             look w1 q = None \<and> look w1 path \<noteq> None \<and> look w' path = None \<and>
             map_option fi_id (look w' q) = map_option fi_id (look w1 path) \<and>
             (\<forall>x. IsAbs x \<longrightarrow> \<not> below path x \<longrightarrow> \<not> below q x \<longrightarrow> look w' x = look w1 x)" by blast
    have m: "MoveToArchive os seg rt (journal_New c) path success (r, w) = Some (res, snd gr, w')"
      using e r(1) d by (simp add: MoveToArchive_def Let_def split: prod.split)
    show ?thesis
    proof (cases res)
      case (Inr dest)
      then obtain k where k: "dest = candidate (gen_iter seg rt) (g, r) k" "look w1 dest = None" "look w' path = None"
          "map_option fi_id (look w' dest) = map_option fi_id (look w1 path)"
          "\<forall>x. IsAbs x \<longrightarrow> \<not> below path x \<longrightarrow> \<not> below dest x \<longrightarrow> look w' x = look w1 x"
        using r(3) by auto
      have a: "IsAbs dest" using w1(4) k(1) by blast
      then have "look w dest = None" using w1(2) k(2) by metis
      moreover have "look w1 path = look w path" using w1(2) p(1,4) by blast
      ultimately show ?thesis using m r(2) Inr a k w1(2) w1(5) [of k] dp by auto
    qed (use m r w1(2) in simp)
  qed
qed

lemma CreateTaskDir_effect:
  assumes fs: "file_system os valid look" "valid w" "IsAbs (hPath c)" and rt: "runtime_law seg rt"
    and h: "normal (Base hint)" "Base hint \<noteq> ''..''"
    and free: "\<And>g w1. ensureDirForName os rt (journal_New c) (journalDir (journal_New c)) hint w = (Inr g, w1) \<Longrightarrow>
      look w1 (candidate (gen_iter seg rt) (g, r) n) = None"
  shows "\<exists>res r' w'. CreateTaskDir os seg rt (journal_New c) hint (r, w) = Some (res, r', w') \<and> valid w' \<and>
    (\<forall>q. IsAbs q \<longrightarrow> look w q \<noteq> None \<longrightarrow> look w' q = look w q) \<and>
    (\<forall>dir. res = Inr dir \<longrightarrow> IsAbs dir \<and> look w dir = None \<and> (\<exists>fi. look w' dir = Some fi \<and> IsDir fi) \<and>
       (\<exists>m. normal m \<and> m \<noteq> ''..'' \<and> comps dir = comps (resolved_dir c (JournalDir c)) @ [m]))"
proof -
  let ?d = "journalDir (journal_New c)"
  have b: "ensureDirForName os rt (journal_New c) ?d hint w = ensureDirForName os rt (journal_New c) ?d (Base hint) w"
    using Base_name [OF h(1)] by (simp add: ensureDirForName_def)
  obtain res1 w1 where e: "ensureDirForName os rt (journal_New c) ?d hint w = (res1, w1)" by fastforce
  have keeps: "valid w1 \<and> (\<forall>q. IsAbs q \<longrightarrow> look w q \<noteq> None \<longrightarrow> look w1 q = look w q)"
    using ensureDirForName_gen [OF fs(1,2) _ rt _ _ _ e] fs(3) h by simp
  show ?thesis
  proof (cases res1)
    case (Inr g)
    note e = e [unfolded Inr]
    obtain w1: "endless (gen_iter seg rt)" "\<And>i. IsAbs (candidate (gen_iter seg rt) (g, r) i)"
        "\<And>i. \<exists>n. normal n \<and> n \<noteq> ''..'' \<and>
           comps (candidate (gen_iter seg rt) (g, r) i) = comps (resolved_dir c (d_path ?d)) @ [n]"
      using directory_candidates [OF fs rt _ h e [unfolded b], of r] by auto
    from file_system.available_dir [OF fs(1) _ w1(1,2) free [OF e]] keeps obtain res gr w'
      where r: "MakeAvailableDir os (gen_iter seg rt) (g, r) w1 = Some (res, gr, w')" "valid w'"
        "case res of Inl e \<Rightarrow> w' = w1
         | Inr q \<Rightarrow> \<exists>k \<le> n. q = candidate (gen_iter seg rt) (g, r) k \<and>
             (\<forall>i < k. look w1 (candidate (gen_iter seg rt) (g, r) i) \<noteq> None) \<and>
             look w1 q = None \<and> (\<exists>fi. look w' q = Some fi \<and> IsDir fi) \<and>
             (\<forall>x. IsAbs x \<longrightarrow> Clean x \<noteq> Clean q \<longrightarrow> look w' x = look w1 x)" by blast
    have m: "CreateTaskDir os seg rt (journal_New c) hint (r, w) = Some (res, snd gr, w')"
      using e r(1) by (simp add: CreateTaskDir_def split: prod.split)
    show ?thesis
    proof (cases res)
      case (Inr dir)
      then obtain k where k: "dir = candidate (gen_iter seg rt) (g, r) k" "look w1 dir = None"
          "\<exists>fi. look w' dir = Some fi \<and> IsDir fi" "\<forall>x. IsAbs x \<longrightarrow> Clean x \<noteq> Clean dir \<longrightarrow> look w' x = look w1 x"
        using r(3) by auto
      have a: "IsAbs dir" using w1(2) k(1) by blast
      have "look w' q = look w q" if "IsAbs q" "look w q \<noteq> None" for q
        using that k(2,4) keeps file_system.look_clean [OF fs(1), of w1 q dir] a by (cases "Clean q = Clean dir") auto
      moreover have "look w dir = None" using keeps k(2) a by metis
      ultimately show ?thesis using m r(2) Inr a k(1,3) w1(3) [of k] by auto
    qed (use m r keeps in simp)
  qed (use e keeps in \<open>simp add: CreateTaskDir_def\<close>)
qed

section \<open>Pruning all directories\<close>

lemma below_trans: "below p q \<Longrightarrow> below q r \<Longrightarrow> below p r"
  by (auto simp: below_def dest: prefix_order.trans)

locale journal_system = file_system os inv look + prune_system env inv look held
  for os :: "'w os" and env :: "'w prune_env" and inv look held
begin

lemma make_pruners_effect:
  assumes "inv w" "IsAbs (hPath c)" "make_pruners os rt (journal_New c) t ds w = (res, w1)"
  shows "inv w1 \<and> (\<forall>q. IsAbs q \<longrightarrow> look w q \<noteq> None \<longrightarrow> look w1 q = look w q) \<and>
    (\<forall>ps. res = Inr ps \<longrightarrow>
       ps = map (\<lambda>d. \<lparr>Dir = resolved_dir c (d_path d), Accept = MakeAgeFilter rt t (d_opts d)\<rparr>) ds \<and>
       (\<forall>p \<in> set ps. IsAbs (Dir p)))"
  using assms(1,3)
proof (induction ds arbitrary: w res)
  case (Cons d ds)
  obtain r v where e: "ensureDir os (journal_New c) (d_path d) w = (r, v)" by fastforce
  have k: "inv v" "\<forall>q. IsAbs q \<longrightarrow> look w q \<noteq> None \<longrightarrow> look v q = look w q"
    using ensureDir_keeps [OF file_system_axioms Cons.prems(1) _ e] assms(2) by auto
  show ?case
  proof (cases r)
    case (Inr dir)
    have dir: "IsAbs dir" "dir = resolved_dir c (d_path d)"
      using ensureDir_abs [OF _ e [unfolded Inr]] assms(2) by (auto simp: resolved_dir_def)
    obtain r2 v2 where m: "make_pruners os rt (journal_New c) t ds v = (r2, v2)" by fastforce
    have "v2 = w1" using Cons.prems(2) e Inr m by (auto split: sum.splits)
    then show ?thesis
      using Cons.IH [OF k(1), of r2] Cons.prems(2) e Inr m k(2) dir by (cases r2) auto
  qed (use Cons.prems k e in auto)
qed simp

lemma run_pruners_effect:
  assumes "multierr_law app" "\<And>p. p \<in> set ps \<Longrightarrow> IsAbs (Dir p)" "inv v"
    "run_pruners app env ps acc v = (err, w')"
    "\<And>q. IsAbs q \<Longrightarrow> look v q \<noteq> look w q \<Longrightarrow>
       \<exists>p \<in> set qs. Clean q = Join [Dir p, lockName] \<or> (\<exists>n. removable look p w n \<and> below (Join [Dir p, n]) q)"
    "\<And>p. p \<in> set qs \<Longrightarrow> IsAbs (Dir p)"
  shows "inv w' \<and> (\<forall>q. IsAbs q \<longrightarrow> look w' q \<noteq> look w q \<longrightarrow>
    (\<exists>p \<in> set (qs @ ps). Clean q = Join [Dir p, lockName] \<or> (\<exists>n. removable look p w n \<and> below (Join [Dir p, n]) q)))"
  using assms(2-)
proof (induction ps arbitrary: qs v acc)
  case (Cons p ps)
  obtain e v1 where r: "prune_Run app env p v = (e, v1)" by fastforce
  have p: "IsAbs (Dir p)" using Cons.prems(1) by simp
  note eff = run_effect [OF assms(1) p Cons.prems(2) r]
  have rest: "run_pruners app env ps (app acc e) v1 = (err, w')" using Cons.prems(3) r by simp
  have step: "\<exists>p \<in> set (qs @ [p]). Clean q = Join [Dir p, lockName] \<or>
      (\<exists>n. removable look p w n \<and> below (Join [Dir p, n]) q)" if q: "IsAbs q" "look v1 q \<noteq> look w q" for q
  proof (cases "look v1 q = look v q \<or> Clean q = Join [Dir p, lockName]")
    case True
    then show ?thesis using Cons.prems(4) [OF q(1)] q(2) by auto
  next
    case False
    then obtain n where n: "removable look p v n" "below (Join [Dir p, n]) q" using eff q(1) by blast
    let ?x = "Join [Dir p, n]"
    show ?thesis
    proof (cases "look v ?x = look w ?x")
      case True
      then show ?thesis using n by (auto simp: removable_def)
    next
      case False
      from Cons.prems(4) [OF IsAbs_entry [OF p] this] obtain p' where p': "p' \<in> set qs"
          "Clean ?x = Join [Dir p', lockName] \<or> (\<exists>m. removable look p' w m \<and> below (Join [Dir p', m]) ?x)" by blast
      have "Clean ?x \<noteq> Join [Dir p', lockName]"
      proof
        assume "Clean ?x = Join [Dir p', lockName]"
        then have "comps ?x = comps (Join [Dir p', lockName])" by (metis comps_Clean)
        then show False
          using n(1) p Cons.prems(5) [OF p'(1)] lockName_normal by (auto simp: removable_def comps_entry)
      qed
      then obtain m where m: "removable look p' w m" "below (Join [Dir p', m]) ?x" using p'(2) by blast
      have "below (Join [Dir p', m]) q" by (rule below_trans [OF m(2) n(2)])
      then show ?thesis using p'(1) m(1) by auto
    qed
  qed
  have "inv w' \<and> (\<forall>q. IsAbs q \<longrightarrow> look w' q \<noteq> look w q \<longrightarrow> (\<exists>p \<in> set ((qs @ [p]) @ ps).
      Clean q = Join [Dir p, lockName] \<or> (\<exists>n. removable look p w n \<and> below (Join [Dir p, n]) q)))"
    by (rule Cons.IH [OF _ _ rest]) (use Cons.prems(1,5) eff step p in auto)
  then show ?case by simp
qed auto

end

lemma lock_inv_mkdir:
  "lock_inv w \<Longrightarrow> os_Mkdir plain_os p m w = (None, w') \<Longrightarrow> \<forall>h \<ge> fresh_handle w'. handles w' h = None"
  by (auto simp: lock_inv_def plain_os_def plain_Mkdir_def new_entry_def split: option.splits if_splits)

lemma lock_inv_rename:
  "lock_inv w \<Longrightarrow> os_RenameNoReplace plain_os p q w = (None, w') \<Longrightarrow> \<forall>h \<ge> fresh_handle w'. handles w' h = None"
  by (auto simp: lock_inv_def plain_os_def plain_Rename_def Let_def split: option.splits if_splits)

interpretation locking: file_system plain_os lock_inv plain_look
proof
  fix w w' :: fs and p q :: path and m :: nat and e :: goerr and fi :: fileinfo
  assume w: "lock_inv w"
  then have l: "linkfree_inv w" by (simp add: lock_inv_def)
  show "lock_inv w' \<and> plain_look w p = None \<and> (\<exists>fi. plain_look w' p = Some fi \<and> IsDir fi) \<and>
      (\<forall>q. IsAbs q \<longrightarrow> Clean q \<noteq> Clean p \<longrightarrow> plain_look w' q = plain_look w q)"
    if "IsAbs p" "os_Mkdir plain_os p m w = (None, w')"
    using linkfree.mkdir_ok [OF l that] lock_inv_mkdir [OF w that(2)] by (simp add: lock_inv_def)
  show "lock_inv w' \<and> plain_look w p \<noteq> None \<and> plain_look w q = None \<and> plain_look w' p = None \<and>
      map_option fi_id (plain_look w' q) = map_option fi_id (plain_look w p) \<and>
      (\<forall>r. IsAbs r \<longrightarrow> \<not> below p r \<longrightarrow> \<not> below q r \<longrightarrow> plain_look w' r = plain_look w r)"
    if "IsAbs p" "IsAbs q" "os_RenameNoReplace plain_os p q w = (None, w')"
    using linkfree.rename_ok [OF l that] lock_inv_rename [OF w that(3)] by (simp add: lock_inv_def)
  show "IsAbs p \<Longrightarrow> os_Lstat plain_os p w =
      (case plain_look w p of None \<Rightarrow> Inl (ErrNo ENOENT) | Some fi \<Rightarrow> Inr fi, w)"
    by (rule linkfree.lstat [OF l])
  show "IsAbs p \<Longrightarrow> IsAbs q \<Longrightarrow> Clean p = Clean q \<Longrightarrow> plain_look w p = plain_look w q"
    by (rule linkfree.look_clean [OF l])
  show "snd (os_Stat plain_os p w) = w" by (rule linkfree.stat_pure [OF l])
  show "IsAbs p \<Longrightarrow> plain_look w p = Some fi \<Longrightarrow> IsDir fi \<Longrightarrow>
      \<exists>fi'. fst (os_Stat plain_os p w) = Inr fi' \<and> IsDir fi'"
    by (rule linkfree.stat_dir [OF l])
  show "IsAbs p \<Longrightarrow> plain_look w p = None \<Longrightarrow> \<exists>e. fst (os_Stat plain_os p w) = Inl e"
    by (rule linkfree.stat_none [OF l])
  show "os_Mkdir plain_os p m w = (Some e, w') \<Longrightarrow> w' = w" by (rule linkfree.mkdir_err [OF l])
  show "IsAbs p \<Longrightarrow> os_Mkdir plain_os p m w = (Some e, w') \<Longrightarrow> os_IsExist e \<Longrightarrow> plain_look w p \<noteq> None"
    by (rule linkfree.mkdir_exist [OF l])
  show "os_RenameNoReplace plain_os p q w = (Some e, w') \<Longrightarrow> w' = w" by (rule linkfree.rename_err [OF l])
  show "IsAbs q \<Longrightarrow> os_RenameNoReplace plain_os p q w = (Some e, w') \<Longrightarrow> os_IsExist e \<Longrightarrow>
      plain_look w q \<noteq> None"
    by (rule linkfree.rename_exist [OF l])
qed

interpretation plain_journal: journal_system plain_os "plain_env ctx" lock_inv plain_look lock_held
  by unfold_locales

section \<open>Properties\<close>

text \<open>
  C29. Archiving a file never loses or overwrites anything: when one of the names that the generator
  offers is free, \<open>MoveToArchive\<close> returns; if it reports a destination, this is an entry of
  the configured success or failure directory that did not exist before, the file is there and
  no longer at its old place, and everything that existed elsewhere is unchanged; if it reports an
  error, everything that existed is unchanged.
\<close>

theorem archive_keeps_files:
  assumes "file_system os valid look" "valid w" "IsAbs (hPath c)" "runtime_law seg rt"
    and "IsAbs path" "normal (Base path)" "Base path \<noteq> ''..''" "look w path \<noteq> None"
    and "d = (if success then successDir (journal_New c) else failureDir (journal_New c))"
    and "\<And>g w1. ensureDirForName os rt (journal_New c) d (Base path) w = (Inr g, w1) \<Longrightarrow>
      look w1 (candidate (gen_iter seg rt) (g, r) n) = None"
  shows "\<exists>res r' w'. MoveToArchive os seg rt (journal_New c) path success (r, w) = Some (res, r', w') \<and>
    (case res of
       Inl e \<Rightarrow> \<forall>q. IsAbs q \<longrightarrow> look w q \<noteq> None \<longrightarrow> look w' q = look w q
     | Inr dest \<Rightarrow> look w dest = None \<and> look w' path = None \<and>
         (\<exists>m. comps dest = comps (resolved_dir c (if success then SuccessDir c else FailureDir c)) @ [m]) \<and>
         map_option fi_id (look w' dest) = map_option fi_id (look w path) \<and>
         (\<forall>q. IsAbs q \<longrightarrow> look w q \<noteq> None \<longrightarrow> \<not> below path q \<longrightarrow> \<not> below dest q \<longrightarrow> look w' q = look w q))"
proof -
  obtain res r' w' where "MoveToArchive os seg rt (journal_New c) path success (r, w) = Some (res, r', w')"
    "case res of
       Inl e \<Rightarrow> \<forall>q. IsAbs q \<longrightarrow> look w q \<noteq> None \<longrightarrow> look w' q = look w q
     | Inr dest \<Rightarrow> IsAbs dest \<and> look w dest = None \<and> look w' path = None \<and>
         (\<exists>m. normal m \<and> m \<noteq> ''..'' \<and>
            comps dest = comps (resolved_dir c (if success then SuccessDir c else FailureDir c)) @ [m]) \<and>
         map_option fi_id (look w' dest) = map_option fi_id (look w path) \<and>
         (\<forall>q. IsAbs q \<longrightarrow> look w q \<noteq> None \<longrightarrow> \<not> below path q \<longrightarrow> \<not> below dest q \<longrightarrow> look w' q = look w q)"
    using MoveToArchive_effect [OF assms] by blast
  then show ?thesis by (cases res) auto
qed

theorem archive_keeps_files_witness:
  "\<exists>r' w' dest. MoveToArchive plain_os byte_segments sample_runtime (journal_New sample_handler) ''/in/f'' True (0, sample_fs) =
       Some (Inr dest, r', w') \<and> plain_look w' ''/in/f'' = None \<and>
     (\<exists>m. comps dest = [''in'', ''_'', ''success'', m])"
proof -
  let ?d = "successDir (journal_New sample_handler)"
  have b: "Base ''/in/f'' = ''f''" "IsAbs ''/in/f''" "IsAbs (hPath sample_handler)" "plain_look sample_fs ''/in/f'' \<noteq> None"
    "comps (resolved_dir sample_handler (SuccessDir sample_handler)) = [''in'', ''_'', ''success'']" by code_simp+
  have free: "plain_look w1 (candidate (gen_iter byte_segments sample_runtime) (g, 0) 0) = None"
    if "ensureDirForName plain_os sample_runtime (journal_New sample_handler) ?d (Base ''/in/f'') sample_fs = (Inr g, w1)" for g w1
  proof -
    let ?e = "ensureDirForName plain_os sample_runtime (journal_New sample_handler) ?d (Base ''/in/f'') sample_fs"
    have "plain_look (snd ?e) (candidate (gen_iter byte_segments sample_runtime) (projr (fst ?e), 0) 0) = None" by code_simp
    then show ?thesis using that by simp
  qed
  have n: "normal (Base ''/in/f'')" "Base ''/in/f'' \<noteq> ''..''" by (simp_all add: b(1) normal_def)
  have ok: "map_option (\<lambda>x. isl (fst x)) (MoveToArchive plain_os byte_segments sample_runtime (journal_New sample_handler)
      ''/in/f'' True (0, sample_fs)) = Some False" by code_simp
  have d: "?d = (if True then successDir (journal_New sample_handler) else failureDir (journal_New sample_handler))" by simp
  note a = archive_keeps_files [where os = plain_os and valid = linkfree_inv and look = plain_look and w = sample_fs
      and c = sample_handler and seg = byte_segments and rt = sample_runtime and path = "''/in/f''" and d = ?d
      and success = True and r = "0 :: nat" and n = 0]
  note a = a [OF linkfree.file_system_axioms sample_fs_inv b(3) sample_runtime_law b(2) n b(4) d free]
  obtain dest r' w' where m: "MoveToArchive plain_os byte_segments sample_runtime (journal_New sample_handler) ''/in/f'' True
      (0, sample_fs) = Some (Inr dest, r', w')"
  proof -
    obtain res r' w' where x: "MoveToArchive plain_os byte_segments sample_runtime (journal_New sample_handler) ''/in/f''
        True (0, sample_fs) = Some (res, r', w')" "\<not> isl res"
      using ok by (auto simp: map_option_case split: option.splits)
    show ?thesis by (rule that [of "projr res" r' w']) (use x in simp)
  qed
  show ?thesis
    by (intro exI [of _ r'] exI [of _ w'] exI [of _ dest]) (use a m b(5) in simp)
qed

text \<open>Each pruner of the journal removes only entries of its directory that are old enough.\<close>

lemma pruner_of_journal:
  assumes "ps = map (\<lambda>d. \<lparr>Dir = resolved_dir c (d_path d),
      Accept = MakeAgeFilter rt (prune_deadline t (journal_New c)) (d_opts d)\<rparr>)
      [journalDir (journal_New c), successDir (journal_New c), failureDir (journal_New c)]" "p \<in> set ps"
  shows "\<exists>d \<in> {JournalDir c, SuccessDir c, FailureDir c}. Dir p = resolved_dir c d \<and>
    (\<forall>n. removable look p w n \<longrightarrow> normal n \<and> n \<noteq> ''..'' \<and> n \<noteq> lockName \<and>
       (\<exists>fi. look w (Join [resolved_dir c d, n]) = Some fi \<and> nanos (fi_mtime fi) \<le> nanos t - JournalRetention c))"
proof -
  let ?j = "journal_New c"
  have dl: "fi_mtime fi \<le> prune_deadline t ?j \<Longrightarrow> nanos (fi_mtime fi) \<le> nanos t - JournalRetention c" for fi
    by (auto simp: prune_deadline_def Truncate_def AddDur_def less_eq_gotime_def minute_def second_def
        intro: order_trans)
  obtain dd where dd: "dd \<in> {journalDir ?j, successDir ?j, failureDir ?j}"
      "p = \<lparr>Dir = resolved_dir c (d_path dd), Accept = MakeAgeFilter rt (prune_deadline t ?j) (d_opts dd)\<rparr>"
    using assms(2) unfolding assms(1) set_map by (elim imageE) (simp only: list.set)
  then have "d_path dd \<in> {JournalDir c, SuccessDir c, FailureDir c}" by auto
  then show ?thesis
    using dd(2) dl by (intro bexI [of _ "d_path dd"]) (auto simp: removable_def MakeAgeFilter_iff)
qed

text \<open>
  C30. Pruning the journal is confined to old entries of its three directories. After the directories
  have been made (which changes nothing that exists), an entry changes or vanishes only if it is
  the lock file of the journal, success or failure directory, or at or below an entry of one of
  them that was last modified before the retention period began.
\<close>

theorem journal_prune_confined:
  assumes "file_system os valid look" "prune_system env valid look held" "multierr_law app"
    and "valid w" "IsAbs (hPath c)" "journal_Prune app os env rt t (journal_New c) w = (err, w')"
  shows "\<exists>w1. (\<forall>q. IsAbs q \<longrightarrow> look w q \<noteq> None \<longrightarrow> look w1 q = look w q) \<and>
    (\<forall>q. IsAbs q \<longrightarrow> look w' q \<noteq> look w1 q \<longrightarrow>
       (\<exists>d \<in> {JournalDir c, SuccessDir c, FailureDir c}.
          Clean q = Join [resolved_dir c d, lockName] \<or>
          (\<exists>n fi. normal n \<and> n \<noteq> ''..'' \<and> n \<noteq> lockName \<and> look w1 (Join [resolved_dir c d, n]) = Some fi \<and>
             nanos (fi_mtime fi) \<le> nanos t - JournalRetention c \<and> below (Join [resolved_dir c d, n]) q)))"
proof -
  let ?j = "journal_New c"
  have sys: "journal_system os env valid look held" using assms(1,2) by (simp add: journal_system_def)
  obtain res w1 where m: "make_pruners os rt ?j (prune_deadline t ?j) [journalDir ?j, successDir ?j, failureDir ?j] w = (res, w1)"
    by fastforce
  note mk = journal_system.make_pruners_effect [OF sys assms(4,5) m]
  show ?thesis
  proof (cases res)
    case (Inl e)
    then have "w' = w1" using assms(6) m by (simp add: journal_Prune_def)
    then show ?thesis using mk by auto
  next
    case (Inr ps)
    then have r: "run_pruners app env ps None w1 = (err, w')" using assms(6) m by (simp add: journal_Prune_def)
    have ps: "ps = map (\<lambda>d. \<lparr>Dir = resolved_dir c (d_path d),
        Accept = MakeAgeFilter rt (prune_deadline t ?j) (d_opts d)\<rparr>) [journalDir ?j, successDir ?j, failureDir ?j]"
      using mk Inr by blast
    have "valid w1" "\<And>p. p \<in> set ps \<Longrightarrow> IsAbs (Dir p)" using mk Inr by blast+
    note run = journal_system.run_pruners_effect [OF sys assms(3) this(2,1) r, of w1 "[]"]
    note old = pruner_of_journal [OF ps]
    have "\<exists>d \<in> {JournalDir c, SuccessDir c, FailureDir c}. Clean q = Join [resolved_dir c d, lockName] \<or>
          (\<exists>n fi. normal n \<and> n \<noteq> ''..'' \<and> n \<noteq> lockName \<and> look w1 (Join [resolved_dir c d, n]) = Some fi \<and>
             nanos (fi_mtime fi) \<le> nanos t - JournalRetention c \<and> below (Join [resolved_dir c d, n]) q)"
      if q: "IsAbs q" "look w' q \<noteq> look w1 q" for q
    proof -
      obtain p where p: "p \<in> set ps" "Clean q = Join [Dir p, lockName] \<or>
          (\<exists>n. removable look p w1 n \<and> below (Join [Dir p, n]) q)"
      proof -
        have "\<exists>p \<in> set ([] @ ps). Clean q = Join [Dir p, lockName] \<or>
            (\<exists>n. removable look p w1 n \<and> below (Join [Dir p, n]) q)" using run q by simp
        then show ?thesis using that by auto
      qed
      from old [OF p(1)] p(2) show ?thesis by metis
    qed
    then show ?thesis using mk by blast
  qed
qed

theorem journal_prune_confined_witness:
  "\<exists>w1. plain_look w1 ''/in/f'' = plain_look sample_fs ''/in/f'' \<and>
     plain_look (snd (journal_Prune join_errors plain_os (plain_env (\<lambda>_. None)) sample_runtime (Time 0)
       (journal_New sample_handler) sample_fs)) ''/in/f'' = plain_look w1 ''/in/f''"
proof -
  obtain err w' where r: "journal_Prune join_errors plain_os (plain_env (\<lambda>_. None)) sample_runtime (Time 0)
       (journal_New sample_handler) sample_fs = (err, w')" by fastforce
  have b: "IsAbs (hPath sample_handler)" "IsAbs ''/in/f''" "plain_look sample_fs ''/in/f'' \<noteq> None" by code_simp+
  from journal_prune_confined [OF locking.file_system_axioms plain_prune.prune_system_axioms multierr_law_join_errors
      sample_fs_lock_inv b(1) r] obtain w1 where
    w1: "plain_look w1 ''/in/f'' = plain_look sample_fs ''/in/f''"
    and ch: "plain_look w' ''/in/f'' \<noteq> plain_look w1 ''/in/f'' \<Longrightarrow>
       \<exists>d \<in> {JournalDir sample_handler, SuccessDir sample_handler, FailureDir sample_handler}.
          Clean ''/in/f'' = Join [resolved_dir sample_handler d, lockName] \<or>
          (\<exists>n. normal n \<and> n \<noteq> ''..'' \<and> below (Join [resolved_dir sample_handler d, n]) ''/in/f'')"
    using b(2,3) by blast
  have c: "comps ''/in/f'' = [''in'', ''f'']" by code_simp
  have l: "IsAbs (resolved_dir sample_handler d) \<and> length (comps (resolved_dir sample_handler d)) = 3"
    if "d \<in> {JournalDir sample_handler, SuccessDir sample_handler, FailureDir sample_handler}" for d
    using that by (elim insertE emptyE) (simp_all only:, code_simp+)
  have nb: "\<not> prefix (comps (Join [resolved_dir sample_handler d, n])) (comps ''/in/f'')"
    if "d \<in> {JournalDir sample_handler, SuccessDir sample_handler, FailureDir sample_handler}" "normal n" "n \<noteq> ''..''"
    for d n
    using l [OF that(1)] that(2,3) prefix_length_le [of "comps (Join [resolved_dir sample_handler d, n])" "comps ''/in/f''"] c
    by (auto simp: comps_entry)
  have "plain_look w' ''/in/f'' = plain_look w1 ''/in/f''"
  proof (rule ccontr)
    assume "plain_look w' ''/in/f'' \<noteq> plain_look w1 ''/in/f''"
    from ch [OF this] obtain d n where d: "d \<in> {JournalDir sample_handler, SuccessDir sample_handler, FailureDir sample_handler}"
        "normal n" "n \<noteq> ''..''" "Clean ''/in/f'' = Join [resolved_dir sample_handler d, n] \<or>
           below (Join [resolved_dir sample_handler d, n]) ''/in/f''" using lockName_normal by blast
    then have "prefix (comps (Join [resolved_dir sample_handler d, n])) (comps ''/in/f'')"
      unfolding below_def by (metis comps_Clean prefix_order.refl)
    then show False using nb d by blast
  qed
  then show ?thesis using w1 r by auto
qed

end
