(* ===== verification/HandlerAttempt.thy ===== *)
theory HandlerAttempt
  imports HandlerCommand Journal
begin

text \<open>
  \<open>internal/handlerattempt\<close>: one attempt to handle a changed file. The command is run on the file;
  afterwards the file is archived when it still exists, was not changed meanwhile, and either the
  command succeeded or this was the last attempt.
\<close>

section \<open>handlerattempt.go\<close>

definition validateChangedFile :: "'w os \<Rightarrow> path \<Rightarrow> 'w \<Rightarrow> (goerr + fileinfo) \<times> 'w" where
  "validateChangedFile os path w =
     (case os_Lstat os path w of
        (Inl e, w1) \<Rightarrow>
          (Inl (if os_IsNotExist e then ErrWrap ''file vanished before running command'' e else e), w1)
      | (Inr fi, w1) \<Rightarrow>
          if \<not> IsRegular fi then (Inl (ErrWrap ''not a regular file'' ErrInvalid), w1)
          else (Inr fi, w1))"

record 'w attempt_options =
  a_Config :: Handler
  a_Journal :: Journal
  ChangedFile :: path
  a_BaseDir :: path
  Final :: bool
  AcquireLock :: "('w \<Rightarrow> 'w) option"
  a_Metrics :: "'w reporter option"

record ('c, 'w) Attempt =
  a_opts :: "'w attempt_options"
  a_run :: "'c \<Rightarrow> 'w \<Rightarrow> err \<times> 'w"

definition attempt_New ::
  "append_func \<Rightarrow> 'w os \<Rightarrow> ('c, 'w) proc_env \<Rightarrow> path \<times> err \<Rightarrow> 'w attempt_options \<Rightarrow> goerr + ('c, 'w) Attempt" where
  "attempt_New app os env exe opts =
     (case command_New exe \<lparr>SourceFile = ChangedFile opts, BaseDir = a_BaseDir opts,
             CommandArgs = Command (a_Config opts), Metrics = a_Metrics opts\<rparr> of
        Inl e \<Rightarrow> Inl e
      | Inr cmd \<Rightarrow> Inr \<lparr>a_opts = opts, a_run = command_Run app os env cmd\<rparr>)"

definition moveToArchive ::
  "'w os \<Rightarrow> segmenter \<Rightarrow> 'r Runtime \<Rightarrow> 'w attempt_options \<Rightarrow> bool \<Rightarrow> 'r \<times> 'w \<Rightarrow> (err \<times> 'r \<times> 'w) option" where
  "moveToArchive os seg rt opts success s =
     (case MoveToArchive os seg rt (a_Journal opts) (ChangedFile opts) success s of
        None \<Rightarrow> None
      | Some (Inl e, s1) \<Rightarrow> Some (Some e, s1)
      | Some (Inr dest, s1) \<Rightarrow> Some (None, s1))"

text \<open>The part of \<open>Run\<close> after the command: what becomes of the file. The result is \<open>permanent\<close>
  with the combined error.\<close>

definition attempt_finish ::
  "append_func \<Rightarrow> 'w os \<Rightarrow> segmenter \<Rightarrow> 'r Runtime \<Rightarrow> 'w attempt_options \<Rightarrow> fileinfo \<Rightarrow> err \<Rightarrow> 'r \<times> 'w \<Rightarrow>
   ((bool \<times> err) \<times> 'r \<times> 'w) option" where
  "attempt_finish app os seg rt opts statBefore commandErr s =
     (case os_Lstat os (ChangedFile opts) (snd s) of
        (Inl e, w1) \<Rightarrow>
          Some ((os_IsNotExist e,
                 if \<not> (commandErr = None \<and> os_IsNotExist e) then app commandErr (Some e) else commandErr),
                fst s, w1)
      | (Inr statAfter, w1) \<Rightarrow>
          let changes = DescribeChanges statBefore statAfter
          in if \<not> Empty changes then Some ((False, app commandErr (changes_Err changes)), fst s, w1)
             else
               let success = (commandErr = None)
               in if success \<or> Final opts then
                    (case moveToArchive os seg rt opts success (fst s, w1) of
                       None \<Rightarrow> None
                     | Some (err, s2) \<Rightarrow> Some ((False, app commandErr err), s2))
                  else Some ((False, commandErr), fst s, w1))"

definition attempt_Run ::
  "append_func \<Rightarrow> 'w os \<Rightarrow> segmenter \<Rightarrow> 'r Runtime \<Rightarrow> ('c, 'w) proc_env \<Rightarrow> ('c, 'w) Attempt \<Rightarrow> 'c \<Rightarrow> 'r \<times> 'w \<Rightarrow>
   ((bool \<times> err) \<times> 'r \<times> 'w) option" where
  "attempt_Run app os seg rt env a ctx s =
     (let opts = a_opts a
      in case validateChangedFile os (ChangedFile opts) (snd s) of
           (Inl e, w1) \<Rightarrow> Some ((True, Some e), fst s, w1)
         | (Inr statBefore, w1) \<Rightarrow>
             let (ctx1, w2) = WithTimeout env ctx (Timeout (a_Config opts)) w1;
                 (commandErr, w3) = a_run a ctx1 w2;
                 w4 = (case AcquireLock opts of None \<Rightarrow> w3 | Some lock \<Rightarrow> lock w3)
             in map_option (\<lambda>(res, r', w'). (res, r', ctx_Cancel env ctx1 w'))
                  (attempt_finish app os seg rt opts statBefore commandErr (fst s, w4)))"

section \<open>The fate of the file\<close>

definition unchanged :: "fileinfo \<Rightarrow> fileinfo \<Rightarrow> bool" where
  "unchanged a b \<longleftrightarrow> SameFile a b \<and> fi_type a = fi_type b \<and> fi_size a = fi_size b \<and> fi_mtime a = fi_mtime b"

lemma DescribeChanges_Empty: "Empty (DescribeChanges a b) \<longleftrightarrow> unchanged a b"
  by (auto simp: Empty_def DescribeChanges_def unchanged_def)

lemma changes_Err_Some: "\<not> Empty c \<Longrightarrow> changes_Err c \<noteq> None"
  by (simp add: Empty_def changes_Err_def)

lemma app_Some [simp]: "multierr_law app \<Longrightarrow> b \<noteq> None \<Longrightarrow> app a b \<noteq> None"
  by (simp add: multierr_law_None_iff)

lemma app_Some_ex [simp]: "multierr_law app \<Longrightarrow> \<exists>c. app a (Some b) = Some c"
  using multierr_law_None_iff [of app a "Some b"] by (cases "app a (Some b)") simp_all

text \<open>The file was moved to a new entry of the archive directory for the outcome; no other entry
  changed.\<close>

definition archived ::
  "('w \<Rightarrow> path \<Rightarrow> fileinfo option) \<Rightarrow> Handler \<Rightarrow> path \<Rightarrow> bool \<Rightarrow> 'w \<Rightarrow> 'w \<Rightarrow> bool" where
  "archived look c path success w w' \<longleftrightarrow>
     (\<exists>dest m. IsAbs dest \<and> normal m \<and> m \<noteq> ''..'' \<and>
        comps dest = comps (resolved_dir c (if success then SuccessDir c else FailureDir c)) @ [m] \<and>
        look w dest = None \<and> look w' path = None \<and> map_option fi_id (look w' dest) = map_option fi_id (look w path) \<and>
        (\<forall>q. IsAbs q \<longrightarrow> look w q \<noteq> None \<longrightarrow> \<not> below path q \<longrightarrow> \<not> below dest q \<longrightarrow> look w' q = look w q))"

text \<open>
  What becomes of the changed file \<open>p\<close>, from the world after the command to the one after the
  attempt, with the information \<open>before\<close> on the file from before the command.
\<close>

definition file_fate ::
  "('w \<Rightarrow> path \<Rightarrow> fileinfo option) \<Rightarrow> Handler \<Rightarrow> path \<Rightarrow> bool \<Rightarrow> fileinfo \<Rightarrow> err \<Rightarrow> 'w \<Rightarrow> 'w \<Rightarrow> err \<Rightarrow> bool" where
  "file_fate look c p final before ce w w' err \<longleftrightarrow>
     (case look w p of
        None \<Rightarrow> (err = None \<longleftrightarrow> ce = None) \<and> look w' = look w
      | Some after \<Rightarrow>
          if unchanged before after \<and> (ce = None \<or> final)
          then archived look c p (ce = None) w w' \<and> (err = None \<longleftrightarrow> ce = None) \<or>
            err \<noteq> None \<and> (\<forall>q. IsAbs q \<longrightarrow> look w q \<noteq> None \<longrightarrow> look w' q = look w q)
          else err \<noteq> None \<and> look w' = look w)"

lemma file_fate_look: "look v = look w' \<Longrightarrow> file_fate look c p final before ce w v err = file_fate look c p final before ce w w' err"
  unfolding file_fate_def archived_def by (simp only:)

lemma attempt_finish_effect:
  assumes fs: "file_system os valid look" "valid w" "IsAbs (hPath c)" and rt: "runtime_law seg rt" and app: "multierr_law app"
    and p: "p = ChangedFile opts" "IsAbs p" "normal (Base p)" "Base p \<noteq> ''..''" and j: "a_Journal opts = journal_New c"
    and free: "\<And>g w1. ensureDirForName os rt (journal_New c)
        (if ce = None then successDir (journal_New c) else failureDir (journal_New c)) (Base p) w = (Inr g, w1) \<Longrightarrow>
      look w1 (candidate (gen_iter seg rt) (g, r) n) = None"
  shows "\<exists>permanent err r' w'. attempt_finish app os seg rt opts before ce (r, w) = Some ((permanent, err), r', w') \<and>
    valid w' \<and> (permanent \<longleftrightarrow> look w p = None) \<and> file_fate look c p (Final opts) before ce w w' err"
proof (cases "look w p")
  case None
  then have "os_Lstat os p w = (Inl (ErrNo ENOENT), w)" using file_system.lstat [OF fs(1,2) p(2)] by simp
  then show ?thesis
    using fs(2) None p(1) app by (auto simp: attempt_finish_def os_IsNotExist_def file_fate_def)
next
  case (Some after)
  then have ls: "os_Lstat os p w = (Inr after, w)" using file_system.lstat [OF fs(1,2) p(2)] by simp
  show ?thesis
  proof (cases "unchanged before after \<and> (ce = None \<or> Final opts)")
    case False
    then show ?thesis
      using ls fs(2) Some p(1) app changes_Err_Some [of "DescribeChanges before after"]
      by (auto simp: attempt_finish_def DescribeChanges_Empty file_fate_def)
  next
    case True
    let ?d = "if ce = None then successDir (journal_New c) else failureDir (journal_New c)"
    obtain res r' w' where m: "MoveToArchive os seg rt (journal_New c) p (ce = None) (r, w) = Some (res, r', w')" "valid w'"
      "case res of
         Inl e \<Rightarrow> \<forall>q. IsAbs q \<longrightarrow> look w q \<noteq> None \<longrightarrow> look w' q = look w q
       | Inr dest \<Rightarrow> IsAbs dest \<and> look w dest = None \<and> look w' p = None \<and>
         (\<exists>m. normal m \<and> m \<noteq> ''..'' \<and>
            comps dest = comps (resolved_dir c (if ce = None then SuccessDir c else FailureDir c)) @ [m]) \<and>
         map_option fi_id (look w' dest) = map_option fi_id (look w p) \<and>
         (\<forall>q. IsAbs q \<longrightarrow> look w q \<noteq> None \<longrightarrow> \<not> below p q \<longrightarrow> \<not> below dest q \<longrightarrow> look w' q = look w q)"
      using MoveToArchive_effect [OF fs rt p(2-4) _ refl free] Some by blast
    have f: "attempt_finish app os seg rt opts before ce (r, w) =
        Some ((False, app ce (case res of Inl e \<Rightarrow> Some e | Inr _ \<Rightarrow> None)), r', w')"
      using ls True p(1) j m(1) by (auto simp: attempt_finish_def moveToArchive_def DescribeChanges_Empty split: sum.split)
    show ?thesis
    proof (cases res)
      case (Inl e)
      then show ?thesis using f m(2,3) Some True app by (intro exI [of _ False]) (simp add: file_fate_def)
    next
      case (Inr dest)
      then have "archived look c p (ce = None) w w'" 
        using m(3) unfolding archived_def by (simp only: sum.case) blast
      then show ?thesis 
        using f m(2) Some True Inr multierr_law_simps(2) [OF app, of ce]
        by (intro exI [of _ False]) (simp add: file_fate_def)
    qed
  qed
qed

section \<open>Properties\<close>

text \<open>
  C4. The outcome of an attempt and the fate of the changed file. A file that is missing or not
  regular fails permanently without running the command. Otherwise let \<open>w4\<close> be the world after
  the command has returned \<open>ce\<close>. The result is permanent exactly if the file is gone then. If the
  file is unchanged and the command succeeded or the attempt is the last one, the file is moved
  to the success or failure directory according to \<open>ce\<close>, or nothing is lost and an error is
  reported; in all other cases no file is touched, and success is reported only if the command
  succeeded and removed the file itself.
\<close>

theorem attempt_file_fate:
  assumes "file_system os valid look" "valid w" "IsAbs (hPath c)" "runtime_law seg rt" "multierr_law app"
    and "opts = a_opts a" "a_Config opts = c" "a_Journal opts = journal_New c"
    and "p = ChangedFile opts" "IsAbs p" "normal (Base p)" "Base p \<noteq> ''..''"
    and "WithTimeout env ctx (Timeout c) w = (ctx1, w2)" "a_run a ctx1 w2 = (ce, w3)"
    and "w4 = (case AcquireLock opts of None \<Rightarrow> w3 | Some lock \<Rightarrow> lock w3)" "valid w4"
    and "\<And>v. look (ctx_Cancel env ctx1 v) = look v"
    and "\<And>g w1. ensureDirForName os rt (journal_New c)
        (if ce = None then successDir (journal_New c) else failureDir (journal_New c)) (Base p) w4 = (Inr g, w1) \<Longrightarrow>
      look w1 (candidate (gen_iter seg rt) (g, r) n) = None"
  shows "\<exists>permanent err r' w'. attempt_Run app os seg rt env a ctx (r, w) = Some ((permanent, err), r', w') \<and>
    (if \<exists>before. look w p = Some before \<and> IsRegular before
     then (permanent \<longleftrightarrow> look w4 p = None) \<and> file_fate look c p (Final opts) (the (look w p)) ce w4 w' err
     else permanent \<and> err \<noteq> None \<and> w' = w)"
proof (cases "\<exists>before. look w p = Some before \<and> IsRegular before")
  case True
  then obtain before where b: "look w p = Some before" "IsRegular before" by blast
  then have v: "validateChangedFile os p w = (Inr before, w)"
    using file_system.lstat [OF assms(1,2,10)] by (simp add: validateChangedFile_def)
  obtain permanent err r' w' where f: "attempt_finish app os seg rt opts before ce (r, w4) = Some ((permanent, err), r', w')"
    "permanent \<longleftrightarrow> look w4 p = None" "file_fate look c p (Final opts) before ce w4 w' err"
    using attempt_finish_effect [OF assms(1,16,3,4,5,9,10,11,12,8,18), where before = before] by blast
  have "attempt_Run app os seg rt env a ctx (r, w) = Some ((permanent, err), r', ctx_Cancel env ctx1 w')"
    using v f(1) assms(6,7,9,13,14,15) by (simp add: attempt_Run_def)
  moreover have "file_fate look c p (Final opts) before ce w4 (ctx_Cancel env ctx1 w') err"
    using f(3) file_fate_look [of look, OF assms(17) [of w']] by blast
  ultimately show ?thesis using True f(2) b(1) by (auto simp only: option.sel if_True)
next
  case False
  then obtain e where "validateChangedFile os p w = (Inl e, w)"
    using file_system.lstat [OF assms(1,2,10)] by (cases "look w p") (auto simp: validateChangedFile_def)
  then have "attempt_Run app os seg rt env a ctx (r, w) = Some ((True, Some e), r, w)"
    using assms(6,9) by (simp add: attempt_Run_def)
  then show ?thesis unfolding if_not_P [OF False] by blast
qed

definition sample_attempt :: "(unit, fs) Attempt" where
  "sample_attempt = \<lparr>a_opts = \<lparr>a_Config = sample_handler, a_Journal = journal_New sample_handler, ChangedFile = ''/in/f'',
       a_BaseDir = ''/in/_/journal/x/0'', Final = False, AcquireLock = None, a_Metrics = None\<rparr>,
     a_run = (\<lambda>_ w. (None, w))\<rparr>"

definition sample_env :: "(unit, fs) proc_env" where
  "sample_env = \<lparr>cmd_Run = (\<lambda>_ _ w. ((None, None), w)), ctx_Done = (\<lambda>_ _. None), WithTimeout = (\<lambda>c _ w. (c, w)),
     ctx_Cancel = (\<lambda>_ w. w), time_Now = (\<lambda>_. Time 0), os_Environ = []\<rparr>"

theorem attempt_file_fate_witness:
  "\<exists>r' w'. attempt_Run join_errors plain_os byte_segments sample_runtime sample_env sample_attempt () (0, sample_fs) =
       Some ((False, None), r', w') \<and> archived plain_look sample_handler ''/in/f'' True sample_fs w'"
proof -
  let ?o = "a_opts sample_attempt"
  have b: "Base ''/in/f'' = ''f''" "IsAbs ''/in/f''" "IsAbs (hPath sample_handler)" by code_simp+
  have n: "normal (Base ''/in/f'')" "Base ''/in/f'' \<noteq> ''..''" by (simp_all add: b(1) normal_def)
  have free: "plain_look w1 (candidate (gen_iter byte_segments sample_runtime) (g, 0) 0) = None"
    if "ensureDirForName plain_os sample_runtime (journal_New sample_handler)
      (if (None :: err) = None then successDir (journal_New sample_handler) else failureDir (journal_New sample_handler))
      (Base ''/in/f'') sample_fs = (Inr g, w1)" for g w1
  proof -
    let ?e = "ensureDirForName plain_os sample_runtime (journal_New sample_handler) (successDir (journal_New sample_handler))
      (Base ''/in/f'') sample_fs"
    have "plain_look (snd ?e) (candidate (gen_iter byte_segments sample_runtime) (projr (fst ?e), 0) 0) = None" by code_simp
    then show ?thesis using that by simp
  qed
  have o: "a_Config ?o = sample_handler" "a_Journal ?o = journal_New sample_handler" "''/in/f'' = ChangedFile ?o"
    "WithTimeout sample_env () (Timeout sample_handler) sample_fs = ((), sample_fs)" "a_run sample_attempt () sample_fs = (None, sample_fs)"
    "sample_fs = (case AcquireLock ?o of None \<Rightarrow> sample_fs | Some lock \<Rightarrow> lock sample_fs)"
    "\<And>v. plain_look (ctx_Cancel sample_env () v) = plain_look v"
    by (simp_all add: sample_attempt_def sample_env_def)
  note t = attempt_file_fate [OF linkfree.file_system_axioms sample_fs_inv b(3) sample_runtime_law multierr_law_join_errors
      refl o(1-3) b(2) n o(4-6) sample_fs_inv o(7) free]
  have ok: "map_option fst (attempt_Run join_errors plain_os byte_segments sample_runtime sample_env sample_attempt () (0, sample_fs)) =
      Some (False, None)" by code_simp
  have l: "\<exists>fi. plain_look sample_fs ''/in/f'' = Some fi \<and> IsRegular fi"
  proof -
    have "plain_look sample_fs ''/in/f'' \<noteq> None" "IsRegular (the (plain_look sample_fs ''/in/f''))" by code_simp+
    then show ?thesis by auto
  qed
  then obtain fi where fi: "plain_look sample_fs ''/in/f'' = Some fi" by blast
  obtain r' w' where r: "attempt_Run join_errors plain_os byte_segments sample_runtime sample_env sample_attempt () (0, sample_fs) =
      Some ((False, None), r', w')" using ok by (auto simp: map_option_case split: option.splits)
  have "archived plain_look sample_handler ''/in/f'' True sample_fs w'"
    using t l r fi by (simp add: unchanged_def SameFile_def file_fate_def)
  then show ?thesis using r by blast
qed

end
