(* ===== verification/TeeLog.thy ===== *)
theory TeeLog
  imports FileSystem
begin

text \<open>
  \<open>internal/teelog\<close>: a function is run with a logger that also writes to a file. What is logged is
  not modelled; the log file is opened before and closed after the function, and errors of both
  reach the caller. \<open>log_Sync\<close> stands for \<open>logger.Sync\<close>, which flushes the parent logger and the file.
\<close>

definition log_flags :: open_flags where
  "log_flags = \<lparr>o_write = True, o_create = True, o_trunc = False, o_append = True, o_excl = False, o_nofollow = False\<rparr>"

text \<open>\<open>open\<close>; the logger it builds is not modelled, and its closing function is \<open>log_close\<close>.\<close>

definition log_open :: "'w os \<Rightarrow> path \<Rightarrow> 'w \<Rightarrow> (goerr + handle) \<times> 'w" where
  "log_open os path w = os_OpenFile os path log_flags 438 w"

declare log_open_def [simp]

definition log_close :: "append_func \<Rightarrow> 'w os \<Rightarrow> (handle \<Rightarrow> 'w \<Rightarrow> err \<times> 'w) \<Rightarrow> handle \<Rightarrow> 'w \<Rightarrow> err \<times> 'w" where
  "log_close app os log_Sync fh w =
     (case log_Sync fh w of
        (syncErr, w1) \<Rightarrow>
          (case f_Close os fh w1 of
             (closeErr, w2) \<Rightarrow>
               (app (case syncErr of
                       Some e \<Rightarrow> if errors_Is e (ErrNo EINVAL) then None else Some e
                     | None \<Rightarrow> None) closeErr, w2)))"

text \<open>The function may not return; besides its error it yields a value, for which \<open>a\<close> is used when
  the log file cannot be opened.\<close>

definition Wrap ::
  "append_func \<Rightarrow> 'w os \<Rightarrow> (handle \<Rightarrow> 'w \<Rightarrow> err \<times> 'w) \<Rightarrow> path \<Rightarrow>
   ('w \<Rightarrow> ((err \<times> 'a) \<times> 'w) option) \<Rightarrow> 'a \<Rightarrow> 'w \<Rightarrow> ((err \<times> 'a) \<times> 'w) option" where
  "Wrap app os log_Sync path fn a w =
     (case log_open os path w of
        (Inl e, w1) \<Rightarrow> Some ((Some (ErrWrap ''log setup failed'' e), a), w1)
      | (Inr fh, w1) \<Rightarrow>
          (case fn w1 of
             None \<Rightarrow> None
           | Some ((err, b), w2) \<Rightarrow>
               (case log_close app os log_Sync fh w2 of (closeErr, w3) \<Rightarrow> Some ((app err closeErr, b), w3))))"

lemma log_close_no_task_error:
  assumes "multierr_law app" "\<And>h w e w'. log_Sync h w = (Some e, w') \<Longrightarrow> no_task_error e"
    "\<And>h w e w'. f_Close os h w = (Some e, w') \<Longrightarrow> no_task_error e"
    "log_close app os log_Sync fh w = (Some e, w')"
  shows "no_task_error e"
proof -
  obtain se w1 ce w2 where s: "log_Sync fh w = (se, w1)" "f_Close os fh w1 = (ce, w2)" by (metis prod.exhaust)
  let ?a = "case se of Some e \<Rightarrow> if errors_Is e (ErrNo EINVAL) then None else Some e | None \<Rightarrow> None"
  have "app ?a ce = Some e" using assms(4) s by (simp add: log_close_def)
  moreover have "?a = Some x \<Longrightarrow> no_task_error x" for x using assms(2) s(1) by (auto split: option.splits if_splits)
  moreover have "ce = Some x \<Longrightarrow> no_task_error x" for x using assms(3) s(2) by blast
  ultimately show ?thesis by (rule multierr_no_task_error [OF assms(1)])
qed

end
