(* ===== verification/RetryStrategy.thy ===== *)
theory RetryStrategy
  imports Config
begin

text \<open>
  \<open>internal/handlerretrystrategy/strategy.go\<close> and \<open>internal/fuzzduration/fuzzduration.go\<close>: how long
  to wait before a failed command is tried again. Go leaves the conversion of a floating-point
  number outside the range of \<open>int64\<close> to the implementation, so its result is the parameter \<open>ovf\<close>.
\<close>

section \<open>strategy.go\<close>

record Strategy =
  remaining :: int
  delay :: duration
  factor :: rat
  max_delay :: duration

definition strategy_New :: "Handler \<Rightarrow> Strategy" where
  "strategy_New cfg =
     \<lparr>remaining = RetryCount cfg, delay = RetryDelayInitial cfg, factor = RetryDelayFactor cfg,
      max_delay = RetryDelayMax cfg\<rparr>"

definition truncate :: "rat \<Rightarrow> int" where
  "truncate x = (if 0 \<le> x then floor x else ceiling x)"

definition to_Duration :: "duration \<Rightarrow> rat \<Rightarrow> duration" where
  "to_Duration ovf x =
     (let n = truncate x in if minDuration \<le> n \<and> n \<le> maxDuration then n else ovf)"

definition Advance :: "duration \<Rightarrow> Strategy \<Rightarrow> Strategy" where
  "Advance ovf r =
     (if remaining r < 0 then r
      else
        let d = fround 53 (fround 53 (of_int (delay r)) * factor r);
            d1 = (if max_delay r > 0 then min d (fround 53 (of_int (max_delay r))) else d)
        in r\<lparr>delay := to_Duration ovf d1, remaining := remaining r - 1\<rparr>)"

definition Current :: "Strategy \<Rightarrow> duration" where
  "Current r = (if remaining r \<le> 0 then Stop_delay else delay r)"

section \<open>fuzzduration.go\<close>

text \<open>\<open>rnd\<close> is the result of \<open>rand.Float32\<close>, a number from 0 up to but not including 1.\<close>

definition Random :: "duration \<Rightarrow> rat \<Rightarrow> duration \<Rightarrow> rat \<Rightarrow> duration" where
  "Random ovf rnd d f =
     (let fuzz = fround 24 (- fround 24 (f / 2) + fround 24 (f * rnd))
      in wrap64 (d + to_Duration ovf (fround 24 (fuzz * fround 24 (of_int d)))))"

section \<open>The retry schedule\<close>

text \<open>The delay after the failure number \<open>k\<close>, counted from zero.\<close>

definition retry_delay :: "duration \<Rightarrow> Handler \<Rightarrow> nat \<Rightarrow> duration" where
  "retry_delay ovf cfg k = Current ((Advance ovf ^^ k) (strategy_New cfg))"

definition strategy_ok :: "duration \<Rightarrow> duration \<Rightarrow> Strategy \<Rightarrow> bool" where
  "strategy_ok lo hi r \<longleftrightarrow> 0 < lo \<and> lo \<le> delay r \<and> delay r \<le> hi \<and> max_delay r = hi \<and> hi \<le> 2 ^ 53 \<and> 1 \<le> factor r"

lemma Advance_ok:
  assumes "strategy_ok lo hi r"
  shows "strategy_ok lo hi (Advance ovf r)" "delay r \<le> delay (Advance ovf r)"
    "remaining (Advance ovf r) = (if remaining r < 0 then remaining r else remaining r - 1)"
proof -
  let ?f = "fround 53 (of_int (delay r))" and ?m = "fround 53 (of_int hi)"
  have b: "0 < lo" "lo \<le> delay r" "delay r \<le> hi" "max_delay r = hi" "hi \<le> 2 ^ 53" "1 \<le> factor r"
    using assms by (auto simp: strategy_ok_def)
  have f: "?f = of_int (delay r)" "?m = of_int hi"
    using b by (intro fround_of_int; simp)+
  let ?d = "min (fround 53 (?f * factor r)) ?m"
  have "of_int (delay r) \<le> of_int (delay r) * factor r" using b by (simp add: mult_le_cancel_left1)
  then have "?f \<le> fround 53 (of_int (delay r) * factor r)" by (rule fround_mono) simp
  then have "?f \<le> fround 53 (?f * factor r)" by (simp only: f(1))
  then have d: "of_int (delay r) \<le> ?d" "?d \<le> of_int hi" using f b by auto
  then have t: "delay r \<le> truncate ?d" "truncate ?d \<le> hi"
    using b by (auto simp: truncate_def le_floor_iff floor_le_iff)
  then have "to_Duration ovf ?d = truncate ?d"
    using b by (simp add: to_Duration_def minDuration_def maxDuration_def)
  then show "strategy_ok lo hi (Advance ovf r)" "delay r \<le> delay (Advance ovf r)"
    "remaining (Advance ovf r) = (if remaining r < 0 then remaining r else remaining r - 1)"
    using b t by (auto simp: Advance_def Let_def strategy_ok_def)
qed

lemma Advance_iterate:
  assumes "strategy_ok lo hi r" "0 \<le> remaining r"
  shows "strategy_ok lo hi ((Advance ovf ^^ k) r) \<and> remaining ((Advance ovf ^^ k) r) = max (- 1) (remaining r - int k)"
proof (induction k)
  case (Suc k)
  then show ?case
    using Advance_ok [of lo hi "(Advance ovf ^^ k) r" ovf] by auto
qed (use assms in simp)

lemma retry_delay_bounds:
  assumes "handler_valid cfg" "0 < RetryDelayMax cfg" "RetryDelayMax cfg \<le> 2 ^ 53"
  shows "if int k < RetryCount cfg
    then RetryDelayInitial cfg \<le> retry_delay ovf cfg k \<and> retry_delay ovf cfg k \<le> RetryDelayMax cfg \<and>
      (int k + 1 < RetryCount cfg \<longrightarrow> retry_delay ovf cfg k \<le> retry_delay ovf cfg (Suc k))
    else retry_delay ovf cfg k = Stop_delay"
proof -
  let ?lo = "RetryDelayInitial cfg" and ?hi = "RetryDelayMax cfg" and ?r = "strategy_New cfg"
  have "strategy_ok ?lo ?hi ?r" "0 \<le> remaining ?r" "remaining ?r = RetryCount cfg"
    using assms(1-3) by (auto simp: strategy_ok_def strategy_New_def handler_valid_def)
  note i = Advance_iterate [OF this(1,2), where ovf = ovf, unfolded this(3)]
  have "delay ((Advance ovf ^^ k) ?r) \<le> delay ((Advance ovf ^^ Suc k) ?r)"
    using Advance_ok(2) [of ?lo ?hi "(Advance ovf ^^ k) ?r"] i [of k] by simp
  then show ?thesis
    using i [of k] i [of "Suc k"] by (auto simp: retry_delay_def Current_def strategy_ok_def)
qed



text \<open>
  C27. Without a maximum delay the schedule can leave the range of durations: this valid
  configuration has one retry left, yet after three failures the delay is negative, so that the
  attempt is not treated as the final one although no further attempt will be made. (\<open>ovf\<close> is
  what amd64 processors return for an out-of-range conversion.)
\<close>

definition unlimited_handler :: Handler where
  "unlimited_handler = sample_handler\<lparr>RetryCount := 4, RetryDelayFactor := 1000, RetryDelayMax := 0\<rparr>"


section \<open>Fuzzing\<close>

lemma fuzz_bounds:
  assumes "0 \<le> f" "f \<le> 1" "0 \<le> rnd" "rnd \<le> 1"
  shows "\<bar>fround 24 (- fround 24 (f / 2) + fround 24 (f * rnd))\<bar> \<le> 1/2"
proof -
  have m: "x \<le> y \<Longrightarrow> fround 24 x \<le> fround 24 y" for x y by (rule fround_mono) simp_all
  have one: "fround 24 1 = 1" using fround_of_int [of 1 24] by simp
  then have half: "fround 24 (1/2) = 1/2" using fround_half [of 24 1] by simp
  have h: "fround 24 (f / 2) = fround 24 f / 2" by (rule fround_half) simp
  have "f * rnd \<le> f" using assms by (simp add: mult_left_le)
  then have r: "fround 24 (f * rnd) \<le> fround 24 f" "0 \<le> fround 24 (f * rnd)" "0 \<le> fround 24 f" "fround 24 f \<le> 1"
    using m [of "f * rnd" f] m [of 0 "f * rnd"] m [of 0 f] m [of f 1] assms one by auto
  let ?s = "- fround 24 (f / 2) + fround 24 (f * rnd)"
  have "- (1/2) \<le> ?s" "?s \<le> 1/2" using r h by auto
  then have "fround 24 (- (1/2)) \<le> fround 24 ?s" "fround 24 ?s \<le> fround 24 (1/2)"
    by (blast intro: m)+
  then show ?thesis using half fround_minus [of 24 "1/2"] by auto
qed

lemma truncate_abs: "\<bar>x\<bar> \<le> of_int n \<Longrightarrow> \<bar>truncate x\<bar> \<le> n"
proof (cases "0 \<le> x")
  case True
  assume "\<bar>x\<bar> \<le> of_int n"
  then have "floor x \<le> n" "0 \<le> floor x" using True by (simp_all add: floor_le_iff)
  then show ?thesis using True by (simp add: truncate_def)
next
  case False
  assume "\<bar>x\<bar> \<le> of_int n"
  then have "- n \<le> ceiling x" "ceiling x \<le> 0" using False by (simp_all add: le_ceiling_iff ceiling_le_iff)
  then show ?thesis using False by (simp add: truncate_def)
qed

lemma fround24_mono: "x \<le> y \<Longrightarrow> fround 24 x \<le> fround 24 y"
  by (rule fround_mono) simp_all

lemma fuzz_scaled:
  assumes "\<bar>z\<bar> \<le> 1/2" "0 \<le> c"
  shows "\<bar>fround 24 (z * c)\<bar> \<le> fround 24 c / 2"
proof -
  have "\<bar>z * c\<bar> \<le> c / 2" using assms by (simp add: abs_mult mult_right_mono [of "\<bar>z\<bar>" "1/2" c, simplified])
  then have "z * c \<le> c / 2" "- (c / 2) \<le> z * c" by (auto simp: abs_le_iff)
  then have "fround 24 (z * c) \<le> fround 24 (c / 2)" "fround 24 (- (c / 2)) \<le> fround 24 (z * c)"
    by (blast intro: fround24_mono)+
  then show ?thesis using fround_half [of 24 c] fround_minus [of 24 "c / 2"] by auto
qed

lemma Random_Stop:
  assumes "0 \<le> f" "f \<le> 1" "0 \<le> rnd" "rnd \<le> 1"
  shows "Random ovf rnd Stop_delay f = Stop_delay"
proof -
  let ?z = "fround 24 (- fround 24 (f / 2) + fround 24 (f * rnd))"
  have one: "fround 24 1 = 1" using fround_of_int [of 1 24] by simp
  then have m1: "fround 24 (- 1) = - 1" using fround_minus [of 24 1] by simp
  have "\<bar>fround 24 (?z * 1)\<bar> \<le> 1/2" using fuzz_scaled [OF fuzz_bounds [OF assms], of 1] one by simp
  then have "\<bar>fround 24 (?z * - 1)\<bar> \<le> 1/2" using fround_minus [of 24 ?z] by simp
  then have "truncate (fround 24 (?z * - 1)) = 0"
    by (auto simp: truncate_def abs_le_iff floor_eq_iff ceiling_eq_iff)
  then show ?thesis
    using m1 by (simp add: Random_def Stop_delay_def to_Duration_def minDuration_def maxDuration_def wrap64_def)
qed

lemma Random_bounds:
  assumes "0 \<le> f" "f \<le> 1" "0 \<le> rnd" "rnd \<le> 1" "0 \<le> d" "d \<le> 2 ^ 61"
  shows "0 \<le> Random ovf rnd d f \<and> Random ovf rnd d f \<le> 2 * d"
proof -
  let ?z = "fround 24 (- fround 24 (f / 2) + fround 24 (f * rnd))"
  let ?c = "fround 24 (of_int d)"
  have c: "0 \<le> ?c" "?c \<le> 2 * of_int d"
  proof -
    show "0 \<le> ?c" using fround24_mono [of 0 "of_int d"] assms(5) by simp
    show "?c \<le> 2 * of_int d"
    proof (cases "d = 0")
      case False
      then have p: "0 < (of_int d :: rat)" using assms(5) by simp
      have "?c \<le> pow2 (expo (of_int d) + 1)"
        using p fround_pos_bounds(2) [OF p, of 24] by (simp add: fround_def)
      also have "\<dots> \<le> 2 * of_int d" using expo_bounds(1) [OF p] by (simp add: pow2_Suc)
      finally show ?thesis .
    qed simp
  qed
  have "\<bar>fround 24 (?z * ?c)\<bar> \<le> of_int d"
    using fuzz_scaled [OF fuzz_bounds [OF assms(1-4)] c(1)] c(2) fround_idem [of 24 "of_int d"] by simp
  then have t: "\<bar>truncate (fround 24 (?z * ?c))\<bar> \<le> d" by (rule truncate_abs)
  then have "to_Duration ovf (fround 24 (?z * ?c)) = truncate (fround 24 (?z * ?c))"
    using assms(6) by (auto simp: to_Duration_def minDuration_def maxDuration_def Let_def)
  moreover have "wrap64 (d + truncate (fround 24 (?z * ?c))) = d + truncate (fround 24 (?z * ?c))"
    using t assms(5,6) by (simp add: wrap64_def)
  ultimately have "Random ovf rnd d f = d + truncate (fround 24 (?z * ?c))" by (simp add: Random_def)
  then show ?thesis using t by auto
qed

text \<open>
  Fuzzing keeps the meaning of a delay: for a factor and a random number between 0 and 1 the
  result of \<open>Random\<close> lies between 0 and twice the delay, so that a retry stays a retry; and \<open>Stop\<close>
  stays \<open>Stop\<close>.
\<close>

theorem fuzz_keeps_meaning:
  assumes "0 \<le> f" "f \<le> 1" "0 \<le> rnd" "rnd \<le> 1" "0 \<le> d" "d \<le> 2 ^ 61"
  shows "0 \<le> Random ovf rnd d f \<and> Random ovf rnd d f \<le> 2 * d \<and> Random ovf rnd Stop_delay f = Stop_delay"
  using Random_bounds [OF assms] Random_Stop [OF assms(1-4)] by blast

theorem fuzz_keeps_meaning_witness:
  "0 \<le> Random 0 (1/4) (15 * minute) (1/10) \<and> Random 0 (1/4) (15 * minute) (1/10) \<le> 2 * (15 * minute) \<and>
   Random 0 (1/4) Stop_delay (1/10) = Stop_delay"
  by (rule fuzz_keeps_meaning) (simp_all add: minute_def second_def)

end
