(* ===== verification/Strconv.thy ===== *)
theory Strconv
  imports Prelude
begin

text \<open>
  The functions of Go's standard library for decimal numbers and UTF-8 that the program uses:
  \<open>strconv.Itoa\<close>, \<open>strconv.ParseInt\<close> in base 10, and how \<open>encoding/json\<close> makes a byte string
  valid UTF-8. Strings are byte strings.
\<close>

section \<open>Decimal numbers\<close>

function digits :: "int \<Rightarrow> string" where
  "digits n = (if n < 10 then [char_of (48 + n)] else digits (n div 10) @ [char_of (48 + n mod 10)])"
  by pat_completeness auto
termination by (relation "measure nat") (auto simp: nat_less_eq_zless)

declare digits.simps [simp del]

lemma digits_code [code]:
  "digits n = (case n < 10 of True \<Rightarrow> [char_of (48 + n)] | False \<Rightarrow> digits (n div 10) @ [char_of (48 + n mod 10)])"
  by (subst digits.simps) simp

text \<open>\<open>strconv.Itoa\<close>.\<close>

definition Itoa :: "int \<Rightarrow> string" where
  "Itoa n = (if n < 0 then CHR ''-'' # digits (- n) else digits n)"

definition is_digit :: "char \<Rightarrow> bool" where
  "is_digit c \<longleftrightarrow> 48 \<le> (of_char c :: int) \<and> (of_char c :: int) \<le> 57"

fun parse_digits :: "int \<Rightarrow> string \<Rightarrow> int option" where
  "parse_digits acc [] = Some acc"
| "parse_digits acc (c # cs) = (if is_digit c then parse_digits (acc * 10 + (of_char c - 48)) cs else None)"

text \<open>\<open>strconv.ParseInt(s, 10, 64)\<close>; every error is \<open>None\<close>.\<close>

definition ParseInt :: "string \<Rightarrow> int option" where
  "ParseInt s =
     (let (neg, ds) = (case s of
            c # cs \<Rightarrow> if c = CHR ''-'' then (True, cs) else if c = CHR ''+'' then (False, cs) else (False, s)
          | [] \<Rightarrow> (False, s))
      in if ds = [] then None
         else case parse_digits 0 ds of
                None \<Rightarrow> None
              | Some n \<Rightarrow>
                  let v = (if neg then - n else n)
                  in if - (2 ^ 63) \<le> v \<and> v < 2 ^ 63 then Some v else None)"

lemma of_char_digit: "0 \<le> d \<Longrightarrow> d < 10 \<Longrightarrow> (of_char (char_of (48 + d)) :: int) = 48 + d" for d :: int
  by (simp add: take_bit_eq_mod)

lemma parse_digits_append:
  "parse_digits acc (xs @ ys) = Option.bind (parse_digits acc xs) (\<lambda>a. parse_digits a ys)"
  by (induction xs arbitrary: acc) auto

lemma parse_digits_digits: "0 \<le> n \<Longrightarrow> \<exists>k. \<forall>acc. parse_digits acc (digits n) = Some (acc * 10 ^ k + n)"
proof (induction n rule: digits.induct)
  case (1 n)
  show ?case
  proof (cases "n < 10")
    case True
    then have "parse_digits acc (digits n) = Some (acc * 10 ^ 1 + n)" for acc
      using 1(2) by (subst digits.simps) (simp add: is_digit_def of_char_digit)
    then show ?thesis by blast
  next
    case False
    have "0 \<le> n div 10" using 1(2) by simp
    then obtain k where k: "\<And>acc. parse_digits acc (digits (n div 10)) = Some (acc * 10 ^ k + n div 10)"
      using "1.IH" [OF False] by blast
    have m: "0 \<le> n mod 10" "n mod 10 < 10" by simp_all
    have e: "n div 10 * 10 + n mod 10 = n" by simp
    have "parse_digits acc (digits n) = Some (acc * 10 ^ Suc k + n)" for acc
    proof -
      have "parse_digits acc (digits n) = Some ((acc * 10 ^ k + n div 10) * 10 + n mod 10)"
        using False m by (subst digits.simps) (simp add: parse_digits_append k is_digit_def of_char_digit [OF m])
      also have "(acc * 10 ^ k + n div 10) * 10 + n mod 10 = acc * 10 ^ Suc k + (n div 10 * 10 + n mod 10)"
        by (simp add: distrib_right)
      finally show ?thesis unfolding e .
    qed
    then show ?thesis by blast
  qed
qed

lemma digits_first: "0 \<le> n \<Longrightarrow> \<exists>(d :: int) cs. digits n = char_of (48 + d) # cs \<and> 0 \<le> d \<and> d < 10"
proof (induction n rule: digits.induct)
  case (1 n)
  show ?case
  proof (cases "n < 10")
    case True then show ?thesis using 1(2) by (subst digits.simps) (intro exI [of _ n], simp)
  next
    case False
    then have "0 \<le> n div 10" using 1(2) by simp
    then obtain d :: int and cs where "digits (n div 10) = char_of (48 + d) # cs" "0 \<le> d" "d < 10" using "1.IH" [OF False] by blast
    then show ?thesis using False by (subst digits.simps) (intro exI [of _ d], simp)
  qed
qed

lemma ParseInt_Itoa: "- (2 ^ 63) \<le> n \<Longrightarrow> n < 2 ^ 63 \<Longrightarrow> ParseInt (Itoa n) = Some n"
proof -
  assume r: "- (2 ^ 63) \<le> n" "n < 2 ^ 63"
  have p: "0 \<le> m \<Longrightarrow> parse_digits 0 (digits m) = Some m" for m
    using parse_digits_digits [of m] by fastforce
  have ne: "0 \<le> m \<Longrightarrow> digits m \<noteq> []" for m using digits_first [of m] by auto
  show ?thesis
  proof (cases "n < 0")
    case True
    then show ?thesis using r by (simp add: ParseInt_def Itoa_def ne p)
  next
    case False
    then obtain d :: int and cs where d: "digits n = char_of (48 + d) # cs" "0 \<le> d" "d < 10" using digits_first [of n] by auto
    have "(of_char (char_of (48 + d)) :: int) = 48 + d" using d(2,3) by (rule of_char_digit)
    then have "char_of (48 + d) \<noteq> CHR ''-''" "char_of (48 + d) \<noteq> CHR ''+''"
      using d(2) by (auto dest!: arg_cong [where f = "of_char :: char \<Rightarrow> int"])
    then show ?thesis using r False p [of n] by (simp add: ParseInt_def Itoa_def d(1))
  qed
qed

section \<open>UTF-8\<close>

definition byte_in :: "char \<Rightarrow> int \<Rightarrow> int \<Rightarrow> bool" where
  "byte_in c lo hi \<longleftrightarrow> lo \<le> (of_char c :: int) \<and> (of_char c :: int) \<le> hi"

text \<open>The length of the first character of a string, as \<open>utf8.DecodeRuneInString\<close> finds it; 0 if
  the bytes at the start are not valid UTF-8.\<close>

definition rune_len :: "string \<Rightarrow> nat" where
  "rune_len s =
     (let cont = (\<lambda>c. byte_in c 128 191)
      in case s of
           [] \<Rightarrow> 0
         | a # as \<Rightarrow>
             if byte_in a 0 127 then 1
             else case as of
                    [] \<Rightarrow> 0
                  | b # bs \<Rightarrow>
                      if byte_in a 194 223 \<and> cont b then 2
                      else case bs of
                             [] \<Rightarrow> 0
                           | c # cs \<Rightarrow>
                               if (byte_in a 224 224 \<and> byte_in b 160 191 \<or> byte_in a 237 237 \<and> byte_in b 128 159 \<or>
                                   (byte_in a 225 236 \<or> byte_in a 238 239) \<and> cont b) \<and> cont c then 3
                               else case cs of
                                      [] \<Rightarrow> 0
                                    | d # _ \<Rightarrow>
                                        if (byte_in a 240 240 \<and> byte_in b 144 191 \<or> byte_in a 241 243 \<and> cont b \<or>
                                            byte_in a 244 244 \<and> byte_in b 128 143) \<and> cont c \<and> cont d then 4 else 0)"

text \<open>U+FFFD, the replacement character.\<close>

definition RuneError :: string where
  "RuneError = [CHR 0xEF, CHR 0xBF, CHR 0xBD]"

text \<open>Every byte that does not belong to a valid character becomes a replacement character.\<close>

function coerce_utf8 :: "string \<Rightarrow> string" where
  "coerce_utf8 s =
     (case s of
        [] \<Rightarrow> []
      | c # cs \<Rightarrow>
          (case rune_len s of
             0 \<Rightarrow> RuneError @ coerce_utf8 cs
           | Suc k \<Rightarrow> c # take k cs @ coerce_utf8 (drop k cs)))"
  by pat_completeness auto
termination by (relation "measure length") auto

declare coerce_utf8.simps [simp del]

function valid_utf8 :: "string \<Rightarrow> bool" where
  "valid_utf8 s =
     (case s of
        [] \<Rightarrow> True
      | c # cs \<Rightarrow> (case rune_len s of 0 \<Rightarrow> False | Suc k \<Rightarrow> valid_utf8 (drop k cs)))"
  by pat_completeness auto
termination by (relation "measure length") auto

declare valid_utf8.simps [simp del]

lemma coerce_valid: "valid_utf8 s \<Longrightarrow> coerce_utf8 s = s"
proof (induction s rule: valid_utf8.induct)
  case (1 s)
  show ?case
  proof (cases s)
    case (Cons c cs)
    with 1(2) obtain k where k: "rune_len s = Suc k" "valid_utf8 (drop k cs)"
      by (subst (asm) valid_utf8.simps) (auto split: nat.splits)
    then have "coerce_utf8 (drop k cs) = drop k cs" using "1.IH" Cons by simp
    then show ?thesis using k Cons by (subst coerce_utf8.simps) simp
  qed (simp add: coerce_utf8.simps)
qed

end
