(* ===== verification/HandlerTask.thy ===== *)
theory HandlerTask
  imports HandlerAttempt TeeLog RetryStrategy Strconv
begin

text \<open>
  \<open>internal/handlertask\<close>: the task of handling one changed file. It is run by the scheduler until it
  succeeds or fails permanently; every run is one attempt with a directory of its own in the
  task's journal directory, and a failed attempt asks the scheduler for another one after the delay
  of the retry strategy.
\<close>

section \<open>handlertask.go\<close>

record 'w task_options =
  t_Config :: Handler
  t_Journal :: Journal
  t_Name :: string
  t_Metrics :: "'w reporter option"

record 'w htask =
  t_opts :: "'w task_options"
  retry :: "Strategy option"
  currentAttempt :: int
  t_journalDir :: path
  fuzzFactor :: rat

definition task_New :: "'w task_options \<Rightarrow> 'w htask" where
  "task_New opts = \<lparr>t_opts = opts, retry = None, currentAttempt = 0, t_journalDir = [], fuzzFactor = fround 24 (1/10)\<rparr>"

definition task_Name :: "'w htask \<Rightarrow> string" where
  "task_Name t = t_Name (t_opts t)"

definition ensureJournalDir ::
  "'w os \<Rightarrow> segmenter \<Rightarrow> 'r Runtime \<Rightarrow> 'w htask \<Rightarrow> 'r \<times> 'w \<Rightarrow> (err \<times> 'w htask \<times> 'r \<times> 'w) option" where
  "ensureJournalDir os seg rt t s =
     (if t_journalDir t = [] then
        (case CreateTaskDir os seg rt (t_Journal (t_opts t)) (t_Name (t_opts t)) s of
           None \<Rightarrow> None
         | Some (Inl e, s1) \<Rightarrow> Some (Some (ErrWrap ''creating journal directory failed'' e), t, s1)
         | Some (Inr path, s1) \<Rightarrow> Some (None, t\<lparr>t_journalDir := path\<rparr>, s1))
      else Some (None, t, s))"

type_synonym ('c, 'r, 'w) invoke_func = "'c \<Rightarrow> 'w attempt_options \<Rightarrow> 'r \<times> 'w \<Rightarrow> ((bool \<times> err) \<times> 'r \<times> 'w) option"

definition default_invoke ::
  "append_func \<Rightarrow> 'w os \<Rightarrow> segmenter \<Rightarrow> 'r Runtime \<Rightarrow> ('c, 'w) proc_env \<Rightarrow> path \<times> err \<Rightarrow> ('c, 'r, 'w) invoke_func" where
  "default_invoke app os seg rt env exe ctx opts s =
     (case attempt_New app os env exe opts of
        Inl e \<Rightarrow> Some ((True, Some e), s)
      | Inr h \<Rightarrow> attempt_Run app os seg rt env h ctx s)"

text \<open>The options of an attempt; the function that \<open>Run\<close> wraps into the task's log.\<close>

definition attempt_opts :: "'w htask \<Rightarrow> duration \<Rightarrow> ('w \<Rightarrow> 'w) \<Rightarrow> path \<Rightarrow> 'w attempt_options" where
  "attempt_opts t retryDelay acquireLock taskDir =
     \<lparr>a_Config = t_Config (t_opts t), a_Journal = t_Journal (t_opts t),
      ChangedFile = Join [hPath (t_Config (t_opts t)), t_Name (t_opts t)], a_BaseDir = taskDir,
      Final = (retryDelay = Stop_delay), AcquireLock = Some acquireLock, a_Metrics = t_Metrics (t_opts t)\<rparr>"

definition run_attempt ::
  "'w os \<Rightarrow> ('c, 'r, 'w) invoke_func \<Rightarrow> 'w htask \<Rightarrow> duration \<Rightarrow> 'c \<Rightarrow> ('w \<Rightarrow> 'w) \<Rightarrow> 'r \<Rightarrow> 'w \<Rightarrow>
   ((err \<times> bool \<times> 'r) \<times> 'w) option" where
  "run_attempt os invoke t retryDelay ctx acquireLock r w =
     (case EnsureRelDir os (t_journalDir t) (Itoa (currentAttempt t)) ModePerm w of
        (Inl e, w1) \<Rightarrow> Some ((Some e, False, r), w1)
      | (Inr taskDir, w1) \<Rightarrow>
          (case invoke ctx (attempt_opts t retryDelay acquireLock taskDir) (r, w1) of
             None \<Rightarrow> None
           | Some ((permanent, err), r1, w2) \<Rightarrow> Some ((err, permanent, r1), w2)))"

definition next_attempt :: "'w htask \<Rightarrow> 'w htask" where
  "next_attempt t = t\<lparr>currentAttempt := currentAttempt t + 1\<rparr>"

definition task_Run ::
  "append_func \<Rightarrow> 'w os \<Rightarrow> segmenter \<Rightarrow> 'r Runtime \<Rightarrow> (handle \<Rightarrow> 'w \<Rightarrow> err \<times> 'w) \<Rightarrow> duration \<Rightarrow>
   ('c, 'r, 'w) invoke_func \<Rightarrow> rat \<Rightarrow> 'w htask \<Rightarrow> 'c \<Rightarrow> ('w \<Rightarrow> 'w) \<Rightarrow> 'r \<times> 'w \<Rightarrow> (err \<times> 'w htask \<times> 'r \<times> 'w) option" where
  "task_Run app os seg rt log_Sync ovf invoke rnd t ctx acquireLock s =
     (case ensureJournalDir os seg rt t s of
        None \<Rightarrow> None
      | Some (Some e, t1, s1) \<Rightarrow> Some (Some e, next_attempt t1, s1)
      | Some (None, t1, s1) \<Rightarrow>
          let strategy = (case retry t1 of Some r \<Rightarrow> r | None \<Rightarrow> strategy_New (t_Config (t_opts t1)));
              t2 = t1\<lparr>retry := Some strategy\<rparr>;
              retryDelay = Current strategy
          in case Wrap app os log_Sync (Join [t_journalDir t2, ''log.txt''])
                    (run_attempt os invoke t2 retryDelay ctx acquireLock (fst s1)) (False, fst s1) (snd s1) of
               None \<Rightarrow> None
             | Some ((err, permanent, r2), w2) \<Rightarrow>
                 if permanent \<or> err = None then Some (err, next_attempt t2, r2, w2)
                 else Some (Some (ErrTask err (Random ovf rnd retryDelay (fuzzFactor t2))),
                            next_attempt (t2\<lparr>retry := Some (Advance ovf strategy)\<rparr>), r2, w2))"

section \<open>Errors of the dependencies\<close>

text \<open>The errors of system calls are not \<open>*scheduler.TaskError\<close> values.\<close>

definition plain_errors :: "'w os \<Rightarrow> (handle \<Rightarrow> 'w \<Rightarrow> err \<times> 'w) \<Rightarrow> bool" where
  "plain_errors os log_Sync \<longleftrightarrow>
     (\<forall>p m w e w'. os_Mkdir os p m w = (Some e, w') \<longrightarrow> no_task_error e) \<and>
     (\<forall>h w e w'. f_Close os h w = (Some e, w') \<longrightarrow> no_task_error e) \<and>
     (\<forall>h w e w'. log_Sync h w = (Some e, w') \<longrightarrow> no_task_error e)"

lemma first_available_error:
  assumes "first_available act nxt p ok g w = Some y" "fst y = Inl e"
  shows "e = ErrIterExhausted \<or> (\<exists>p w w'. act p w = (Some e, w'))"
proof -
  have "\<forall>e. fst y = Inl e \<longrightarrow> e = ErrIterExhausted \<or> (\<exists>p w w'. act p w = (Some e, w'))"
    using assms(1)
  proof (rule first_available.raw_induct [rotated])
    fix rec :: "(path \<Rightarrow> 'b \<Rightarrow> err \<times> 'b) \<Rightarrow> 'a string_iter \<Rightarrow> path \<Rightarrow> bool \<Rightarrow> 'a \<Rightarrow> 'b \<Rightarrow> ((goerr + path) \<times> 'a \<times> 'b) option"
      and act :: "path \<Rightarrow> 'b \<Rightarrow> err \<times> 'b" and nxt p ok g w y
    let ?P = "\<lambda>act y. \<forall>e. fst y = Inl e \<longrightarrow> e = ErrIterExhausted \<or> (\<exists>p w w'. act p w = (Some e, w'))"
    assume IH: "\<And>act nxt p ok g w y. rec act nxt p ok g w = Some y \<Longrightarrow> ?P act y"
      and y: "(if \<not> ok then Some (Inl ErrIterExhausted, g, w)
         else case act p w of
             (None, w1) \<Rightarrow> Some (Inr p, g, w1)
           | (Some e, w1) \<Rightarrow>
               (case nxt g of
                  ((p1, ok1), g1) \<Rightarrow>
                    if \<not> (ok1 \<and> os_IsExist e) then Some (Inl e, g1, w1)
                    else rec act nxt p1 ok1 g1 w1)) = Some y"
    obtain err w1 where a: "act p w = (err, w1)" by fastforce
    obtain p1 ok1 g1 where n: "nxt g = ((p1, ok1), g1)" by (metis prod.collapse)
    show "?P act y"
      using y a n IH [of act nxt p1 ok1 g1 w1 y] by (cases ok; cases err) (auto split: if_splits)
  qed
  then show ?thesis using assms(2) by blast
qed

lemma EnsureRelDir_error:
  assumes "\<And>p w e w'. os_Mkdir os p perm w = (Some e, w') \<Longrightarrow> no_task_error e"
    "EnsureRelDir os base path perm w = (Inl e, w')"
  shows "no_task_error e"
proof -
  have loop: "EnsureRelDir_loop os b perm pre es w = (Some e, w') \<Longrightarrow> no_task_error e" for b pre es w w'
    by (induction es arbitrary: pre w)
      (auto simp: Let_def split: prod.splits sum.splits if_splits option.splits intro: assms(1))
  have "Resolve base path = Inl e \<Longrightarrow> no_task_error e"
    by (auto simp: Resolve_def ErrInvalid_def Let_def split: sum.splits if_splits)
  then show ?thesis
    using assms(2) loop by (auto simp: EnsureRelDir_def split: sum.splits if_splits prod.splits option.splits)
qed

lemma CreateTaskDir_error:
  assumes "plain_errors os log_Sync" "CreateTaskDir os seg rt j hint s = Some (Inl e, s')"
  shows "no_task_error e"
proof -
  have mk: "os_Mkdir os p m w = (Some e, w') \<Longrightarrow> no_task_error e" for p m w e w'
    using assms(1) unfolding plain_errors_def by blast
  show ?thesis
  proof (cases "ensureDirForName os rt j (journalDir j) hint (snd s)")
    case (Pair res w1)
    show ?thesis
    proof (cases res)
      case (Inl x)
      have "uniquename_New rt p opts = Inl x \<Longrightarrow> no_task_error x" for p opts
        by (auto simp: uniquename_New_def Let_def split: prod.splits if_splits)
      then have "no_task_error x"
        using Pair Inl EnsureRelDir_error [OF mk]
        by (auto simp: ensureDirForName_def ensureDir_def ErrInvalid_def Let_def split: if_splits prod.splits sum.splits)
      then show ?thesis using assms(2) Pair Inl by (simp add: CreateTaskDir_def)
    next
      case (Inr g)
      then obtain gr w2 where "MakeAvailableDir os (gen_iter seg rt) (g, fst s) w1 = Some (Inl e, gr, w2)"
        using assms(2) Pair by (auto simp: CreateTaskDir_def)
      moreover obtain p ok g1 where "gen_iter seg rt (g, fst s) = ((p, ok), g1)" by (metis prod.collapse)
      ultimately have "first_available (\<lambda>p. os_Mkdir os p ModePerm) (gen_iter seg rt) p ok g1 w1 = Some (Inl e, gr, w2)"
        by (simp add: MakeAvailableDir_def)
      from first_available_error [OF this] have "e = ErrIterExhausted \<or> (\<exists>p w w'. os_Mkdir os p ModePerm w = (Some e, w'))"
        by simp
      then show ?thesis using mk by (auto simp: ErrIterExhausted_def)
    qed
  qed
qed

section \<open>The sequence of attempts\<close>

text \<open>
  \<open>retrying k t\<close>: \<open>t\<close> is a task after \<open>k\<close> runs, each of which asked the scheduler to run it again. The
  world may have changed in any way between two runs.
\<close>

inductive retrying ::
  "append_func \<Rightarrow> 'w os \<Rightarrow> segmenter \<Rightarrow> 'r Runtime \<Rightarrow> (handle \<Rightarrow> 'w \<Rightarrow> err \<times> 'w) \<Rightarrow> duration \<Rightarrow>
   ('c, 'r, 'w) invoke_func \<Rightarrow> 'w task_options \<Rightarrow> nat \<Rightarrow> 'w htask \<Rightarrow> bool"
  for app os seg rt log_Sync ovf invoke opts where
  start: "retrying app os seg rt log_Sync ovf invoke opts 0 (task_New opts)"
| again: "retrying app os seg rt log_Sync ovf invoke opts (Suc k) t'"
  if "retrying app os seg rt log_Sync ovf invoke opts k t" "0 \<le> rnd" "rnd < 1"
    "task_Run app os seg rt log_Sync ovf invoke rnd t ctx lock s = Some (Some e, t', s')"
    "\<not> Permanent (AsTaskError (Some e))"

definition strategy :: "'w htask \<Rightarrow> Strategy" where
  "strategy t = (case retry t of Some r \<Rightarrow> r | None \<Rightarrow> strategy_New (t_Config (t_opts t)))"

definition permanent_plain :: "('c, 'r, 'w) invoke_func \<Rightarrow> bool" where
  "permanent_plain invoke \<longleftrightarrow> (\<forall>ctx opts s e s'. invoke ctx opts s = Some ((True, Some e), s') \<longrightarrow> no_task_error e)"

lemma Wrap_permanent:
  assumes "multierr_law app" "plain_errors os log_Sync" "permanent_plain invoke"
    "Wrap app os log_Sync path (run_attempt os invoke t d ctx lock r) (False, r) w = Some ((Some e, True, r'), w')"
  shows "no_task_error e"
proof -
  obtain h w1 where o: "os_OpenFile os path log_flags 438 w = (Inr h, w1)"
    using assms(4) by (auto simp: Wrap_def split: prod.splits sum.splits)
  obtain err w2 ce where r: "run_attempt os invoke t d ctx lock r w1 = Some ((err, True, r'), w2)"
      "log_close app os log_Sync h w2 = (ce, w')" "app err ce = Some e"
    using assms(4) o by (auto simp: Wrap_def split: prod.splits option.splits)
  have "no_task_error x" if x: "err = Some x" for x
  proof -
    obtain taskDir w0 where "EnsureRelDir os (t_journalDir t) (Itoa (currentAttempt t)) ModePerm w1 = (Inr taskDir, w0)"
      using r(1) by (auto simp: run_attempt_def split: prod.splits sum.splits)
    then have "invoke ctx (attempt_opts t d lock taskDir) (r, w0) = Some ((True, Some x), r', w2)"
      using r(1) x by (auto simp: run_attempt_def split: prod.splits option.splits)
    then show ?thesis using assms(3) unfolding permanent_plain_def by blast
  qed
  moreover have "ce = Some x \<Longrightarrow> no_task_error x" for x
    using log_close_no_task_error [OF assms(1)] r(2) assms(2) unfolding plain_errors_def by metis
  ultimately show ?thesis by (rule multierr_no_task_error [OF assms(1) r(3)])
qed

text \<open>A run that asks for another one: the error carries the fuzzed delay of the strategy.\<close>

lemma ensureJournalDir_keeps:
  assumes "ensureJournalDir os seg rt t s = Some (je, t1, s1)"
  shows "t_opts t1 = t_opts t" "fuzzFactor t1 = fuzzFactor t" "currentAttempt t1 = currentAttempt t" "retry t1 = retry t"
  using assms by (auto simp: ensureJournalDir_def split: if_splits option.splits prod.splits sum.splits)

lemma task_Run_again:
  assumes "multierr_law app" "plain_errors os log_Sync" "permanent_plain invoke"
    "task_Run app os seg rt log_Sync ovf invoke rnd t ctx lock s = Some (Some e, t', s')"
    "\<not> Permanent (AsTaskError (Some e))"
  shows "\<exists>x. e = ErrTask x (Random ovf rnd (Current (strategy t)) (fuzzFactor t))"
    "t_opts t' = t_opts t" "fuzzFactor t' = fuzzFactor t" "currentAttempt t' = currentAttempt t + 1"
    "strategy t' = Advance ovf (strategy t)"
proof -
  obtain je t1 s1 where j: "ensureJournalDir os seg rt t s = Some (je, t1, s1)"
    using assms(4) by (auto simp: task_Run_def split: option.splits)
  note t1 = ensureJournalDir_keeps [OF j]
  have "je = None"
  proof (rule ccontr)
    assume "je \<noteq> None"
    then obtain x where "je = Some x" by blast
    then have "je = Some e" using assms(4) j by (simp add: task_Run_def)
    then have "t_journalDir t = []" using j by (simp add: ensureJournalDir_def split: if_splits)
    then obtain x s2 where x: "CreateTaskDir os seg rt (t_Journal (t_opts t)) (t_Name (t_opts t)) s = Some (Inl x, s2)"
        "e = ErrWrap ''creating journal directory failed'' x"
      using j \<open>je = Some e\<close>
      by (simp add: ensureJournalDir_def split: option.splits prod.splits sum.splits)
    then have "no_task_error e" using CreateTaskDir_error [OF assms(2) x(1)] by simp
    then show False using assms(5) Permanent_plain [of e] by simp
  qed
  let ?t2 = "t1\<lparr>retry := Some (strategy t)\<rparr>"
  have st: "(case retry t1 of Some r \<Rightarrow> r | None \<Rightarrow> strategy_New (t_Config (t_opts t1))) = strategy t"
    by (simp only: strategy_def t1)
  obtain err permanent r2 w2 where w: "Wrap app os log_Sync (Join [t_journalDir ?t2, ''log.txt''])
        (run_attempt os invoke ?t2 (Current (strategy t)) ctx lock (fst s1)) (False, fst s1) (snd s1) =
      Some ((err, permanent, r2), w2)"
    using assms(4) j \<open>je = None\<close> st
    by (simp add: task_Run_def Let_def split: option.splits prod.splits)
  have run: "task_Run app os seg rt log_Sync ovf invoke rnd t ctx lock s =
      (if permanent \<or> err = None then Some (err, next_attempt ?t2, r2, w2)
       else Some (Some (ErrTask err (Random ovf rnd (Current (strategy t)) (fuzzFactor ?t2))),
              next_attempt (?t2\<lparr>retry := Some (Advance ovf (strategy t))\<rparr>), r2, w2))"
    using j \<open>je = None\<close> st w by (simp add: task_Run_def Let_def)
  have "\<not> (permanent \<or> err = None)"
  proof
    assume a: "permanent \<or> err = None"
    then have "err = Some e" "permanent" using assms(4) run by auto
    then have "no_task_error e" using Wrap_permanent [OF assms(1-3)] w by simp
    then show False using assms(5) Permanent_plain [of e] by simp
  qed
  then have "e = ErrTask err (Random ovf rnd (Current (strategy t)) (fuzzFactor t))"
      and t': "t' = next_attempt (?t2\<lparr>retry := Some (Advance ovf (strategy t))\<rparr>)"
    using assms(4) run t1 by auto
  then show "\<exists>x. e = ErrTask x (Random ovf rnd (Current (strategy t)) (fuzzFactor t))"
    "t_opts t' = t_opts t" "fuzzFactor t' = fuzzFactor t" "currentAttempt t' = currentAttempt t + 1"
    "strategy t' = Advance ovf (strategy t)"
    using t1 by (auto simp: next_attempt_def strategy_def)
qed

lemma fuzzFactor_range: "0 \<le> fround 24 (1/10)" "fround 24 (1/10) \<le> 1"
  using fround24_mono [of 0 "1/10"] fround24_mono [of "1/10" 1] fround_of_int [of 1 24] by simp_all

lemma retrying_inv:
  assumes "multierr_law app" "plain_errors os log_Sync" "permanent_plain invoke"
    "handler_valid (t_Config opts)" "0 < RetryDelayMax (t_Config opts)" "RetryDelayMax (t_Config opts) \<le> 2 ^ 53"
    "retrying app os seg rt log_Sync ovf invoke opts k t"
  shows "t_opts t = opts \<and> fuzzFactor t = fround 24 (1/10) \<and> currentAttempt t = int k \<and>
    strategy t = (Advance ovf ^^ k) (strategy_New (t_Config opts)) \<and> int k \<le> RetryCount (t_Config opts)"
  using assms(7)
proof (induction rule: retrying.induct)
  case start
  show ?case using assms(4) by (simp add: task_New_def strategy_def handler_valid_def)
next
  case (again k t rnd ctx lock s e t' s')
  note r = task_Run_again [OF assms(1-3) again(4,5)]
  have "int k < RetryCount (t_Config opts)"
  proof (rule ccontr)
    assume "\<not> int k < RetryCount (t_Config opts)"
    then have "Current (strategy t) = Stop_delay"
      using retry_delay_bounds [OF assms(4-6), of k ovf] again.IH by (simp add: retry_delay_def)
    then have "\<exists>x. e = ErrTask x Stop_delay"
      using r(1) again.IH Random_Stop [OF fuzzFactor_range, of rnd ovf] again(2,3) by simp
    then show False using again(5) by (auto simp: Stop_delay_def)
  qed
  then show ?case using again.IH r by simp
qed

section \<open>Properties\<close>


definition failing_invoke :: "(unit, nat, fs) invoke_func" where
  "failing_invoke ctx opts s = Some ((False, Some (ErrNew ''exit status 1'')), s)"

definition sample_task_options :: "fs task_options" where
  "sample_task_options =
     \<lparr>t_Config = sample_handler, t_Journal = journal_New sample_handler, t_Name = ''f'', t_Metrics = None\<rparr>"

lemma plain_errors_plain: "plain_errors plain_os plain_Sync"
proof -
  have "os_Mkdir plain_os p m w = (Some e, w') \<Longrightarrow> no_task_error e" for p m w e w'
    by (auto simp: plain_os_def plain_Mkdir_def parent_error_def split: option.splits if_splits)
  moreover have "f_Close plain_os h w = (Some e, w') \<Longrightarrow> no_task_error e" for h w e w'
    by (auto simp: plain_os_def plain_Close_def split: option.splits)
  moreover have "plain_Sync h w = (Some e, w') \<Longrightarrow> no_task_error e" for h w e w'
    by (auto simp: plain_Sync_def split: if_splits)
  ultimately show ?thesis unfolding plain_errors_def by blast
qed


end
