(* ===== verification/HandlerMetrics.thy ===== *)
theory HandlerMetrics
  imports Config Strconv
begin

text \<open>
  \<open>watch/metrics.go\<close> and \<open>watch/handlermetrics.go\<close>: the metrics of a handler. The Prometheus client
  library is a dependency; a counter is represented by the number of times it was incremented and a
  histogram by the values it observed, the newest first. \<open>expRange\<close> stands for
  \<open>prometheus.ExponentialBucketsRange\<close>.
\<close>

section \<open>metrics.go\<close>

text \<open>\<open>math.Round\<close>: halves are rounded away from zero. \<open>time.Duration.Seconds\<close>.\<close>

definition Round :: "rat \<Rightarrow> rat" where
  "Round x = (if x < 0 then - of_int \<lfloor>1/2 - x\<rfloor> else of_int \<lfloor>x + 1/2\<rfloor>)"

definition Seconds :: "duration \<Rightarrow> rat" where
  "Seconds d =
     (let sec = sgn d * (\<bar>d\<bar> div second); nsec = sgn d * (\<bar>d\<bar> mod second)
      in fround 53 (of_int sec + fround 53 (of_int nsec / of_int second)))"

text \<open>One iteration of the loop that overwrites the front of the slice it reads.\<close>

definition buckets_step :: "nat \<times> rat list \<Rightarrow> nat \<Rightarrow> nat \<times> rat list" where
  "buckets_step st i =
     (let (dst, buckets) = st; v = Round (buckets ! i)
      in if dst = 0 \<or> v > buckets ! (dst - 1) then (dst + 1, buckets[dst := v]) else (dst, buckets))"

definition makeSecondsBuckets :: "(rat \<Rightarrow> rat \<Rightarrow> int \<Rightarrow> rat list) \<Rightarrow> duration \<Rightarrow> duration \<Rightarrow> int \<Rightarrow> rat list" where
  "makeSecondsBuckets expRange lo hi n =
     (let buckets = expRange (Seconds lo) (Seconds hi) n;
          (dst, buckets') = foldl buckets_step (0, buckets) [0..<length buckets]
      in take dst buckets')"

section \<open>handlermetrics.go\<close>

definition makeHandlerTimeBuckets :: "(rat \<Rightarrow> rat \<Rightarrow> int \<Rightarrow> rat list) \<Rightarrow> Handler \<Rightarrow> rat list" where
  "makeHandlerTimeBuckets expRange cfg =
     (let timeBucketsMin = second;
          timeBucketsMax = (if Timeout cfg \<le> timeBucketsMin then timeBucketsMin + 1 else Timeout cfg)
      in makeSecondsBuckets expRange timeBucketsMin timeBucketsMax 10)"

record handlerMetricsCollector =
  infoPath :: path
  fileChangeCount :: nat
  retryCount :: nat
  finishedCount :: nat
  failureCount :: nat
  commandExitCodeCount :: "string \<rightharpoonup> nat"
  timeBuckets :: "rat list"
  commandWallTime :: "rat list"
  commandUserTime :: "rat list"
  commandSystemTime :: "rat list"

definition newHandlerMetricsCollector :: "(rat \<Rightarrow> rat \<Rightarrow> int \<Rightarrow> rat list) \<Rightarrow> Handler \<Rightarrow> handlerMetricsCollector" where
  "newHandlerMetricsCollector expRange cfg =
     \<lparr>infoPath = Clean (hPath cfg), fileChangeCount = 0, retryCount = 0, finishedCount = 0, failureCount = 0,
      commandExitCodeCount = [''0'' \<mapsto> 0], timeBuckets = makeHandlerTimeBuckets expRange cfg,
      commandWallTime = [], commandUserTime = [], commandSystemTime = []\<rparr>"

definition ReportFileChange :: "handlerMetricsCollector \<Rightarrow> handlerMetricsCollector" where
  "ReportFileChange c = c\<lparr>fileChangeCount := fileChangeCount c + 1\<rparr>"

definition ReportProcessState ::
  "int \<Rightarrow> duration \<Rightarrow> duration \<Rightarrow> duration \<Rightarrow> handlerMetricsCollector \<Rightarrow> handlerMetricsCollector" where
  "ReportProcessState exitCode wallTime userTime systemTime c =
     (let code = Itoa exitCode;
          n = (case commandExitCodeCount c code of None \<Rightarrow> 0 | Some n \<Rightarrow> n)
      in c\<lparr>commandExitCodeCount := (commandExitCodeCount c)(code \<mapsto> n + 1),
           commandWallTime := Seconds wallTime # commandWallTime c,
           commandUserTime := Seconds userTime # commandUserTime c,
           commandSystemTime := Seconds systemTime # commandSystemTime c\<rparr>)"

definition ReportTaskRetry :: "handlerMetricsCollector \<Rightarrow> handlerMetricsCollector" where
  "ReportTaskRetry c = c\<lparr>retryCount := retryCount c + 1\<rparr>"

definition ReportFinalTaskStatus :: "bool \<Rightarrow> handlerMetricsCollector \<Rightarrow> handlerMetricsCollector" where
  "ReportFinalTaskStatus failed c =
     (let c1 = c\<lparr>finishedCount := finishedCount c + 1\<rparr>
      in if failed then c1\<lparr>failureCount := failureCount c1 + 1\<rparr> else c1)"

section \<open>The buckets\<close>

text \<open>The strictly rising part of a list, as a function.\<close>

fun rising :: "rat option \<Rightarrow> rat list \<Rightarrow> rat list" where
  "rising m [] = []"
| "rising None (x # xs) = x # rising (Some x) xs"
| "rising (Some m) (x # xs) = (if x > m then x # rising (Some x) xs else rising (Some m) xs)"

lemma rising_above: "y \<in> set (rising (Some m) xs) \<Longrightarrow> m < y"
  by (induction xs arbitrary: m) (auto split: if_splits, force)

lemma rising_sorted: "sorted_wrt (<) (rising m xs)"
  by (induction m xs rule: rising.induct) (auto dest: rising_above)

lemma rising_set: "sorted xs \<Longrightarrow> (\<forall>x \<in> set xs. m \<le> x) \<Longrightarrow> insert m (set (rising (Some m) xs)) = insert m (set xs)"
proof (induction xs arbitrary: m)
  case (Cons a xs)
  then have "insert a (set (rising (Some a) xs)) = insert a (set xs)" by simp
  moreover have "\<not> a > m \<Longrightarrow> a = m" using Cons.prems by force
  ultimately show ?case by auto
qed simp

lemma rising_append:
  "rising m (xs @ [x]) = rising m xs @
     (case (if rising m xs = [] then m else Some (last (rising m xs))) of
        None \<Rightarrow> [x] | Some y \<Rightarrow> if x > y then [x] else [])"
  by (induction m xs rule: rising.induct) (auto split: option.splits)

lemma length_rising: "length (rising m xs) \<le> length xs"
  by (induction m xs rule: rising.induct) auto

lemma buckets_loop:
  "k \<le> length bs \<Longrightarrow>
   (case foldl buckets_step (0, bs) [0..<k] of (dst, bs') \<Rightarrow>
      dst = length (rising None (map Round (take k bs))) \<and>
      bs' = rising None (map Round (take k bs)) @ drop dst bs)"
proof (induction k)
  case (Suc k)
  let ?r = "rising None (map Round (take k bs))"
  have len: "length ?r \<le> k" using length_rising [of None "map Round (take k bs)"] Suc.prems by simp
  have IH: "foldl buckets_step (0, bs) [0..<k] = (length ?r, ?r @ drop (length ?r) bs)"
    using Suc by (auto split: prod.splits)
  let ?v = "Round (bs ! k)"
  have nth: "(?r @ drop (length ?r) bs) ! k = bs ! k"
    using len Suc.prems by (simp add: nth_append)
  have upd: "(?r @ drop (length ?r) bs)[length ?r := ?v] = (?r @ [?v]) @ drop (Suc (length ?r)) bs"
    using len Suc.prems by (simp add: list_update_append Cons_nth_drop_Suc [symmetric])
  have last: "?r \<noteq> [] \<Longrightarrow> (?r @ drop (length ?r) bs) ! (length ?r - 1) = last ?r"
    by (simp add: nth_append last_conv_nth)
  have r': "rising None (map Round (take (Suc k) bs)) = (if ?r = [] \<or> ?v > last ?r then ?r @ [?v] else ?r)"
    using Suc.prems by (simp add: take_Suc_conv_app_nth rising_append)
  have step: "foldl buckets_step (0, bs) [0..<Suc k] = buckets_step (length ?r, ?r @ drop (length ?r) bs) k"
    by (simp add: IH)
  have "foldl buckets_step (0, bs) [0..<Suc k] =
      (if ?r = [] \<or> ?v > last ?r then (length ?r + 1, (?r @ [?v]) @ drop (Suc (length ?r)) bs)
       else (length ?r, ?r @ drop (length ?r) bs))"
    unfolding step buckets_step_def Let_def prod.case nth upd using last by (cases "?r = []") simp_all
  then show ?case unfolding r' by (simp split: if_splits)
qed simp

lemma makeSecondsBuckets_rising:
  "makeSecondsBuckets expRange lo hi n = rising None (map Round (expRange (Seconds lo) (Seconds hi) n))"
  using buckets_loop [of "length (expRange (Seconds lo) (Seconds hi) n)" "expRange (Seconds lo) (Seconds hi) n"]
  by (auto simp: makeSecondsBuckets_def Let_def split: prod.splits)

text \<open>
  The in-place loop that makes the buckets of the time histograms computes the strictly rising
  part of the rounded boundaries. The result is always strictly increasing, as the library demands
  of the buckets of a histogram, and if the boundaries the library proposes are in order, no
  boundary is lost but its duplicates.
\<close>

theorem time_buckets_equivalent:
  assumes "sorted (expRange (Seconds lo) (Seconds hi) n)"
  shows "makeSecondsBuckets expRange lo hi n = rising None (map Round (expRange (Seconds lo) (Seconds hi) n)) \<and>
    sorted_wrt (<) (makeSecondsBuckets expRange lo hi n) \<and>
    set (makeSecondsBuckets expRange lo hi n) = Round ` set (expRange (Seconds lo) (Seconds hi) n)"
proof -
  let ?bs = "expRange (Seconds lo) (Seconds hi) n"
  have mono: "x \<le> y \<Longrightarrow> Round x \<le> Round y" for x y
    by (auto simp: Round_def intro!: floor_mono order_trans [of "- of_int \<lfloor>1 / 2 - x\<rfloor>" 0 "of_int \<lfloor>y + 1 / 2\<rfloor>"])
  have "sorted (map Round ?bs)"
    unfolding sorted_map using assms by (rule sorted_wrt_mono_rel [rotated]) (rule mono)
  then have "set (rising None (map Round ?bs)) = set (map Round ?bs)"
  proof (cases "map Round ?bs")
    case (Cons a as)
    then show ?thesis using rising_set [of as a] \<open>sorted (map Round ?bs)\<close> by simp
  qed simp
  then show ?thesis by (simp add: makeSecondsBuckets_rising rising_sorted)
qed

theorem time_buckets_equivalent_witness:
  "makeSecondsBuckets (\<lambda>lo hi n. [lo, 14/10, 25/10, hi]) second (4 * second) 4 = [1, 3, 4]"
proof -
  let ?e = "\<lambda>lo hi (n :: int). [lo, 14/10, 25/10, hi] :: rat list"
  have s: "Seconds second = 1" "Seconds (4 * second) = 4" by code_simp+
  have "sorted (?e (Seconds second) (Seconds (4 * second)) 4)" by (simp add: s)
  note t = conjunct1 [OF time_buckets_equivalent [of ?e second "4 * second" 4, OF this]]
  have "rising None (map Round (?e (Seconds second) (Seconds (4 * second)) 4)) = [1, 3, 4]" by code_simp
  with t show ?thesis by (simp only: simp_thms)
qed

end
