(* ===== verification/FileChange.thy ===== *)
theory FileChange
  imports Strconv GoErrors FilePath
begin

text \<open>
  \<open>internal/watchman/filechange.go\<close>: the description of a changed file and its JSON form, and the
  request of \<open>internal/service\<close> that carries it. A JSON text is represented by its value; a number
  is represented by its literal.
\<close>

section \<open>JSON values\<close>

datatype json = JNull | JBool bool | JNum string | JStr string | JArr "json list" | JObj "(string \<times> json) list"

text \<open>
  \<open>encoding/json\<close> compares member names with the names of a structure's fields ignoring case, with
  Unicode's simple folding: besides the ASCII letters, U+017F folds to \<open>s\<close> and U+212A to \<open>k\<close>.
\<close>

definition lower :: "char \<Rightarrow> char" where
  "lower c = (if byte_in c 65 90 then char_of (of_char c + 32 :: int) else c)"

fun fold_name :: "string \<Rightarrow> string" where
  "fold_name [] = []"
| "fold_name (c # cs) =
     (case cs of
        d # ds \<Rightarrow>
          if c = CHR 0xC5 \<and> d = CHR 0xBF then CHR ''s'' # fold_name ds
          else (case ds of
                  e # es \<Rightarrow>
                    if c = CHR 0xE2 \<and> d = CHR 0x84 \<and> e = CHR 0xAA then CHR ''k'' # fold_name es
                    else lower c # fold_name cs
                | [] \<Rightarrow> lower c # fold_name cs)
      | [] \<Rightarrow> [lower c])"

text \<open>Decoding a member into a string or an \<open>int64\<close>; \<open>null\<close> leaves the variable alone.\<close>

definition ErrUnmarshalType :: goerr where
  "ErrUnmarshalType = ErrNew ''json: cannot unmarshal value into Go value''"

definition decode_string :: "json \<Rightarrow> string \<Rightarrow> goerr + string" where
  "decode_string v old = (case v of JStr s \<Rightarrow> Inr s | JNull \<Rightarrow> Inr old | _ \<Rightarrow> Inl ErrUnmarshalType)"

definition decode_int64 :: "json \<Rightarrow> int \<Rightarrow> goerr + int" where
  "decode_int64 v old =
     (case v of
        JNum s \<Rightarrow> (case ParseInt s of Some n \<Rightarrow> Inr n | None \<Rightarrow> Inl ErrUnmarshalType)
      | JNull \<Rightarrow> Inr old
      | _ \<Rightarrow> Inl ErrUnmarshalType)"

section \<open>Time in microseconds\<close>

text \<open>January 1, 1970 in nanoseconds since the zero time; \<open>Time.UnixMicro\<close> and \<open>time.UnixMicro\<close>.\<close>

definition unix_epoch :: int where
  "unix_epoch = 62135596800 * 1000000000"

definition to_UnixMicro :: "gotime \<Rightarrow> int" where
  "to_UnixMicro t = wrap64 ((nanos t - unix_epoch) div 1000)"

definition of_UnixMicro :: "int \<Rightarrow> gotime" where
  "of_UnixMicro usec = Time (unix_epoch + usec * 1000)"

section \<open>filechange.go\<close>

definition FileChangeFields :: "string list" where
  "FileChangeFields = [''name'', ''size'', ''mtime_us'', ''cclock'']"

record FileChange =
  c_Name :: string
  c_Size :: int
  MTime :: gotime
  CClock :: string

text \<open>The zero value.\<close>

definition no_change :: FileChange where
  "no_change = \<lparr>c_Name = [], c_Size = 0, MTime = Time 0, CClock = []\<rparr>"

definition usec_MarshalJSON :: "gotime option \<Rightarrow> json" where
  "usec_MarshalJSON t = (case t of None \<Rightarrow> JNull | Some x \<Rightarrow> JNum (Itoa (to_UnixMicro x)))"

definition usec_UnmarshalJSON :: "json \<Rightarrow> goerr + gotime" where
  "usec_UnmarshalJSON data =
     (case decode_int64 data 0 of Inl e \<Rightarrow> Inl e | Inr usec \<Rightarrow> Inr (of_UnixMicro usec))"

definition MarshalJSON :: "FileChange \<Rightarrow> json" where
  "MarshalJSON c =
     JObj [(''name'', JStr (coerce_utf8 (c_Name c))), (''size'', JNum (Itoa (c_Size c))),
           (''cclock'', JStr (coerce_utf8 (CClock c))), (''mtime_us'', usec_MarshalJSON (Some (MTime c)))]"

text \<open>One member of the object; members that are not fields of the structure are ignored.\<close>

definition decode_member :: "string \<times> json \<Rightarrow> FileChange \<Rightarrow> goerr + FileChange" where
  "decode_member m r =
     (let k = fold_name (fst m); v = snd m
      in if k = ''name'' then map_sum id (\<lambda>s. r\<lparr>c_Name := s\<rparr>) (decode_string v (c_Name r))
         else if k = ''size'' then map_sum id (\<lambda>n. r\<lparr>c_Size := n\<rparr>) (decode_int64 v (c_Size r))
         else if k = ''cclock'' then map_sum id (\<lambda>s. r\<lparr>CClock := s\<rparr>) (decode_string v (CClock r))
         else if k = ''mtime_us'' then map_sum id (\<lambda>t. r\<lparr>MTime := t\<rparr>) (usec_UnmarshalJSON v)
         else Inr r)"

fun decode_members :: "(string \<times> json) list \<Rightarrow> FileChange \<Rightarrow> goerr + FileChange" where
  "decode_members [] r = Inr r"
| "decode_members (m # ms) r = (case decode_member m r of Inl e \<Rightarrow> Inl e | Inr r1 \<Rightarrow> decode_members ms r1)"

definition UnmarshalJSON :: "json \<Rightarrow> FileChange \<Rightarrow> err \<times> FileChange" where
  "UnmarshalJSON data c =
     (case data of
        JObj ms \<Rightarrow> (case decode_members ms no_change of Inl e \<Rightarrow> (Some e, c) | Inr r \<Rightarrow> (None, r))
      | JNull \<Rightarrow> (None, no_change)
      | _ \<Rightarrow> (Some ErrUnmarshalType, c))"

section \<open>service.go\<close>

record FileChangedRequest =
  HandlerName :: string
  RootDir :: path
  Change :: FileChange

section \<open>Properties\<close>

declare fold_name.simps [simp del]

lemma fold_name_fields:
  "fold_name ''name'' = ''name''" "fold_name ''size'' = ''size''" "fold_name ''cclock'' = ''cclock''"
  "fold_name ''mtime_us'' = ''mtime_us''"
  by code_simp+

lemma decode_known:
  "decode_member (''name'', v) r = map_sum id (\<lambda>s. r\<lparr>c_Name := s\<rparr>) (decode_string v (c_Name r))"
  "decode_member (''size'', v) r = map_sum id (\<lambda>n. r\<lparr>c_Size := n\<rparr>) (decode_int64 v (c_Size r))"
  "decode_member (''cclock'', v) r = map_sum id (\<lambda>s. r\<lparr>CClock := s\<rparr>) (decode_string v (CClock r))"
  "decode_member (''mtime_us'', v) r = map_sum id (\<lambda>t. r\<lparr>MTime := t\<rparr>) (usec_UnmarshalJSON v)"
  by (simp_all add: decode_member_def fold_name_fields)

lemma decode_unknown: "fold_name k \<notin> set FileChangeFields \<Longrightarrow> decode_member (k, v) r = Inr r"
  by (auto simp: decode_member_def FileChangeFields_def Let_def)

text \<open>The members of a written change, in any order and among others: each of them sets its field.\<close>

lemma decode_written:
  assumes "\<And>k v. (k, v) \<in> set ms \<Longrightarrow> (k, v) \<in> {(''name'', JStr n), (''size'', JNum (Itoa z)), (''cclock'', JStr cc),
      (''mtime_us'', usec_MarshalJSON (Some t))} \<or> fold_name k \<notin> set FileChangeFields"
    "- (2 ^ 63) \<le> z" "z < 2 ^ 63"
  shows "decode_members ms r = Inr \<lparr>c_Name = if (''name'', JStr n) \<in> set ms then n else c_Name r,
      c_Size = if (''size'', JNum (Itoa z)) \<in> set ms then z else c_Size r,
      MTime = if (''mtime_us'', usec_MarshalJSON (Some t)) \<in> set ms then of_UnixMicro (to_UnixMicro t) else MTime r,
      CClock = if (''cclock'', JStr cc) \<in> set ms then cc else CClock r\<rparr>"
proof -
  have z: "decode_int64 (JNum (Itoa z)) y = Inr z" for y
    using ParseInt_Itoa [OF assms(2,3)] by (simp add: decode_int64_def)
  have "ParseInt (Itoa (to_UnixMicro t)) = Some (to_UnixMicro t)"
    using wrap64_range [of "(nanos t - unix_epoch) div 1000"] by (intro ParseInt_Itoa) (simp_all add: to_UnixMicro_def)
  then have t: "usec_UnmarshalJSON (usec_MarshalJSON (Some t)) = Inr (of_UnixMicro (to_UnixMicro t))"
    by (simp add: usec_UnmarshalJSON_def usec_MarshalJSON_def decode_int64_def)
  show ?thesis using assms(1)
  proof (induction ms arbitrary: r)
    case Nil
    show ?case by simp
  next
    case (Cons m ms)
    obtain k v where m: "m = (k, v)" by (cases m)
    note IH = Cons.IH [OF Cons.prems]
    consider "m = (''name'', JStr n)" | "m = (''size'', JNum (Itoa z))" | "m = (''cclock'', JStr cc)"
      | "m = (''mtime_us'', usec_MarshalJSON (Some t))" | "fold_name k \<notin> set FileChangeFields"
      using Cons.prems [of k v] m by auto
    then show ?case
    proof cases
      case 5
      have "k \<noteq> ''name''" "k \<noteq> ''size''" "k \<noteq> ''cclock''" "k \<noteq> ''mtime_us''"
        using 5 by (auto simp: fold_name_fields FileChangeFields_def)
      then show ?thesis using IH [of r] m by (simp add: decode_unknown [OF 5])
    qed (use IH z t in \<open>simp_all add: decode_known decode_string_def\<close>)
  qed
qed

text \<open>Cutting a time to full microseconds.\<close>

lemma micro_roundtrip:
  assumes "nanos t mod 1000 = 0" "\<bar>nanos t - unix_epoch\<bar> \<le> 2 ^ 62 * 1000"
  shows "of_UnixMicro (to_UnixMicro t) = t"
proof -
  let ?n = "nanos t - unix_epoch"
  have m: "?n mod 1000 = 0"
  proof -
    have "?n = nanos t + (- 62135596800000000) * 1000" by (simp add: unix_epoch_def)
    then have "?n mod 1000 = nanos t mod 1000" by (simp only: mod_mult_self1)
    then show ?thesis using assms(1) by simp
  qed
  have e: "?n div 1000 * 1000 = ?n" using m by (simp add: mod_eq_0_iff_dvd)
  then have "\<bar>?n div 1000 * 1000\<bar> \<le> 4611686018427387904 * 1000" using assms(2) by simp
  then have "- 9223372036854775808 \<le> ?n div 1000" "?n div 1000 < 9223372036854775808" by linarith+
  then have "- (2 ^ 63) \<le> ?n div 1000" "?n div 1000 < 2 ^ 63" by simp_all
  then have "to_UnixMicro t = ?n div 1000" by (simp add: to_UnixMicro_def wrap64_id)
  with e show ?thesis by (cases t) (simp add: of_UnixMicro_def)
qed


definition sample_change :: FileChange where
  "sample_change = \<lparr>c_Name = ''dir/a.txt'', c_Size = 1234, MTime = of_UnixMicro 1650224366000000, CClock = ''c:1''\<rparr>"


end
