(* ===== verification/WatchHandler.thy ===== *)
theory WatchHandler
  imports HandlerTask HandlerMetrics FileChange Scheduler
begin

text \<open>
  \<open>watch/handler.go\<close> and \<open>watch/router.go\<close>: the router hands the reported file changes to the
  handlers, and a handler keeps at most one pending task per file. The functions handed to the
  scheduler are the values of type \<open>job\<close>; a task object is shared between the handler's map of
  pending tasks and the function in the scheduler, so both hold its identity.
\<close>

section \<open>handler.go\<close>

record handler =
  h_name :: string
  h_cfg :: Handler
  pending :: "string \<rightharpoonup> nat"
  h_journal :: Journal
  h_mc :: handlerMetricsCollector

datatype job = HandleFile string nat | PruneAll

definition newHandler :: "(rat \<Rightarrow> rat \<Rightarrow> int \<Rightarrow> rat list) \<Rightarrow> Handler \<Rightarrow> handler" where
  "newHandler expRange c =
     \<lparr>h_name = hName c, h_cfg = c, pending = Map.empty, h_journal = journal_New c,
      h_mc = newHandlerMetricsCollector expRange c\<rparr>"

text \<open>\<open>rep\<close> is the handler's metrics collector, seen as the interface the task reports to.\<close>

definition handler_newTask :: "'w reporter \<Rightarrow> handler \<Rightarrow> string \<Rightarrow> 'w htask" where
  "handler_newTask rep h name =
     task_New \<lparr>t_Config = h_cfg h, t_Journal = h_journal h, t_Name = name, t_Metrics = Some rep\<rparr>"

text \<open>What \<open>invokeTask\<close> does when \<open>invoke\<close> has returned \<open>err\<close> for the task of file \<open>name\<close>.\<close>

definition invokeTask_end :: "err \<Rightarrow> string \<Rightarrow> handler \<Rightarrow> handler" where
  "invokeTask_end err name h =
     (if Permanent (AsTaskError err) then
        h\<lparr>h_mc := ReportFinalTaskStatus (err \<noteq> None) (h_mc h), pending := (pending h)(name := None)\<rparr>
      else h\<lparr>h_mc := ReportTaskRetry (h_mc h)\<rparr>)"

text \<open>The critical section of \<open>handle\<close>: \<open>t\<close> is the identity of the task object it makes if the file
  has no pending task; the function to be scheduled is the first component of the result.\<close>

definition handle_locked :: "nat \<Rightarrow> string \<Rightarrow> handler \<Rightarrow> job option \<times> handler" where
  "handle_locked t name h =
     (let (j, h1) = (case pending h name of
            None \<Rightarrow> (Some (HandleFile (h_name h) t), h\<lparr>pending := (pending h)(name \<mapsto> t)\<rparr>)
          | Some _ \<Rightarrow> (None, h))
      in (j, h1\<lparr>h_mc := ReportFileChange (h_mc h1)\<rparr>))"

text \<open>The task objects and the scheduler.\<close>

record 'w tasks_state =
  objects :: "nat \<Rightarrow> 'w htask"
  nextObject :: nat
  t_sched :: "job scheduler"

definition ErrRootDiffers :: goerr where
  "ErrRootDiffers = ErrNew ''root directory in request differs from configuration''"

definition handle ::
  "append_func \<Rightarrow> 'w os \<Rightarrow> 'w reporter \<Rightarrow> FileChangedRequest \<Rightarrow> handler \<Rightarrow> 'w tasks_state \<Rightarrow> 'w \<Rightarrow>
   (err \<times> handler \<times> 'w tasks_state \<times> 'w) may_panic" where
  "handle app os rep req h ts w =
     (case SameStat app os (RootDir req) (hPath (h_cfg h)) w of
        (Inl e, w1) \<Rightarrow> Inr (Some e, h, ts, w1)
      | (Inr ok, w1) \<Rightarrow>
          if \<not> ok then Inr (Some ErrRootDiffers, h, ts, w1)
          else
            let name = Clean (c_Name (Change req));
                t = nextObject ts
            in case handle_locked t name h of
                 (None, h1) \<Rightarrow> Inr (None, h1, ts, w1)
               | (Some j, h1) \<Rightarrow>
                   (case Add (Some j) [] (t_sched ts) of
                      Inl p \<Rightarrow> Inl p
                    | Inr s1 \<Rightarrow>
                        Inr (None, h1,
                             \<lparr>objects = (objects ts)(t := handler_newTask rep h name), nextObject = Suc t, t_sched = s1\<rparr>, w1)))"

definition handler_prune ::
  "append_func \<Rightarrow> 'w os \<Rightarrow> 'w prune_env \<Rightarrow> 'r Runtime \<Rightarrow> gotime \<Rightarrow> handler \<Rightarrow> 'w \<Rightarrow> err \<times> 'w" where
  "handler_prune app os env rt t h w = journal_Prune app os env rt t (h_journal h) w"

section \<open>router.go\<close>

record 'w router =
  handlerByName :: "string \<rightharpoonup> handler"
  r_tasks :: "'w tasks_state"
  pruneInterval :: duration

text \<open>\<open>sched\<close> is a new scheduler; \<open>objs\<close> is the heap the task objects are made in.\<close>

fun add_handlers :: "(rat \<Rightarrow> rat \<Rightarrow> int \<Rightarrow> rat list) \<Rightarrow> Handler list \<Rightarrow> (string \<rightharpoonup> handler) \<Rightarrow> (string \<rightharpoonup> handler)" where
  "add_handlers expRange [] m = m"
| "add_handlers expRange (c # cs) m = add_handlers expRange cs (m(hName c \<mapsto> newHandler expRange c))"

definition newRouter ::
  "(rat \<Rightarrow> rat \<Rightarrow> int \<Rightarrow> rat list) \<Rightarrow> job scheduler \<Rightarrow> (nat \<Rightarrow> 'w htask) \<Rightarrow> Handler list \<Rightarrow> 'w router" where
  "newRouter expRange sched objs handlers =
     \<lparr>handlerByName = add_handlers expRange handlers Map.empty,
      r_tasks = \<lparr>objects = objs, nextObject = 0, t_sched = sched\<rparr>, pruneInterval = hour\<rparr>"

definition set_sched :: "job scheduler \<Rightarrow> 'w router \<Rightarrow> 'w router" where
  "set_sched s r = r\<lparr>r_tasks := (r_tasks r)\<lparr>t_sched := s\<rparr>\<rparr>"

definition router_start :: "int \<Rightarrow> 'w router \<Rightarrow> 'w router may_panic" where
  "router_start n r =
     map_sum id (\<lambda>s. set_sched s r) (Start (notifyLoop (SetSlots n (t_sched (r_tasks r)))))"

definition FileChanged ::
  "append_func \<Rightarrow> 'w os \<Rightarrow> 'w reporter \<Rightarrow> FileChangedRequest \<Rightarrow> 'w router \<Rightarrow> 'w \<Rightarrow>
   (err \<times> 'w router \<times> 'w) may_panic" where
  "FileChanged app os rep req r w =
     (if HandlerName req = [] \<or> c_Name (Change req) = [] then
        Inr (Some (ErrNew ''missing handler name and/or changed file''), r, w)
      else if \<not> IsAbs (RootDir req) then Inr (Some (ErrNew ''root directory must be an absolute path''), r, w)
      else if IsAbs (c_Name (Change req)) then Inr (Some (ErrNew ''filename must be a relative path''), r, w)
      else
        case handlerByName r (HandlerName req) of
          None \<Rightarrow> Inr (Some (ErrNew ''handler not found''), r, w)
        | Some h \<Rightarrow>
            map_sum id (\<lambda>(err, h1, ts, w1).
                (err, r\<lparr>handlerByName := (handlerByName r)(HandlerName req \<mapsto> h1), r_tasks := ts\<rparr>, w1))
              (handle app os rep req h (r_tasks r) w))"

text \<open>\<open>rnd\<close> and \<open>ovf\<close> are as for \<open>Random\<close>, \<open>t\<close> is the current time.\<close>

definition schedulePruning :: "duration \<Rightarrow> rat \<Rightarrow> gotime \<Rightarrow> duration \<Rightarrow> 'w router \<Rightarrow> 'w router may_panic" where
  "schedulePruning ovf rnd t after r =
     map_sum id (\<lambda>s. set_sched s r)
       (Add (Some PruneAll) [NextAfterDuration t (Random ovf rnd after (fround 24 (1/10)))] (t_sched (r_tasks r)))"

definition startPruning :: "duration \<Rightarrow> rat \<Rightarrow> gotime \<Rightarrow> duration \<Rightarrow> 'w router \<Rightarrow> 'w router may_panic" where
  "startPruning ovf rnd t interval r =
     schedulePruning ovf rnd t (sgn interval * (\<bar>interval\<bar> div 10)) (r\<lparr>pruneInterval := interval\<rparr>)"

text \<open>
  \<open>pruneAll\<close>: the handlers are visited in the order \<open>hs\<close>, which Go leaves open. The result is the
  error and whether the next pruning is to be scheduled.
\<close>

fun pruneAll_loop ::
  "append_func \<Rightarrow> 'w os \<Rightarrow> 'w prune_env \<Rightarrow> 'r Runtime \<Rightarrow> gotime \<Rightarrow> handler list \<Rightarrow> err \<Rightarrow> 'w \<Rightarrow> (err \<times> bool) \<times> 'w" where
  "pruneAll_loop app os env rt t [] allErrors w = ((allErrors, True), w)"
| "pruneAll_loop app os env rt t (h # hs) allErrors w =
     (case ctx_Err env w of
        Some e \<Rightarrow> ((Some e, False), w)
      | None \<Rightarrow>
          (case handler_prune app os env rt t h w of
             (err, w1) \<Rightarrow> pruneAll_loop app os env rt t hs (app allErrors err) w1))"

definition pruneAll ::
  "append_func \<Rightarrow> 'w os \<Rightarrow> 'w prune_env \<Rightarrow> 'r Runtime \<Rightarrow> duration \<Rightarrow> rat \<Rightarrow> gotime \<Rightarrow> handler list \<Rightarrow> 'w router \<Rightarrow> 'w \<Rightarrow>
   (err \<times> 'w router \<times> 'w) may_panic" where
  "pruneAll app os env rt ovf rnd t hs r w =
     (case pruneAll_loop app os env rt t hs None w of
        ((err, False), w1) \<Rightarrow> Inr (err, r, w1)
      | ((err, True), w1) \<Rightarrow>
          map_sum id (\<lambda>r1. (err, r1, w1)) (schedulePruning ovf rnd t (pruneInterval r) r))"

section \<open>What a reported change does\<close>

lemma Add_spec:
  assumes "sched_wf s"
  shows "\<exists>s'. Add (Some f) [] s = Inr s' \<and> sched_wf s' \<and> queued s' = add_mset (taskFresh s) (queued s) \<and>
    fn (tasks s' (taskFresh s)) = f \<and> (\<forall>u. u \<noteq> taskFresh s \<longrightarrow> tasks s' u = tasks s u)"
proof -
  obtain t s1 where n: "newTask (Some f) [] s = Inr (t, s1)" by (simp add: newTask_def Let_def)
  then have f: "fn (tasks s1 t) = f" by (auto simp: newTask_def Let_def)
  note nf = newTask_facts [OF assms, of f undefined "[]" t s1, simplified, OF n]
  have "t \<notin># queued s1" using assms nf(1,3) by (auto simp: sched_wf_def queued_def)
  then obtain s2 where s2: "enqueue t s1 = Inr s2" "sched_wf s2" "same_control s1 s2" "queued s2 = add_mset t (queued s1)"
      "\<forall>u. u \<noteq> t \<longrightarrow> tasks s2 u = tasks s1 u"
    using enqueue_spec [OF nf(2) _ _ nf(5)] nf(4) by auto
  have w: "sched_wf (notifyLoop s2) = sched_wf s2" "queued (notifyLoop s2) = queued s2"
    by (simp_all add: notifyLoop_def sched_wf_def byOrder_def byTime_def queued_def)
  have "Add (Some f) [] s = Inr (notifyLoop s2)" using n s2(1) by (simp add: Add_def Add_locked_def)
  moreover have "fn (tasks s2 t) = f" using s2(3) f by (simp add: same_control_def)
  moreover have "tasks (notifyLoop s2) = tasks s2" by (simp add: notifyLoop_def)
  ultimately show ?thesis using w s2 nf(1,3,6) by auto
qed

definition accepted :: "append_func \<Rightarrow> 'w os \<Rightarrow> FileChangedRequest \<Rightarrow> 'w router \<Rightarrow> 'w \<Rightarrow> bool" where
  "accepted app os req r w \<longleftrightarrow>
     HandlerName req \<noteq> [] \<and> c_Name (Change req) \<noteq> [] \<and> IsAbs (RootDir req) \<and> \<not> IsAbs (c_Name (Change req)) \<and>
     (case handlerByName r (HandlerName req) of
        None \<Rightarrow> False
      | Some h \<Rightarrow> fst (SameStat app os (RootDir req) (hPath (h_cfg h)) w) = Inr True)"

text \<open>The effect of an accepted request on the handler \<open>h\<close> and the tasks \<open>ts\<close>.\<close>

definition change_recorded :: "string \<Rightarrow> handler \<Rightarrow> 'w tasks_state \<Rightarrow> handler \<Rightarrow> 'w tasks_state \<Rightarrow> bool" where
  "change_recorded name h ts h' ts' \<longleftrightarrow>
     fileChangeCount (h_mc h') = fileChangeCount (h_mc h) + 1 \<and>
     (if pending h name = None then
        pending h' = (pending h)(name \<mapsto> nextObject ts) \<and>
        task_Name (objects ts' (nextObject ts)) = name \<and>
        (\<exists>t. queued (t_sched ts') = add_mset t (queued (t_sched ts)) \<and>
             fn (tasks (t_sched ts') t) = HandleFile (h_name h) (nextObject ts))
      else pending h' = pending h \<and> ts' = ts)"

lemma handle_spec:
  assumes "sched_wf (t_sched ts)"
  shows "\<exists>err h' ts' w'. handle app os rep req h ts w = Inr (err, h', ts', w') \<and>
    (err = None \<longleftrightarrow> fst (SameStat app os (RootDir req) (hPath (h_cfg h)) w) = Inr True) \<and>
    (err \<noteq> None \<longrightarrow> h' = h \<and> ts' = ts) \<and>
    (err = None \<longrightarrow> change_recorded (Clean (c_Name (Change req))) h ts h' ts') \<and> sched_wf (t_sched ts')"
proof -
  let ?n = "Clean (c_Name (Change req))" and ?t = "nextObject ts"
  obtain res w1 where st: "SameStat app os (RootDir req) (hPath (h_cfg h)) w = (res, w1)" by fastforce
  consider e where "res = Inl e" | "res = Inr False" | "res = Inr True" by (cases res) auto
  then show ?thesis
  proof cases
    case 3
    obtain s1 where a: "Add (Some (HandleFile (h_name h) ?t)) [] (t_sched ts) = Inr s1"
        "queued s1 = add_mset (taskFresh (t_sched ts)) (queued (t_sched ts))"
        "fn (tasks s1 (taskFresh (t_sched ts))) = HandleFile (h_name h) ?t" "sched_wf s1"
      using Add_spec [OF assms] by blast
    show ?thesis
    proof (cases "pending h ?n")
      case None
      let ?h = "h\<lparr>pending := (pending h)(?n \<mapsto> ?t), h_mc := ReportFileChange (h_mc h)\<rparr>"
      let ?ts = "\<lparr>objects = (objects ts)(?t := handler_newTask rep h ?n), nextObject = Suc ?t, t_sched = s1\<rparr>"
      have "handle app os rep req h ts w = Inr (None, ?h, ?ts, w1)"
        using None 3 st a(1) by (simp add: handle_def handle_locked_def Let_def)
      moreover have "task_Name (objects ?ts ?t) = ?n" by (simp add: task_Name_def handler_newTask_def task_New_def)
      moreover have "\<exists>t. queued (t_sched ?ts) = add_mset t (queued (t_sched ts)) \<and>
          fn (tasks (t_sched ?ts) t) = HandleFile (h_name h) ?t"
        using a(2,3) by (intro exI [of _ "taskFresh (t_sched ts)"]) simp
      ultimately have "handle app os rep req h ts w = Inr (None, ?h, ?ts, w1) \<and> change_recorded ?n h ts ?h ?ts \<and>
          sched_wf (t_sched ?ts)"
        using None a(4) by (simp add: change_recorded_def ReportFileChange_def)
      then show ?thesis using 3 st by (metis fst_conv)
    next
      case (Some x)
      then show ?thesis using 3 st assms
        by (simp add: handle_def handle_locked_def change_recorded_def ReportFileChange_def Let_def)
    qed
  qed (use st assms in \<open>simp_all add: handle_def\<close>)
qed

lemma FileChanged_spec:
  assumes "sched_wf (t_sched (r_tasks r))"
  shows "\<exists>err r' w'. FileChanged app os rep req r w = Inr (err, r', w') \<and>
    (err = None \<longleftrightarrow> accepted app os req r w) \<and>
    (err \<noteq> None \<longrightarrow> handlerByName r' = handlerByName r \<and> r_tasks r' = r_tasks r) \<and>
    (err = None \<longrightarrow> (\<exists>h h'. handlerByName r (HandlerName req) = Some h \<and>
       handlerByName r' = (handlerByName r)(HandlerName req \<mapsto> h') \<and>
       change_recorded (Clean (c_Name (Change req))) h (r_tasks r) h' (r_tasks r'))) \<and>
    sched_wf (t_sched (r_tasks r'))"
proof (cases "HandlerName req = [] \<or> c_Name (Change req) = [] \<or> \<not> IsAbs (RootDir req) \<or> IsAbs (c_Name (Change req))")
  case True
  then show ?thesis using assms by (auto simp: FileChanged_def accepted_def)
next
  case valid: False
  show ?thesis
  proof (cases "handlerByName r (HandlerName req)")
    case None
    then show ?thesis using valid assms by (simp add: FileChanged_def accepted_def)
  next
    case (Some h)
    obtain err h' ts' w' where h: "handle app os rep req h (r_tasks r) w = Inr (err, h', ts', w')"
        "err = None \<longleftrightarrow> fst (SameStat app os (RootDir req) (hPath (h_cfg h)) w) = Inr True"
        "err \<noteq> None \<longrightarrow> h' = h \<and> ts' = r_tasks r"
        "err = None \<longrightarrow> change_recorded (Clean (c_Name (Change req))) h (r_tasks r) h' ts'" "sched_wf (t_sched ts')"
      using handle_spec [OF assms] by blast
    have "FileChanged app os rep req r w =
        Inr (err, r\<lparr>handlerByName := (handlerByName r)(HandlerName req \<mapsto> h'), r_tasks := ts'\<rparr>, w')"
      using valid Some h(1) by (simp add: FileChanged_def)
    moreover have "accepted app os req r w \<longleftrightarrow> err = None" using valid Some h(2) by (simp add: accepted_def)
    moreover have "err \<noteq> None \<Longrightarrow> (handlerByName r)(HandlerName req \<mapsto> h') = handlerByName r"
      using h(3) Some by (simp add: fun_upd_idem)
    ultimately show ?thesis using h(3-5) Some
      by (intro exI [of _ err] exI [of _ "r\<lparr>handlerByName := (handlerByName r)(HandlerName req \<mapsto> h'), r_tasks := ts'\<rparr>"]
          exI [of _ w']) auto
  qed
qed

section \<open>Properties\<close>

text \<open>
  C34. \<open>FileChanged\<close> never panics. It succeeds exactly for a request that names a known handler and a
  relative file name and whose root directory is the handler's; otherwise it changes nothing. On
  success the change is counted, and the file has a pending task afterwards: the one it had, or a new
  one that is also put into the scheduler's queue.
\<close>

theorem file_changed_outcome:
  assumes "sched_wf (t_sched (r_tasks r))"
  shows "\<exists>err r' w'. FileChanged app os rep req r w = Inr (err, r', w') \<and>
    (err = None \<longleftrightarrow> accepted app os req r w) \<and>
    (err \<noteq> None \<longrightarrow> handlerByName r' = handlerByName r \<and> r_tasks r' = r_tasks r) \<and>
    (err = None \<longrightarrow> (\<exists>h h'. handlerByName r (HandlerName req) = Some h \<and>
       handlerByName r' = (handlerByName r)(HandlerName req \<mapsto> h') \<and>
       change_recorded (Clean (c_Name (Change req))) h (r_tasks r) h' (r_tasks r')))"
  using FileChanged_spec [OF assms, of app os rep req w] by blast

definition sample_router :: "fs router" where
  "sample_router = newRouter (\<lambda>_ _ _. []) (New 1 0 undefined) (\<lambda>_. task_New sample_task_options) [sample_handler]"

definition sample_request :: "string \<Rightarrow> FileChangedRequest" where
  "sample_request name = \<lparr>HandlerName = ''h'', RootDir = ''/in'', Change = no_change\<lparr>c_Name := name\<rparr>\<rparr>"

theorem file_changed_outcome_witness:
  "\<exists>r' w' h'. FileChanged join_errors plain_os (\<lambda>_ _ _ _ w. w) (sample_request ''./f'') sample_router sample_fs =
     Inr (None, r', w') \<and> handlerByName r' ''h'' = Some h' \<and> pending h' = [''f'' \<mapsto> 0]"
proof -
  let ?req = "sample_request ''./f''"
  have wf: "sched_wf (t_sched (r_tasks sample_router))" by (simp add: sample_router_def newRouter_def)
  have acc: "accepted join_errors plain_os ?req sample_router sample_fs" by code_simp
  have c: "Clean (c_Name (Change ?req)) = ''f''" "HandlerName ?req = ''h''" by code_simp+
  have n: "nextObject (r_tasks sample_router) = 0" by (simp add: sample_router_def newRouter_def)
  have p: "handlerByName sample_router ''h'' = Some h \<Longrightarrow> pending h = Map.empty" for h
    by (auto simp: sample_router_def newRouter_def sample_handler_def newHandler_def)
  from file_changed_outcome [OF wf, of join_errors plain_os "\<lambda>_ _ _ _ w. w" ?req sample_fs] acc
  obtain r' w' h h' where "FileChanged join_errors plain_os (\<lambda>_ _ _ _ w. w) ?req sample_router sample_fs = Inr (None, r', w')"
      "handlerByName sample_router ''h'' = Some h" "handlerByName r' = (handlerByName sample_router)(''h'' \<mapsto> h')"
      "change_recorded ''f'' h (r_tasks sample_router) h' (r_tasks r')"
    unfolding c by auto
  then show ?thesis using p n by (auto simp: change_recorded_def)
qed

end
