(* ===== verification/ActiveTasks.thy ===== *)
theory ActiveTasks
  imports SchedulerSystem
begin

text \<open>
  What the steps of the scheduler mean for those who hand functions to it: the active tasks are the
  tasks whose function the scheduler is going to call, is calling, or is going to call again. Only
  the two steps that its clients take part in change this set, adding a task and the return of a
  task's function; a stopping scheduler drops tasks.
\<close>

definition active :: "'f sys \<Rightarrow> nat set" where
  "active S = {t. t \<in># live S \<and> (t, True) \<notin> set (returned S)}"

text \<open>The steps the scheduler takes by itself.\<close>

definition internal :: "int \<Rightarrow> 'f sys \<Rightarrow> 'f sys \<Rightarrow> bool" where
  "internal K S T \<longleftrightarrow> step K S T \<and> taskFresh (sch T) = taskFresh (sch S) \<and> set (running S) \<subseteq> set (running T)"

lemma active_control:
  assumes "tasksByOrder (sch T) = tasksByOrder (sch S)" "tasksByTime (sch T) = tasksByTime (sch S)"
    "adding T = adding S" "running T = running S" "returned T = returned S"
  shows "active T = active S"
  using assms by (simp add: active_def live_def queued_def byOrder_def byTime_def)

lemma running_active:
  assumes "task_inv S" "t \<in> set (running S)"
  shows "t \<in> active S"
proof -
  have "count (live S) t \<le> 1" using assms(1) by (simp add: task_inv_def)
  then have "t \<notin> fst ` set (returned S)" using live_outside(2) assms(2) by blast
  then show ?thesis using assms(2) by (force simp: active_def live_def)
qed

lemma returned_active:
  assumes "task_inv S" "(t, False) \<in> set (returned S)"
  shows "t \<in> active S"
proof -
  have "count (live S) t \<le> 1" using assms(1) by (simp add: task_inv_def)
  then have "t \<notin> fst ` set (remove1 (t, False) (returned S))" using live_outside(3) assms(2) by blast
  then have "(t, True) \<notin> set (returned S)" by (metis (full_types) fst_conv image_eqI in_set_remove1 prod.inject)
  then show ?thesis using assms(2) by (force simp: active_def live_def)
qed

lemma active_fresh: "task_inv S \<Longrightarrow> t \<in> active S \<Longrightarrow> t < taskFresh (sch S)"
  by (auto simp: active_def task_inv_def)

lemma add_new_active:
  assumes "task_inv S" "newTask (Some f) (map (NextAfterDuration (now S)) ds) (sch S) = Inr (t, s1)"
  shows "active (S\<lparr>sch := s1, adding := t # adding S\<rparr>) = insert t (active S)" "t \<notin> active S"
    "fn (tasks s1 t) = f" "u \<noteq> t \<Longrightarrow> tasks s1 u = tasks (sch S) u" "t = taskFresh (sch S)"
    "loopStopRequested s1 = loopStopRequested (sch S)"
proof -
  have wf: "sched_wf (sch S)" using assms(1) by (simp add: task_inv_def)
  note n = newTask_facts [OF wf assms(2)]
  have l: "live (S\<lparr>sch := s1, adding := t # adding S\<rparr>) = add_mset t (live S)" using n(3) by (simp add: live_def)
  have "t \<notin># live S" using assms(1) n(1) by (auto simp: task_inv_def)
  moreover have "fst ` set (returned S) \<subseteq> set_mset (live S)" by (auto simp: live_def)
  ultimately have "(t, True) \<notin> set (returned S)" by force
  then show "active (S\<lparr>sch := s1, adding := t # adding S\<rparr>) = insert t (active S)"
    unfolding active_def l by auto
  show "t \<notin> active S" using \<open>t \<notin># live S\<close> by (simp add: active_def)
  show "fn (tasks s1 t) = f" using assms(2) by (auto simp: newTask_def Let_def fold_NextAfterDuration)
qed (use newTask_facts [OF _ assms(2)] assms(1) in \<open>simp_all add: task_inv_def\<close>)

text \<open>The return of a task's function with error \<open>err\<close>.\<close>

definition returns :: "nat \<Rightarrow> err \<Rightarrow> 'f sys \<Rightarrow> 'f sys" where
  "returns t err S =
     (case run (now S) err (tasks (sch S) t) of
        (fin, x) \<Rightarrow> S\<lparr>sch := set_task t (\<lambda>_. x) (sch S), running := remove1 t (running S),
                      returned := (t, fin) # returned S\<rparr>)"

lemma returns_step: "t \<in> set (running S) \<Longrightarrow> step K S (returns t err S)"
  by (cases "run (now S) err (tasks (sch S) t)") (simp add: returns_def step.run_fn)

lemma returns_active:
  assumes "task_inv S" "t \<in> set (running S)"
  shows "active (returns t err S) = (if Permanent (AsTaskError err) then active S - {t} else active S)"
    "fn (tasks (sch (returns t err S)) u) = fn (tasks (sch S) u)"
    "loopStopRequested (sch (returns t err S)) = loopStopRequested (sch S)"
    "running (returns t err S) = remove1 t (running S)"
proof -
  obtain fin x where r: "run (now S) err (tasks (sch S) t) = (fin, x)" by fastforce
  have fin: "fin \<longleftrightarrow> Permanent (AsTaskError err)" "fn x = fn (tasks (sch S) t)" using run_simps [OF r] by simp_all
  have "t \<in># mset (running S)" using assms(2) by simp
  then have "add_mset t (mset (running S) - {#t#}) = mset (running S)" by (rule insert_DiffM)
  then have l: "live (returns t err S) = live S"
    using r by (simp add: returns_def live_def sched_simps queued_def byOrder_def byTime_def)
  have ne: "(t, True) \<notin> set (returned S)" using running_active [OF assms] by (simp add: active_def)
  show "active (returns t err S) = (if Permanent (AsTaskError err) then active S - {t} else active S)"
    using r fin(1) ne unfolding active_def l by (auto simp: returns_def)
  show "fn (tasks (sch (returns t err S)) u) = fn (tasks (sch S) u)"
    using r fin(2) by (simp add: returns_def sched_simps)
qed (simp_all add: returns_def sched_simps split: prod.split)

lemma launch_active:
  assumes "task_inv S" "loop_iteration (now S) (sch S) = (LoopLaunch t, s1)"
  shows "active (S\<lparr>sch := s1, running := t # running S\<rparr>) = active S" "fn (tasks s1 u) = fn (tasks (sch S) u)"
    "loopStopRequested s1 = loopStopRequested (sch S)"
proof -
  note f = loop_launch_facts [OF _ assms(2)]
  have "sched_wf (sch S)" using assms(1) by (simp add: task_inv_def)
  note f = f [OF this]
  show "active (S\<lparr>sch := s1, running := t # running S\<rparr>) = active S" using f(4) by (simp add: active_def live_def)
  show "fn (tasks s1 u) = fn (tasks (sch S) u)" "loopStopRequested s1 = loopStopRequested (sch S)"
    using f(5) by (simp_all add: same_control_def)
qed

lemma settle_active:
  assumes "task_inv S" "(t, fin) \<in> set (returned S)" "runTask_locked t fin (sch S) = Inr s1"
  shows "active (S\<lparr>sch := s1, returned := remove1 (t, fin) (returned S), finishing := n\<rparr>) = active S"
    "fn (tasks s1 u) = fn (tasks (sch S) u)" "loopStopRequested s1 = loopStopRequested (sch S)"
    "taskFresh s1 = taskFresh (sch S)"
proof -
  let ?T = "S\<lparr>sch := s1, returned := remove1 (t, fin) (returned S), finishing := n\<rparr>"
  obtain r where r: "same_control (sch S) r" "queued r = (if fin then queued (sch S) else add_mset t (queued (sch S)))"
      "s1 = r\<lparr>taskActiveCount := taskActiveCount (sch S) - 1, loopNotification := loopNotification r \<or> queued r \<noteq> {#}\<rparr>"
    using run_locked_facts [OF assms(1,2)] assms(3) by auto
  then show "fn (tasks s1 u) = fn (tasks (sch S) u)" "loopStopRequested s1 = loopStopRequested (sch S)"
    "taskFresh s1 = taskFresh (sch S)"
    by (simp_all add: same_control_def)
  have q: "queued s1 = queued r" using r(3) by (simp add: queued_def byOrder_def byTime_def)
  have m: "mset (map fst (returned S)) = add_mset t (mset (map fst (remove1 (t, fin) (returned S))))"
    using mset_map_remove1 [OF assms(2), of fst] by simp
  have out: "t \<notin> fst ` set (remove1 (t, fin) (returned S))"
    using live_outside(3) [of S t fin] assms(1,2) by (simp add: task_inv_def)
  have u: "(u, True) \<in> set (remove1 (t, fin) (returned S)) \<longleftrightarrow> (u, True) \<in> set (returned S)" if "u \<noteq> t" for u
    using that by (cases "(u, True) = (t, fin)") auto
  have "t \<in> active ?T \<longleftrightarrow> t \<in> active S"
  proof (cases fin)
    case True
    have "count (live S) t \<le> 1" using assms(1) by (simp add: task_inv_def)
    then have "count (live ?T) t = 0"
      using m q r(2) True by (simp add: live_def del: mset_map mset_remove1)
    then have "t \<notin># live ?T" by (simp only: not_in_iff)
    then show ?thesis using assms(2) True by (simp add: active_def)
  next
    case False
    then have "live ?T = live S" using m q r(2) by (simp add: live_def)
    moreover have "t \<in> active S" using returned_active [OF assms(1)] assms(2) False by simp
    ultimately show ?thesis using out by (force simp: active_def)
  qed
  moreover have "v \<in> active ?T \<longleftrightarrow> v \<in> active S" if "v \<noteq> t" for v
  proof -
    have "v \<in># live ?T \<longleftrightarrow> v \<in># live S" using m q r(2) that by (simp add: live_def)
    then show ?thesis using u [OF that] by (simp add: active_def)
  qed
  ultimately show "active ?T = active S" by (metis set_eqI)
qed

lemma enqueue_keeps_active:
  assumes "task_inv S" "t \<in> set (adding S)" "Add_locked t (sch S) = Inr s1"
  shows "active (S\<lparr>sch := s1, adding := remove1 t (adding S), notifying := n\<rparr>) = active S" "same_control (sch S) s1"
proof -
  have "t \<in> outside S" using assms(2) by (simp add: outside_def)
  from enqueue_outside [OF assms(1) this] assms(3)
  have q: "queued s1 = add_mset t (queued (sch S))" "same_control (sch S) s1" by (auto simp: Add_locked_def)
  have "t \<in># mset (adding S)" using assms(2) by simp
  then have "add_mset t (mset (adding S) - {#t#}) = mset (adding S)" by (rule insert_DiffM)
  then have "live (S\<lparr>sch := s1, adding := remove1 t (adding S), notifying := n\<rparr>) = live S"
    using q(1) by (simp add: live_def)
  then show "active (S\<lparr>sch := s1, adding := remove1 t (adding S), notifying := n\<rparr>) = active S" "same_control (sch S) s1"
    using q(2) by (simp_all add: active_def)
qed

lemma stop_active:
  assumes "sched_wf (sch S)" "Stop_check (sch S) = (True, s1)"
  shows "active (S\<lparr>sch := cancelTasks s1, waiter := x\<rparr>) \<subseteq> active S" "fn (tasks (cancelTasks s1) u) = fn (tasks (sch S) u)"
    "loopStopRequested (cancelTasks s1) = loopStopRequested (sch S)"
proof -
  have s1: "s1 = (sch S)\<lparr>tasksByOrder := Clear (order_less (sch S)) (tasksByOrder (sch S)),
      tasksByTime := Clear (time_less (sch S)) (tasksByTime (sch S))\<rparr>"
    using assms(2) by (auto simp: Stop_check_def split: if_splits)
  have "queued s1 = {#}" using Clear_queues(4) [OF assms(1)] s1 by simp
  then have "queued (cancelTasks s1) = {#}" by (simp add: cancelTasks_def queued_def byOrder_def byTime_def)
  then show "active (S\<lparr>sch := cancelTasks s1, waiter := x\<rparr>) \<subseteq> active S" by (auto simp: active_def live_def)
qed (use assms(2) in \<open>auto simp: Stop_check_def cancelTasks_def split: if_splits\<close>)

lemma internal_active:
  assumes "reachable K S" "internal K S T"
  shows "fn (tasks (sch T) u) = fn (tasks (sch S) u)" "active T \<subseteq> active S"
    "loopStopRequested (sch S) \<Longrightarrow> loopStopRequested (sch T)"
    "loopStopRequested (sch T) \<or> active T = active S"
proof -
  have inv: "task_inv S" using reachable_inv [OF assms(1)] by simp
  have st: "step K S T" and fr: "taskFresh (sch T) = taskFresh (sch S)" and ru: "set (running S) \<subseteq> set (running T)"
    using assms(2) by (simp_all add: internal_def)
  have wf: "sched_wf (sch S)" using inv by (simp add: task_inv_def)
  have "fn (tasks (sch T) u) = fn (tasks (sch S) u) \<and> active T \<subseteq> active S \<and>
      (loopStopRequested (sch S) \<longrightarrow> loopStopRequested (sch T)) \<and> (loopStopRequested (sch T) \<or> active T = active S)"
    using st
  proof (cases rule: step.cases)
    case (add_new f ds t s1)
    then show ?thesis using newTask_facts [OF wf add_new(2)] fr by simp
  next
    case (add_enqueue t s1)
    then show ?thesis using enqueue_keeps_active [OF inv add_enqueue(2,3)] by (simp add: same_control_def)
  next
    case (start s1)
    then show ?thesis using active_control [of T S] by (auto simp: Start_def split: if_splits)
  next
    case (loop_return s1)
    then have "s1 = sch S" by (simp add: loop_iteration_def Let_def split: if_splits prod.splits option.splits)
    then show ?thesis using active_control [of T S] loop_return by simp
  next
    case (loop_wait d s1)
    then show ?thesis using active_control [of T S] loop_wait_facts(1) [OF wf loop_wait(3)] by simp
  next
    case (loop_launch t s1)
    then show ?thesis using launch_active [OF inv loop_launch(3)] by simp
  next
    case (run_fn t err fin x)
    have "t \<notin> set (remove1 t (running S))"
      using live_outside(2) [of S t] inv run_fn(2) by (simp add: task_inv_def)
    then show ?thesis using ru run_fn by auto
  next
    case (run_locked t fin s1)
    then show ?thesis using settle_active [OF inv run_locked(2,3)] by simp
  next
    case (stop_ok s1)
    have "loopStopRequested (sch S)"
      using reachable_wake [OF assms(1)] stop_ok(2) by (simp add: waiter_inv_def stop_waiter_def)
    then show ?thesis using stop_active [OF wf stop_ok(3)] stop_ok(1) by simp
  next
    case (stop_wait s1)
    then show ?thesis using active_control [of T S] by (auto simp: Stop_check_def split: if_splits)
  qed (use active_control [of T S] in \<open>auto simp: control_simps\<close>)
  then show "fn (tasks (sch T) u) = fn (tasks (sch S) u)" "active T \<subseteq> active S"
    "loopStopRequested (sch S) \<Longrightarrow> loopStopRequested (sch T)"
    "loopStopRequested (sch T) \<or> active T = active S"
    by auto
qed

end
