(* ===== verification/WatchSystem.thy ===== *)
theory WatchSystem
  imports WatchHandler ActiveTasks
begin

text \<open>
  The handlers and the scheduler together: callers of \<open>FileChanged\<close>, the tasks the scheduler runs and
  the pruning job, interleaved. The mutex of a handler is part of the state: \<open>owner\<close> maps the name of
  a handler to the scheduler task that holds it (\<open>handle\<close> keeps it for one step only). The phase of a
  running task says how far \<open>invokeTask\<close> has come: in the call of \<open>invoke\<close> without and with the
  lock, returned from it, and at its end. What \<open>invoke\<close> does is open, but that it leaves the options
  of the task object alone. The part of \<open>Add\<close> after making the task is left to the scheduler's steps.
\<close>

section \<open>States and steps\<close>

datatype phase = Calling | Locked | Invoked err bool | Ended err

record 'w wsys =
  ssys :: "job sys"
  handlers :: "string \<rightharpoonup> handler"
  objs :: "nat \<Rightarrow> 'w htask"
  fresh_obj :: nat
  phases :: "nat \<Rightarrow> phase"
  owner :: "string \<rightharpoonup> nat"

text \<open>What a step means to the outside: a change of a file was reported to a handler, or the handler
  is done with a file.\<close>

datatype label = Report string string | Finish string string | Tau

definition job_of :: "'w wsys \<Rightarrow> nat \<Rightarrow> job" where
  "job_of W t = fn (tasks (sch (ssys W)) t)"

definition file_of :: "'w wsys \<Rightarrow> nat \<Rightarrow> string" where
  "file_of W x = task_Name (objs W x)"

definition init_watch ::
  "(rat \<Rightarrow> rat \<Rightarrow> int \<Rightarrow> rat list) \<Rightarrow> Handler list \<Rightarrow> (nat \<Rightarrow> 'w htask) \<Rightarrow> job sys \<Rightarrow> 'w wsys" where
  "init_watch expRange cfgs os S =
     \<lparr>ssys = S, handlers = add_handlers expRange cfgs Map.empty, objs = os, fresh_obj = 0,
      phases = (\<lambda>_. Calling), owner = Map.empty\<rparr>"

inductive wstep :: "int \<Rightarrow> 'w reporter \<Rightarrow> label \<Rightarrow> 'w wsys \<Rightarrow> 'w wsys \<Rightarrow> bool" for K rep where
  scheduler: "internal K (ssys W) S \<Longrightarrow> wstep K rep Tau W (W\<lparr>ssys := S\<rparr>)"
| report_known: "handlers W n = Some h \<Longrightarrow> owner W n = None \<Longrightarrow> handle_locked (fresh_obj W) c h = (None, h1) \<Longrightarrow>
    wstep K rep (Report n c) W (W\<lparr>handlers := (handlers W)(n \<mapsto> h1)\<rparr>)"
| report_new: "handlers W n = Some h \<Longrightarrow> owner W n = None \<Longrightarrow> handle_locked (fresh_obj W) c h = (Some j, h1) \<Longrightarrow>
    newTask (Some j) [] (sch (ssys W)) = Inr (t, s1) \<Longrightarrow>
    wstep K rep (Report n c) W
      (W\<lparr>handlers := (handlers W)(n \<mapsto> h1), ssys := (ssys W)\<lparr>sch := s1, adding := t # adding (ssys W)\<rparr>,
         objs := (objs W)(fresh_obj W := handler_newTask rep h c), fresh_obj := Suc (fresh_obj W)\<rparr>)"
| acquire: "t \<in> set (running (ssys W)) \<Longrightarrow> job_of W t = HandleFile n x \<Longrightarrow> phases W t = Calling \<Longrightarrow>
    owner W n = None \<Longrightarrow>
    wstep K rep Tau W (W\<lparr>phases := (phases W)(t := Locked), owner := (owner W)(n \<mapsto> t)\<rparr>)"
| invoked: "t \<in> set (running (ssys W)) \<Longrightarrow> job_of W t = HandleFile n x \<Longrightarrow>
    phases W t = (if locked then Locked else Calling) \<Longrightarrow> t_opts y = t_opts (objs W x) \<Longrightarrow>
    wstep K rep Tau W (W\<lparr>phases := (phases W)(t := Invoked err locked), objs := (objs W)(x := y)\<rparr>)"
| ended: "t \<in> set (running (ssys W)) \<Longrightarrow> job_of W t = HandleFile n x \<Longrightarrow> phases W t = Invoked err locked \<Longrightarrow>
    handlers W n = Some h \<Longrightarrow> locked \<or> \<not> Permanent (AsTaskError err) \<or> owner W n = None \<Longrightarrow>
    wstep K rep (if Permanent (AsTaskError err) then Finish n (file_of W x) else Tau) W
      (W\<lparr>handlers := (handlers W)(n \<mapsto> invokeTask_end err (file_of W x) h), phases := (phases W)(t := Ended err),
         owner := (if locked then (owner W)(n := None) else owner W)\<rparr>)"
| returned: "t \<in> set (running (ssys W)) \<Longrightarrow> job_of W t = HandleFile n x \<Longrightarrow> phases W t = Ended err \<Longrightarrow>
    wstep K rep Tau W (W\<lparr>ssys := returns t err (ssys W), phases := (phases W)(t := Calling)\<rparr>)"
| prune_add: "newTask (Some PruneAll) [NextAfterDuration (now (ssys W)) d] (sch (ssys W)) = Inr (t, s1) \<Longrightarrow>
    wstep K rep Tau W (W\<lparr>ssys := (ssys W)\<lparr>sch := s1, adding := t # adding (ssys W)\<rparr>\<rparr>)"
| prune_lock: "t \<in> set (running (ssys W)) \<Longrightarrow> job_of W t = PruneAll \<Longrightarrow> owner W n = None \<Longrightarrow>
    wstep K rep Tau W (W\<lparr>owner := (owner W)(n \<mapsto> t)\<rparr>)"
| prune_unlock: "job_of W t = PruneAll \<Longrightarrow> owner W n = Some t \<Longrightarrow>
    wstep K rep Tau W (W\<lparr>owner := (owner W)(n := None)\<rparr>)"
| prune_returned: "t \<in> set (running (ssys W)) \<Longrightarrow> job_of W t = PruneAll \<Longrightarrow> t \<notin> ran (owner W) \<Longrightarrow>
    wstep K rep Tau W (W\<lparr>ssys := returns t err (ssys W)\<rparr>)"

inductive wreachable :: "int \<Rightarrow> 'w reporter \<Rightarrow> 'w wsys \<Rightarrow> bool" for K rep where
  init: "numCPU \<le> K \<Longrightarrow> wreachable K rep (init_watch expRange cfgs os (init_sys numCPU counter tobjs t0))"
| step: "wreachable K rep W \<Longrightarrow> wstep K rep l W W' \<Longrightarrow> wreachable K rep W'"

section \<open>Invariants\<close>

text \<open>
  The tasks that are still responsible for their file: the active tasks of the scheduler, except those
  that \<open>invokeTask\<close> has removed from the pending tasks but that have not returned to the scheduler.
\<close>

definition retired :: "phase \<Rightarrow> bool" where
  "retired p \<longleftrightarrow> (\<exists>err. p = Ended err \<and> Permanent (AsTaskError err))"

definition working :: "'w wsys \<Rightarrow> nat set" where
  "working W = {t \<in> active (ssys W). \<not> retired (phases W t)}"

definition jobs_ok :: "(string \<rightharpoonup> handler) \<Rightarrow> (nat \<Rightarrow> job) \<Rightarrow> (nat \<Rightarrow> string) \<Rightarrow> nat set \<Rightarrow> nat \<Rightarrow> bool \<Rightarrow> bool" where
  "jobs_ok H f nm A k stop \<longleftrightarrow>
     (\<forall>n h. H n = Some h \<longrightarrow> h_name h = n \<and> (\<forall>c x. pending h c = Some x \<longrightarrow>
        x < k \<and> nm x = c \<and> (stop \<or> (\<exists>t \<in> A. f t = HandleFile n x)))) \<and>
     (\<forall>t \<in> A. \<forall>n x. f t = HandleFile n x \<longrightarrow> x < k \<and> (\<exists>h. H n = Some h \<and> pending h (nm x) = Some x)) \<and>
     (\<forall>t1 \<in> A. \<forall>t2 \<in> A. \<forall>n x. f t1 = HandleFile n x \<longrightarrow> f t2 = HandleFile n x \<longrightarrow> t1 = t2)"

definition watch_jobs :: "'w wsys \<Rightarrow> bool" where
  "watch_jobs W \<longleftrightarrow>
     jobs_ok (handlers W) (job_of W) (file_of W) (working W) (fresh_obj W) (loopStopRequested (sch (ssys W)))"

text \<open>Only tasks of files that run are in a phase but the first; a task that holds the lock of its
  handler is its owner.\<close>

definition holds :: "phase \<Rightarrow> bool" where
  "holds p \<longleftrightarrow> p = Locked \<or> (\<exists>err. p = Invoked err True)"

definition locks_ok :: "(nat \<Rightarrow> job) \<Rightarrow> (nat \<Rightarrow> phase) \<Rightarrow> nat set \<Rightarrow> (string \<rightharpoonup> nat) \<Rightarrow> bool" where
  "locks_ok f ph R own \<longleftrightarrow>
     (\<forall>t. ph t \<noteq> Calling \<longrightarrow> t \<in> R \<and> (\<exists>n x. f t = HandleFile n x)) \<and>
     (\<forall>t n x. f t = HandleFile n x \<longrightarrow> holds (ph t) \<longrightarrow> own n = Some t)"

definition watch_locks :: "'w wsys \<Rightarrow> bool" where
  "watch_locks W \<longleftrightarrow> locks_ok (job_of W) (phases W) (set (running (ssys W))) (owner W)"

lemma holds_simps [simp]:
  "\<not> holds Calling" "holds Locked" "holds (Invoked err b) = b" "\<not> holds (Ended err)"
  by (auto simp: holds_def)

lemma locks_mono:
  assumes "locks_ok f ph R own" "\<And>t. ph t \<noteq> Calling \<Longrightarrow> f' t = f t \<and> t \<in> R'"
  shows "locks_ok f' ph R' own"
  using assms unfolding locks_ok_def by (metis holds_simps(1))

lemma locks_phase:
  assumes "locks_ok f ph R own" "p \<noteq> Calling \<Longrightarrow> t \<in> R" "f t = HandleFile n x" "holds p \<Longrightarrow> own' n = Some t"
    "\<And>m. m \<noteq> n \<Longrightarrow> own' m = own m" "own' n \<noteq> own n \<Longrightarrow> own n = None \<or> own n = Some t"
  shows "locks_ok f (ph(t := p)) R own'"
  unfolding locks_ok_def
proof (intro conjI allI impI)
  fix u assume "(ph(t := p)) u \<noteq> Calling"
  then show "u \<in> R" "\<exists>n x. f u = HandleFile n x"
    using assms(1-3) unfolding locks_ok_def by (auto split: if_splits)
next
  fix u m y assume u: "f u = HandleFile m y" "holds ((ph(t := p)) u)"
  show "own' m = Some u"
  proof (cases "u = t")
    case False
    then have "own m = Some u" using u assms(1) by (simp add: locks_ok_def)
    then show ?thesis using assms(5,6) False by (cases "m = n") auto
  qed (use u assms(3,4) in auto)
qed

lemma locks_owner:
  assumes "locks_ok f ph R own" "own n = None \<or> (\<exists>t. own n = Some t \<and> f t = PruneAll)"
  shows "locks_ok f ph R (own(n := o'))"
  using assms unfolding locks_ok_def by (metis fun_upd_other job.distinct(1) option.distinct(1) option.inject)

lemma jobs_okI:
  assumes "\<And>n h. H n = Some h \<Longrightarrow> h_name h = n"
    "\<And>n h c x. H n = Some h \<Longrightarrow> pending h c = Some x \<Longrightarrow> x < k \<and> nm x = c"
    "\<And>n h c x. H n = Some h \<Longrightarrow> pending h c = Some x \<Longrightarrow> \<not> stop \<Longrightarrow> \<exists>t \<in> A. f t = HandleFile n x"
    "\<And>t n x. t \<in> A \<Longrightarrow> f t = HandleFile n x \<Longrightarrow> x < k \<and> (\<exists>h. H n = Some h \<and> pending h (nm x) = Some x)"
    "\<And>t u n x. t \<in> A \<Longrightarrow> u \<in> A \<Longrightarrow> f t = HandleFile n x \<Longrightarrow> f u = HandleFile n x \<Longrightarrow> t = u"
  shows "jobs_ok H f nm A k stop"
  using assms unfolding jobs_ok_def by blast

lemma jobs_okD:
  assumes "jobs_ok H f nm A k stop"
  shows "H n = Some h \<Longrightarrow> h_name h = n"
    "H n = Some h \<Longrightarrow> pending h c = Some x \<Longrightarrow> x < k"
    "H n = Some h \<Longrightarrow> pending h c = Some x \<Longrightarrow> nm x = c"
    "H n = Some h \<Longrightarrow> pending h c = Some x \<Longrightarrow> \<not> stop \<Longrightarrow> \<exists>t \<in> A. f t = HandleFile n x"
    "t \<in> A \<Longrightarrow> f t = HandleFile n x \<Longrightarrow> x < k"
    "t \<in> A \<Longrightarrow> f t = HandleFile n x \<Longrightarrow> \<exists>h. H n = Some h \<and> pending h (nm x) = Some x"
    "t \<in> A \<Longrightarrow> u \<in> A \<Longrightarrow> f t = HandleFile n x \<Longrightarrow> f u = HandleFile n x \<Longrightarrow> t = u"
  using assms unfolding jobs_ok_def by blast+

lemma jobs_ok_shrink: "jobs_ok H f nm A k stop \<Longrightarrow> B \<subseteq> A \<Longrightarrow> jobs_ok H f nm B k True"
  unfolding jobs_ok_def by (meson subsetD)

text \<open>A report for a file with a pending task, and the end of a run that is to be repeated: only the
  metrics change.\<close>

lemma jobs_ok_metrics:
  assumes "jobs_ok H f nm A k stop" "H n = Some h" "h_name h1 = h_name h" "pending h1 = pending h"
  shows "jobs_ok (H(n \<mapsto> h1)) f nm A k stop"
proof -
  note d = jobs_okD [OF assms(1)]
  have eq: "\<exists>g0. H m = Some g0 \<and> h_name g0 = h_name g \<and> pending g0 = pending g" if "(H(n \<mapsto> h1)) m = Some g" for m g
    using that assms(2-4) by (auto split: if_splits)
  have qe: "\<exists>g. (H(n \<mapsto> h1)) m = Some g \<and> pending g = pending g0" if "H m = Some g0" for m g0
    using that assms(2,4) by (cases "m = n") auto
  show ?thesis
  proof (rule jobs_okI)
    show "h_name g = m" if "(H(n \<mapsto> h1)) m = Some g" for m g using eq [OF that] d(1) by metis
    show "x < k \<and> nm x = c" if "(H(n \<mapsto> h1)) m = Some g" "pending g c = Some x" for m g c x
      using eq [OF that(1)] d(2,3) that(2) by metis
    show "\<exists>t \<in> A. f t = HandleFile m x" if "(H(n \<mapsto> h1)) m = Some g" "pending g c = Some x" "\<not> stop" for m g c x
      using eq [OF that(1)] d(4) that(2,3) by metis
    show "x < k \<and> (\<exists>g. (H(n \<mapsto> h1)) m = Some g \<and> pending g (nm x) = Some x)" if "t \<in> A" "f t = HandleFile m x" for t m x
      using d(5,6) [OF that] qe by metis
  qed (rule d(7))
qed

lemma jobs_ok_new:
  assumes "jobs_ok H f nm A k stop" "H n = Some h" "pending h c = None" "h_name h1 = h_name h"
    "pending h1 = (pending h)(c \<mapsto> k)" "f' t = HandleFile n k" "\<And>u. u \<in> A \<Longrightarrow> f' u = f u" "t \<notin> A"
    "nm' k = c" "\<And>x. x < k \<Longrightarrow> nm' x = nm x"
  shows "jobs_ok (H(n \<mapsto> h1)) f' nm' (insert t A) (Suc k) stop"
proof (rule jobs_okI)
  note d = jobs_okD [OF assms(1)]
  have old: "u \<in> A \<and> f u = HandleFile m x \<and> x < k" if "u \<in> insert t A" "f' u = HandleFile m x" "(m, x) \<noteq> (n, k)" for u m x
    using that assms(6,7) d(5) by fastforce
  have new: "u = t" if "u \<in> insert t A" "f' u = HandleFile n k" for u
    using that assms(7) d(5) by fastforce
  have cases: "m = n \<and> d = c \<and> x = k \<or> (\<exists>g0. H m = Some g0 \<and> pending g0 d = Some x)"
    if "(H(n \<mapsto> h1)) m = Some g" "pending g d = Some x" for m g d x
    using that assms(2,5) by (auto split: if_splits)
  show "h_name g = m" if "(H(n \<mapsto> h1)) m = Some g" for m g using that d(1) assms(2,4) by (auto split: if_splits)
  show "x < Suc k \<and> nm' x = e" if "(H(n \<mapsto> h1)) m = Some g" "pending g e = Some x" for m g e x
    using cases [OF that]
  proof
    assume "\<exists>g0. H m = Some g0 \<and> pending g0 e = Some x"
    then have "x < k" "nm x = e" using d(2,3) by blast+
    then show ?thesis using assms(10) by simp
  qed (use assms(9) in simp)
  show "\<exists>u \<in> insert t A. f' u = HandleFile m x"
    if "(H(n \<mapsto> h1)) m = Some g" "pending g e = Some x" "\<not> stop" for m g e x
    using cases [OF that(1,2)] d(4) [OF _ _ that(3)] assms(6,7) by (metis insert_iff)
  show "x < Suc k \<and> (\<exists>g. (H(n \<mapsto> h1)) m = Some g \<and> pending g (nm' x) = Some x)"
    if u: "u \<in> insert t A" "f' u = HandleFile m x" for u m x
  proof (cases "(m, x) = (n, k)")
    case True
    then show ?thesis using assms(5,9) by simp
  next
    case False
    note o = old [OF u False]
    then obtain g where g: "H m = Some g" "pending g (nm x) = Some x" using d(6) by blast
    have "m = n \<Longrightarrow> nm x \<noteq> c" using g assms(2,3) by auto
    then have "\<exists>g. (H(n \<mapsto> h1)) m = Some g \<and> pending g (nm x) = Some x"
      using g assms(2,5) by (cases "m = n") auto
    then show ?thesis using o assms(10) by simp
  qed
  show "u = v" if uv: "u \<in> insert t A" "v \<in> insert t A" "f' u = HandleFile m x" "f' v = HandleFile m x" for u v m x
  proof (cases "(m, x) = (n, k)")
    case True
    then have "u = t" "v = t" using new [OF uv(1)] new [OF uv(2)] uv(3,4) by simp_all
    then show ?thesis by simp
  next
    case False
    then show ?thesis using old [OF uv(1,3)] old [OF uv(2,4)] d(7) by blast
  qed
qed

lemma jobs_ok_finish:
  assumes "jobs_ok H f nm A k stop" "t \<in> A" "f t = HandleFile n x" "H n = Some h"
    "h_name h1 = h_name h" "pending h1 = (pending h)(nm x := None)"
  shows "jobs_ok (H(n \<mapsto> h1)) f nm (A - {t}) k stop"
proof (rule jobs_okI)
  note d = jobs_okD [OF assms(1)]
  have own: "pending h (nm x) = Some x" using d(6) [OF assms(2,3)] assms(4) by simp
  have other: "nm y \<noteq> nm x" if u: "u \<in> A - {t}" "f u = HandleFile n y" for u y
  proof
    assume e: "nm y = nm x"
    have ua: "u \<in> A" "u \<noteq> t" using u(1) by auto
    obtain g where "H n = Some g" "pending g (nm y) = Some y" using d(6) [OF ua(1) u(2)] by blast
    then have "y = x" using assms(4) own e by simp
    then show False using d(7) [OF ua(1) assms(2) _ assms(3)] u(2) ua(2) by simp
  qed
  have cases: "\<exists>g0. H m = Some g0 \<and> pending g0 e = Some y \<and> (m = n \<longrightarrow> y \<noteq> x)"
    if g: "(H(n \<mapsto> h1)) m = Some g" "pending g e = Some y" for m g e y
  proof (cases "m = n")
    case True
    then have "e \<noteq> nm x" "pending h e = Some y" using g assms(6) by (auto split: if_splits)
    then show ?thesis using True d(3) [OF assms(4), of e y] assms(4) by auto
  qed (use g in auto)
  show "h_name g = m" if "(H(n \<mapsto> h1)) m = Some g" for m g using that d(1) assms(4,5) by (auto split: if_splits)
  show "y < k \<and> nm y = e" if "(H(n \<mapsto> h1)) m = Some g" "pending g e = Some y" for m g e y
    using cases [OF that] d(2,3) by metis
  show "\<exists>u \<in> A - {t}. f u = HandleFile m y"
    if g: "(H(n \<mapsto> h1)) m = Some g" "pending g e = Some y" "\<not> stop" for m g e y
  proof -
    obtain g0 where g0: "H m = Some g0" "pending g0 e = Some y" "m = n \<longrightarrow> y \<noteq> x" using cases [OF g(1,2)] by blast
    obtain u where "u \<in> A" "f u = HandleFile m y" using d(4) [OF g0(1,2) g(3)] by blast
    then show ?thesis using g0(3) assms(3) by auto
  qed
  show "y < k \<and> (\<exists>g. (H(n \<mapsto> h1)) m = Some g \<and> pending g (nm y) = Some y)"
    if u: "u \<in> A - {t}" "f u = HandleFile m y" for u m y
  proof -
    have "u \<in> A" using u by simp
    then obtain g where "H m = Some g" "pending g (nm y) = Some y" "y < k" using d(5,6) u(2) by blast
    then show ?thesis using other [of u y] u assms(4,6) by (cases "m = n") auto
  qed
  show "u = v" if "u \<in> A - {t}" "v \<in> A - {t}" "f u = HandleFile m y" "f v = HandleFile m y" for u v m y
    using that d(7) by blast
qed

text \<open>Tasks that handle no file do not matter.\<close>

lemma jobs_ok_cong:
  assumes "jobs_ok H f nm A k stop" "\<And>t n x. t \<in> B \<and> f' t = HandleFile n x \<longleftrightarrow> t \<in> A \<and> f t = HandleFile n x"
    "\<And>x. x < k \<Longrightarrow> nm' x = nm x"
  shows "jobs_ok H f' nm' B k stop"
proof -
  have e: "(\<exists>t \<in> B. f' t = HandleFile n x) \<longleftrightarrow> (\<exists>t \<in> A. f t = HandleFile n x)" for n x using assms(2) by blast
  show ?thesis
    unfolding jobs_ok_def e
  proof (intro conjI allI impI ballI)
    fix t n x assume "t \<in> B" "f' t = HandleFile n x"
    then have "t \<in> A" "f t = HandleFile n x" using assms(2) by blast+
    then show "x < k" "\<exists>h. H n = Some h \<and> pending h (nm' x) = Some x"
      using assms(1,3) by (fastforce simp: jobs_ok_def)+
  next
    fix t1 t2 n x assume "t1 \<in> B" "t2 \<in> B" "f' t1 = HandleFile n x" "f' t2 = HandleFile n x"
    then have "t1 \<in> A" "t2 \<in> A" "f t1 = HandleFile n x" "f t2 = HandleFile n x" using assms(2) by blast+
    then show "t1 = t2" using assms(1) by (auto simp: jobs_ok_def)
  qed (use assms(1,3) in \<open>auto simp: jobs_ok_def\<close>)
qed

section \<open>Every step keeps the invariants\<close>

lemma add_handlers_new:
  "add_handlers expRange cfgs m n = Some h \<Longrightarrow> (\<And>n h. m n = Some h \<Longrightarrow> h_name h = n \<and> pending h = Map.empty) \<Longrightarrow>
   h_name h = n \<and> pending h = Map.empty"
  by (induction cfgs arbitrary: m) (simp, force simp: newHandler_def split: if_splits)

lemma watch_init:
  "watch_jobs (init_watch expRange cfgs os (init_sys numCPU counter tobjs t0))"
  "watch_locks (init_watch expRange cfgs os (init_sys numCPU counter tobjs t0))"
proof -
  let ?W = "init_watch expRange cfgs os (init_sys numCPU counter tobjs t0)"
  have w: "working ?W = {}" by (simp add: working_def init_watch_def active_def live_def init_sys_def)
  have h: "handlers ?W n = Some h \<Longrightarrow> h_name h = n \<and> pending h = Map.empty" for n h
    using add_handlers_new [of expRange cfgs Map.empty n h] by (simp add: init_watch_def)
  show "watch_jobs ?W" unfolding watch_jobs_def w by (rule jobs_okI) (use h in auto)
  show "watch_locks ?W" by (simp add: watch_locks_def init_watch_def locks_ok_def)
qed

lemma wstep_sched:
  assumes "wstep K rep l W W'" "reachable K (ssys W)"
  shows "reachable K (ssys W')"
  using assms(1)
proof (cases rule: wstep.cases)
  case (report_new n h c j h1 t s1)
  have "newTask (Some j) (map (NextAfterDuration (now (ssys W))) []) (sch (ssys W)) = Inr (t, s1)" using report_new by simp
  from reachable.step [OF assms(2) step.add_new [OF this]] show ?thesis using report_new by simp
next
  case (prune_add d t s1)
  have "newTask (Some PruneAll) (map (NextAfterDuration (now (ssys W))) [d]) (sch (ssys W)) = Inr (t, s1)"
    using prune_add by simp
  from reachable.step [OF assms(2) step.add_new [OF this]] show ?thesis using prune_add by simp
qed (use assms(2) returns_step reachable.step in \<open>auto simp: internal_def\<close>, blast+)

lemma job_of_simps [simp]:
  "job_of (W\<lparr>handlers := a\<rparr>) = job_of W" "job_of (W\<lparr>phases := b\<rparr>) = job_of W" "job_of (W\<lparr>owner := c\<rparr>) = job_of W"
  "job_of (W\<lparr>objs := d\<rparr>) = job_of W" "job_of (W\<lparr>fresh_obj := e\<rparr>) = job_of W"
  by (simp_all add: job_of_def fun_eq_iff)

lemma file_of_simps [simp]:
  "file_of (W\<lparr>handlers := a\<rparr>) = file_of W" "file_of (W\<lparr>phases := b\<rparr>) = file_of W" "file_of (W\<lparr>owner := c\<rparr>) = file_of W"
  "file_of (W\<lparr>ssys := d\<rparr>) = file_of W" "file_of (W\<lparr>fresh_obj := e\<rparr>) = file_of W"
  by (simp_all add: file_of_def fun_eq_iff)

lemma working_simps [simp]:
  "working (W\<lparr>handlers := a\<rparr>) = working W" "working (W\<lparr>owner := c\<rparr>) = working W"
  "working (W\<lparr>objs := d\<rparr>) = working W" "working (W\<lparr>fresh_obj := e\<rparr>) = working W"
  by (simp_all add: working_def)

lemma retired_simps [simp]:
  "\<not> retired Calling" "\<not> retired Locked" "\<not> retired (Invoked err b)" "retired (Ended err) = Permanent (AsTaskError err)"
  by (simp_all add: retired_def)

lemma working_phase:
  "\<not> retired (phases W t) \<Longrightarrow> \<not> retired p \<Longrightarrow> working (W\<lparr>phases := (phases W)(t := p)\<rparr>) = working W"
  by (auto simp: working_def)

text \<open>The return of a task to the scheduler.\<close>

lemma working_returned:
  assumes "task_inv (ssys W)" "t \<in> set (running (ssys W))" "phases W t = Ended err"
  shows "working (W\<lparr>ssys := returns t err (ssys W), phases := (phases W)(t := Calling)\<rparr>) = working W"
proof (cases "Permanent (AsTaskError err)")
  case True
  then have "retired (phases W t)" using assms(3) by simp
  then show ?thesis using returns_active(1) [OF assms(1,2), of err] True by (auto simp: working_def)
next
  case False
  then have "\<not> retired (phases W t)" using assms(3) by simp
  then show ?thesis using returns_active(1) [OF assms(1,2), of err] False by (auto simp: working_def)
qed

lemma job_of_ssys: "(\<And>u. fn (tasks (sch S) u) = fn (tasks (sch (ssys W)) u)) \<Longrightarrow> job_of (W\<lparr>ssys := S\<rparr>) = job_of W"
  by (simp add: job_of_def fun_eq_iff)

lemma handle_locked_known:
  "handle_locked k c h = (None, h1) \<Longrightarrow> h_name h1 = h_name h \<and> pending h1 = pending h \<and> pending h c \<noteq> None"
  by (auto simp: handle_locked_def Let_def split: option.splits)

lemma handle_locked_new:
  "handle_locked k c h = (Some j, h1) \<Longrightarrow>
   j = HandleFile (h_name h) k \<and> h_name h1 = h_name h \<and> pending h1 = (pending h)(c \<mapsto> k) \<and> pending h c = None"
  by (auto simp: handle_locked_def Let_def split: option.splits)

lemma locks_new:
  assumes "task_inv (ssys W)" "watch_locks W"
    "newTask (Some j) (map (NextAfterDuration (now (ssys W))) ds) (sch (ssys W)) = Inr (t, s1)"
    "ssys W' = (ssys W)\<lparr>sch := s1, adding := t # adding (ssys W)\<rparr>" "phases W' = phases W" "owner W' = owner W"
  shows "watch_locks W'"
  unfolding watch_locks_def assms(5,6)
proof (rule locks_mono [OF assms(2) [unfolded watch_locks_def]])
  fix u assume "phases W u \<noteq> Calling"
  then have run: "u \<in> set (running (ssys W))" using assms(2) by (simp add: watch_locks_def locks_ok_def)
  then have "u \<noteq> taskFresh (sch (ssys W))" using active_fresh [OF assms(1)] running_active [OF assms(1)] by blast
  then show "job_of W' u = job_of W u \<and> u \<in> set (running (ssys W'))"
    using run assms(4) add_new_active(4,5) [OF assms(1,3)] by (simp add: job_of_def)
qed

lemma locks_returned:
  assumes "task_inv (ssys W)" "locks_ok (job_of W) ph (set (running (ssys W))) (owner W)" "ph t = Calling"
    "t \<in> set (running (ssys W))"
  shows "locks_ok (job_of (W\<lparr>ssys := returns t err (ssys W)\<rparr>)) ph (set (running (returns t err (ssys W)))) (owner W)"
proof (rule locks_mono [OF assms(2)])
  fix u assume "ph u \<noteq> Calling"
  then have "u \<in> set (running (ssys W))" "u \<noteq> t" using assms(2,3) by (auto simp: locks_ok_def)
  then show "job_of (W\<lparr>ssys := returns t err (ssys W)\<rparr>) u = job_of W u \<and> u \<in> set (running (returns t err (ssys W)))"
    using returns_active(2,4) [OF assms(1,4)] by (simp add: job_of_def)
qed

text \<open>A task that prunes has no phases.\<close>

lemma prune_calling: "watch_locks W \<Longrightarrow> job_of W t = PruneAll \<Longrightarrow> phases W t = Calling"
  by (cases "phases W t = Calling") (auto simp: watch_locks_def locks_ok_def)

lemma locks_preserved:
  assumes "wstep K rep l W W'" "reachable K (ssys W)" "watch_locks W"
  shows "watch_locks W'"
proof -
  have inv: "task_inv (ssys W)" using reachable_inv [OF assms(2)] by simp
  have locks: "locks_ok (job_of W) (phases W) (set (running (ssys W))) (owner W)"
    using assms(3) by (simp add: watch_locks_def)
  note new = locks_new [OF inv assms(3)] and ret = locks_returned [OF inv]
  show ?thesis using assms(1)
  proof (cases rule: wstep.cases)
    case (scheduler S)
    have j: "job_of (W\<lparr>ssys := S\<rparr>) = job_of W" by (rule job_of_ssys) (rule internal_active(1) [OF assms(2) scheduler(3)])
    have "set (running (ssys W)) \<subseteq> set (running S)" using scheduler(3) by (simp add: internal_def)
    then show ?thesis unfolding watch_locks_def scheduler(2) j
      using locks by (auto intro!: locks_mono [OF locks] simp: locks_ok_def)
  next
    case (report_new n h c j h1 t s1)
    then show ?thesis using new [of j "[]" t s1 W'] by simp
  next
    case (acquire t n x)
    then show ?thesis using locks_phase [OF locks _ acquire(4), of Locked "(owner W)(n \<mapsto> t)"] by (simp add: watch_locks_def)
  next
    case (invoked t n x locked y err)
    have "locked \<Longrightarrow> owner W n = Some t" using locks invoked(4,5) by (simp add: locks_ok_def)
    then show ?thesis
      using locks_phase [OF locks _ invoked(4), of "Invoked err locked" "owner W"] invoked by (simp add: watch_locks_def)
  next
    case (ended t n x err locked h)
    have "locked \<Longrightarrow> owner W n = Some t" using locks ended(4,5) by (simp add: locks_ok_def)
    then show ?thesis
      using locks_phase [OF locks _ ended(4), of "Ended err" "(owner W)(n := None)"]
        locks_phase [OF locks _ ended(4), of "Ended err" "owner W"] ended
      by (cases locked) (simp_all add: watch_locks_def)
  next
    case (returned t n x err)
    have "locks_ok (job_of W) ((phases W)(t := Calling)) (set (running (ssys W))) (owner W)"
      by (rule locks_phase [OF locks _ returned(4)]) simp_all
    from ret [OF this _ returned(3), of err] show ?thesis using returned(2) by (simp add: watch_locks_def job_of_def)
  next
    case (prune_add d t s1)
    then show ?thesis using new [of PruneAll "[d]" t s1 W'] by simp
  next
    case (prune_lock t n)
    then show ?thesis using locks_owner [OF locks, of n "Some t"] by (simp add: watch_locks_def)
  next
    case (prune_unlock t n)
    then show ?thesis using locks_owner [OF locks, of n None] by (simp add: watch_locks_def)
  next
    case (prune_returned t err)
    from ret [OF locks prune_calling [OF assms(3) prune_returned(4)] prune_returned(3), of err]
    show ?thesis using prune_returned(2) by (simp add: watch_locks_def)
  qed (use locks in \<open>simp add: watch_locks_def\<close>)
qed

lemma file_of_new: "file_of (W\<lparr>objs := (objs W)(k := handler_newTask rep h c)\<rparr>) x = (if x = k then c else file_of W x)"
  by (simp add: file_of_def task_Name_def handler_newTask_def task_New_def)

lemma file_of_invoked: "t_opts y = t_opts (objs W x) \<Longrightarrow> file_of (W\<lparr>objs := (objs W)(x := y)\<rparr>) = file_of W"
  by (auto simp: file_of_def task_Name_def fun_eq_iff)

lemma invokeTask_end_fields:
  "h_name (invokeTask_end err c h) = h_name h"
  "pending (invokeTask_end err c h) = (if Permanent (AsTaskError err) then (pending h)(c := None) else pending h)"
  by (simp_all add: invokeTask_end_def)

text \<open>What each kind of step does to the set of working tasks.\<close>

lemma working_new:
  assumes "task_inv (ssys W)" "watch_locks W" "phases W' = phases W"
    "newTask (Some j) (map (NextAfterDuration (now (ssys W))) ds) (sch (ssys W)) = Inr (t, s1)"
    "ssys W' = (ssys W)\<lparr>sch := s1, adding := t # adding (ssys W)\<rparr>"
  shows "working W' = insert t (working W)" "t \<notin> working W" "job_of W' t = j" "u \<noteq> t \<Longrightarrow> job_of W' u = job_of W u"
    "loopStopRequested (sch (ssys W')) = loopStopRequested (sch (ssys W))" "phases W t = Calling"
proof -
  note f = add_new_active [OF assms(1,4)]
  have "t \<notin> set (running (ssys W))" using f(2) running_active [OF assms(1)] by blast
  then show c: "phases W t = Calling" using assms(2) by (auto simp: watch_locks_def locks_ok_def)
  show "working W' = insert t (working W)" "t \<notin> working W" using f(1,2) c assms(3,5) by (auto simp: working_def)
  show "job_of W' t = j" "u \<noteq> t \<Longrightarrow> job_of W' u = job_of W u" using f(3,4) assms(5) by (simp_all add: job_of_def)
  show "loopStopRequested (sch (ssys W')) = loopStopRequested (sch (ssys W))" using f(6) assms(5) by simp
qed

text \<open>The invariant of the jobs, step by step: the steps of the scheduler itself, ...\<close>

lemma jobs_internal:
  assumes "reachable K (ssys W)" "internal K (ssys W) S" "watch_jobs W"
  shows "watch_jobs (W\<lparr>ssys := S\<rparr>)"
proof -
  note f = internal_active [OF assms(1,2)] and jobs = assms(3) [unfolded watch_jobs_def]
  have j: "job_of (W\<lparr>ssys := S\<rparr>) = job_of W" by (rule job_of_ssys) (rule f(1))
  have sub: "working (W\<lparr>ssys := S\<rparr>) \<subseteq> working W" using f(2) by (auto simp: working_def)
  show ?thesis
  proof (cases "loopStopRequested (sch S)")
    case True
    then show ?thesis using jobs_ok_shrink [OF jobs sub] by (simp add: watch_jobs_def j)
  next
    case False
    then have "working (W\<lparr>ssys := S\<rparr>) = working W" "\<not> loopStopRequested (sch (ssys W))"
      using f(3,4) by (auto simp: working_def)
    then show ?thesis using jobs False by (simp add: watch_jobs_def j)
  qed
qed

text \<open>... a report for a file without a pending task, ...\<close>

lemma jobs_report_new:
  assumes "task_inv (ssys W)" "watch_locks W" "watch_jobs W" "handlers W n = Some h"
    "handle_locked (fresh_obj W) c h = (Some j, h1)" "newTask (Some j) [] (sch (ssys W)) = Inr (t, s1)"
    and W': "W' = W\<lparr>handlers := (handlers W)(n \<mapsto> h1), ssys := (ssys W)\<lparr>sch := s1, adding := t # adding (ssys W)\<rparr>,
      objs := (objs W)(fresh_obj W := handler_newTask rep h c), fresh_obj := Suc (fresh_obj W)\<rparr>"
  shows "watch_jobs W'"
proof -
  note jobs = assms(3) [unfolded watch_jobs_def] and hl = handle_locked_new [OF assms(5)]
  have n: "newTask (Some j) (map (NextAfterDuration (now (ssys W))) []) (sch (ssys W)) = Inr (t, s1)"
    "phases W' = phases W" "ssys W' = (ssys W)\<lparr>sch := s1, adding := t # adding (ssys W)\<rparr>"
    using assms(6) W' by simp_all
  note w = working_new [OF assms(1,2) n(2,1,3)]
  have hn: "h_name h = n" by (rule jobs_okD(1) [OF jobs assms(4)])
  have fo: "file_of W' x = (if x = fresh_obj W then c else file_of W x)" for x
    using file_of_new [of W "fresh_obj W" rep h c x] W' by (simp add: file_of_def)
  have "jobs_ok ((handlers W)(n \<mapsto> h1)) (job_of W') (file_of W') (insert t (working W)) (Suc (fresh_obj W))
      (loopStopRequested (sch (ssys W)))"
  proof (rule jobs_ok_new [OF jobs assms(4)])
    show "job_of W' u = job_of W u" if "u \<in> working W" for u using w(4) [of u] w(2) that by (cases "u = t") auto
    show "job_of W' t = HandleFile n (fresh_obj W)" using w(3) hl hn by simp
  qed (use hl w(2) fo in simp_all)
  then show ?thesis using w(1,5) W' by (simp add: watch_jobs_def)
qed

text \<open>... the end of \<open>invokeTask\<close>, ...\<close>

lemma jobs_ended:
  assumes "watch_jobs W" "t \<in> active (ssys W)" "job_of W t = HandleFile n x" "phases W t = Invoked err locked"
    "handlers W n = Some h"
    and W': "W' = W\<lparr>handlers := (handlers W)(n \<mapsto> invokeTask_end err (file_of W x) h),
      phases := (phases W)(t := Ended err), owner := ow\<rparr>"
  shows "watch_jobs W'"
proof -
  note jobs = assms(1) [unfolded watch_jobs_def] and e = invokeTask_end_fields [of err "file_of W x" h]
  have t: "t \<in> working W" using assms(2,4) by (simp add: working_def)
  have "jobs_ok ((handlers W)(n \<mapsto> invokeTask_end err (file_of W x) h)) (job_of W) (file_of W) (working W') (fresh_obj W)
      (loopStopRequested (sch (ssys W)))"
  proof (cases "Permanent (AsTaskError err)")
    case True
    then have "working W' = working W - {t}" using W' by (auto simp: working_def)
    then show ?thesis using jobs_ok_finish [OF jobs t assms(3,5)] e True by simp
  next
    case False
    then have "working W' = working W" using W' assms(4) by (auto simp: working_def)
    then show ?thesis using jobs_ok_metrics [OF jobs assms(5)] e False by simp
  qed
  then show ?thesis using W' by (simp add: watch_jobs_def)
qed

text \<open>... and the steps of a task that prunes.\<close>

lemma jobs_prune_add:
  assumes "task_inv (ssys W)" "watch_locks W" "watch_jobs W"
    "newTask (Some PruneAll) [NextAfterDuration (now (ssys W)) d] (sch (ssys W)) = Inr (t, s1)"
    and W': "W' = W\<lparr>ssys := (ssys W)\<lparr>sch := s1, adding := t # adding (ssys W)\<rparr>\<rparr>"
  shows "watch_jobs W'"
proof -
  have n: "newTask (Some PruneAll) (map (NextAfterDuration (now (ssys W))) [d]) (sch (ssys W)) = Inr (t, s1)"
    "phases W' = phases W" "ssys W' = (ssys W)\<lparr>sch := s1, adding := t # adding (ssys W)\<rparr>"
    using assms(4) W' by simp_all
  note w = working_new [OF assms(1,2) n(2,1,3)]
  have "jobs_ok (handlers W) (job_of W') (file_of W) (insert t (working W)) (fresh_obj W) (loopStopRequested (sch (ssys W)))"
  proof (rule jobs_ok_cong [OF assms(3) [unfolded watch_jobs_def]])
    show "u \<in> insert t (working W) \<and> job_of W' u = HandleFile n x \<longleftrightarrow> u \<in> working W \<and> job_of W u = HandleFile n x" for u n x
      using w(2,3) w(4) [of u] by (cases "u = t") auto
  qed simp
  then show ?thesis using w(1,5) W' by (simp add: watch_jobs_def)
qed

lemma jobs_prune_returned:
  assumes "task_inv (ssys W)" "watch_jobs W" "t \<in> set (running (ssys W))" "job_of W t = PruneAll"
    and W': "W' = W\<lparr>ssys := returns t err (ssys W)\<rparr>"
  shows "watch_jobs W'"
proof -
  note r = returns_active [OF assms(1,3), of err]
  have j: "job_of W' = job_of W" using W' r(2) by (simp add: job_of_def fun_eq_iff)
  have "jobs_ok (handlers W) (job_of W) (file_of W) (working W') (fresh_obj W) (loopStopRequested (sch (ssys W)))"
  proof (rule jobs_ok_cong [OF assms(2) [unfolded watch_jobs_def]])
    show "u \<in> working W' \<and> job_of W u = HandleFile n x \<longleftrightarrow> u \<in> working W \<and> job_of W u = HandleFile n x" for u n x
      using r(1) W' assms(4) by (cases "u = t") (simp_all add: working_def)
  qed simp
  then show ?thesis using W' r(3) unfolding watch_jobs_def j by simp
qed

lemma jobs_preserved:
  assumes "wstep K rep l W W'" "reachable K (ssys W)" "watch_locks W" "watch_jobs W"
  shows "watch_jobs W'"
proof -
  have inv: "task_inv (ssys W)" using reachable_inv [OF assms(2)] by simp
  note jobs = assms(4) [unfolded watch_jobs_def]
  show ?thesis using assms(1)
  proof (cases rule: wstep.cases)
    case (scheduler S)
    then show ?thesis using jobs_internal [OF assms(2) _ assms(4)] by simp
  next
    case (report_known n h c h1)
    then show ?thesis
      using jobs_ok_metrics [OF jobs report_known(3)] handle_locked_known [OF report_known(5)] by (simp add: watch_jobs_def)
  next
    case (report_new n h c j h1 t s1)
    show ?thesis by (rule jobs_report_new [OF inv assms(3,4) report_new(3,5,6,2)])
  next
    case (acquire t n x)
    then show ?thesis using jobs working_phase [of W t Locked] by (simp add: watch_jobs_def)
  next
    case (invoked t n x locked y err)
    have "\<not> retired (phases W t)" using invoked(5) by simp
    then have "working W' = working W" using working_phase [of W t "Invoked err locked"] invoked(2) by simp
    moreover have "file_of W' = file_of W" using file_of_invoked [OF invoked(6)] invoked(2) by (simp add: file_of_def fun_eq_iff)
    ultimately show ?thesis using jobs invoked(2) by (simp add: watch_jobs_def)
  next
    case (ended t n x err locked h)
    show ?thesis by (rule jobs_ended [OF assms(4) running_active [OF inv ended(3)] ended(4-6,2)])
  next
    case (returned t n x err)
    have j: "job_of W' = job_of W"
      using returned(2) returns_active(2) [OF inv returned(3)] by (simp add: job_of_def fun_eq_iff)
    show ?thesis
      using jobs working_returned [OF inv returned(3,5)] returns_active(3) [OF inv returned(3)] returned(2)
      unfolding watch_jobs_def j by simp
  next
    case (prune_add d t s1)
    show ?thesis by (rule jobs_prune_add [OF inv assms(3,4) prune_add(3,2)])
  next
    case (prune_returned t err)
    show ?thesis by (rule jobs_prune_returned [OF inv assms(4) prune_returned(3,4,2)])
  qed (use jobs in \<open>simp_all add: watch_jobs_def\<close>)
qed

lemma wreachable_inv:
  assumes "wreachable K rep W"
  shows "reachable K (ssys W) \<and> watch_locks W \<and> watch_jobs W"
  using assms
proof induction
  case (init numCPU expRange cfgs os counter tobjs t0)
  then show ?case
    using watch_init [of expRange cfgs os numCPU counter tobjs t0] reachable.init [of numCPU K counter tobjs t0]
    by (simp add: init_watch_def)
next
  case (step W l W')
  then show ?case using wstep_sched locks_preserved jobs_preserved by blast
qed

section \<open>The abstract specification\<close>

text \<open>
  To the outside the handlers and the scheduler are a set of files in work: a report puts a file
  into it, the end of the work takes it out, and nothing else changes it.
\<close>

fun spec_step :: "label \<Rightarrow> (string \<times> string) set \<Rightarrow> (string \<times> string) set \<Rightarrow> bool" where
  "spec_step (Report n c) A B \<longleftrightarrow> B = insert (n, c) A"
| "spec_step (Finish n c) A B \<longleftrightarrow> (n, c) \<in> A \<and> B = A - {(n, c)}"
| "spec_step Tau A B \<longleftrightarrow> B = A"

definition in_work :: "'w wsys \<Rightarrow> (string \<times> string) set" where
  "in_work W = {(n, file_of W x) |n x. \<exists>t \<in> working W. job_of W t = HandleFile n x}"

definition pending_files :: "'w wsys \<Rightarrow> (string \<times> string) set" where
  "pending_files W = {(n, c). \<exists>h. handlers W n = Some h \<and> pending h c \<noteq> None}"

lemma in_work_pending:
  assumes "watch_jobs W" "\<not> loopStopRequested (sch (ssys W))"
  shows "in_work W = pending_files W"
proof -
  have jobs: "jobs_ok (handlers W) (job_of W) (file_of W) (working W) (fresh_obj W) False"
    using assms by (simp add: watch_jobs_def)
  have "(n, c) \<in> in_work W \<longleftrightarrow> (n, c) \<in> pending_files W" for n c
  proof
    assume "(n, c) \<in> in_work W"
    then obtain t x where "t \<in> working W" "job_of W t = HandleFile n x" "c = file_of W x" by (auto simp: in_work_def)
    then show "(n, c) \<in> pending_files W" using jobs_okD(6) [OF jobs, of t n x] by (auto simp: pending_files_def)
  next
    assume "(n, c) \<in> pending_files W"
    then obtain h x where h: "handlers W n = Some h" "pending h c = Some x" by (auto simp: pending_files_def)
    then show "(n, c) \<in> in_work W" using jobs_okD(3,4) [OF jobs h] by (auto simp: in_work_def)
  qed
  then show ?thesis by auto
qed

lemma wstep_stop:
  assumes "wstep K rep l W W'" "wreachable K rep W" "loopStopRequested (sch (ssys W))"
  shows "loopStopRequested (sch (ssys W'))"
proof -
  have r: "reachable K (ssys W)" "watch_locks W" "task_inv (ssys W)"
    using wreachable_inv [OF assms(2)] reachable_inv by blast+
  show ?thesis using assms(1)
  proof (cases rule: wstep.cases)
    case (scheduler S)
    then show ?thesis using internal_active(3) [OF r(1) scheduler(3)] assms(3) by simp
  next
    case (report_new n h c j h1 t s1)
    have n: "newTask (Some j) (map (NextAfterDuration (now (ssys W))) []) (sch (ssys W)) = Inr (t, s1)" using report_new(6) by simp
    then show ?thesis using add_new_active(6) [OF r(3) n] report_new(2) assms(3) by simp
  next
    case (returned t n x err)
    then show ?thesis using returns_active(3) [OF r(3) returned(3)] assms(3) by simp
  next
    case (prune_add d t s1)
    have n: "newTask (Some PruneAll) (map (NextAfterDuration (now (ssys W))) [d]) (sch (ssys W)) = Inr (t, s1)"
      using prune_add(3) by simp
    then show ?thesis using add_new_active(6) [OF r(3) n] prune_add(2) assms(3) by simp
  next
    case (prune_returned t err)
    then show ?thesis using returns_active(3) [OF r(3) prune_returned(3)] assms(3) by simp
  qed (use assms(3) in simp_all)
qed

lemma pending_files_step:
  assumes "wstep K rep l W W'" "wreachable K rep W"
  shows "spec_step l (pending_files W) (pending_files W')"
proof -
  have inv: "task_inv (ssys W)" and jobs: "jobs_ok (handlers W) (job_of W) (file_of W) (working W) (fresh_obj W) (loopStopRequested (sch (ssys W)))"
    using wreachable_inv [OF assms(2)] reachable_inv by (auto simp: watch_jobs_def)
  show ?thesis using assms(1)
  proof (cases rule: wstep.cases)
    case (report_known n h c h1)
    then show ?thesis using handle_locked_known [OF report_known(5)] by (auto simp: pending_files_def split: if_splits)
  next
    case (report_new n h c j h1 t s1)
    then show ?thesis using handle_locked_new [OF report_new(5)] by (auto simp: pending_files_def split: if_splits)
  next
    case (ended t n x err locked h)
    have "t \<in> working W" using running_active [OF inv ended(3)] ended(5) by (simp add: working_def)
    then have "pending h (file_of W x) = Some x" using jobs_okD(6) [OF jobs _ ended(4)] ended(6) by auto
    then show ?thesis using ended(1,2,6) by (auto simp: pending_files_def invokeTask_end_fields split: if_splits)
  qed (simp_all add: pending_files_def)
qed

section \<open>Properties\<close>

text \<open>
  C1. The handlers and the scheduler implement the set of files in work. Every step of the
  composed system, seen through the tasks the scheduler still has to run, is a step of that
  specification with the same label: a report adds the file, at once and at most once, however
  often it is reported; only the end of its task removes it; retries, pruning and everything the
  scheduler does leave the set alone, as long as the scheduler is not asked to stop.
\<close>

theorem watch_refines_spec:
  assumes "wreachable K rep W" "wstep K rep l W W'" "\<not> loopStopRequested (sch (ssys W'))"
  shows "spec_step l (in_work W) (in_work W')"
proof -
  have "wreachable K rep W'" using assms(1,2) by (rule wreachable.step)
  then have "in_work W' = pending_files W'" using in_work_pending wreachable_inv assms(3) by blast
  moreover have "in_work W = pending_files W"
    using in_work_pending wreachable_inv [OF assms(1)] wstep_stop [OF assms(2,1)] assms(3) by blast
  ultimately show ?thesis using pending_files_step [OF assms(2,1)] by simp
qed

text \<open>
  C2. A file is never handled by two tasks: at most one task in the scheduler is responsible for
  a file of a handler, and it is the one the handler has recorded as pending.
\<close>

theorem one_task_per_file:
  assumes "wreachable K rep W" "t \<in> working W" "job_of W t = HandleFile n x"
    "u \<in> working W" "job_of W u = HandleFile n y" "file_of W x = file_of W y"
  shows "t = u \<and> (\<exists>h. handlers W n = Some h \<and> pending h (file_of W x) = Some x)"
proof -
  have jobs: "jobs_ok (handlers W) (job_of W) (file_of W) (working W) (fresh_obj W) (loopStopRequested (sch (ssys W)))"
    using wreachable_inv [OF assms(1)] by (simp add: watch_jobs_def)
  obtain h where h: "handlers W n = Some h" "pending h (file_of W x) = Some x" using jobs_okD(6) [OF jobs assms(2,3)] by blast
  then have "x = y" using jobs_okD(6) [OF jobs assms(4,5)] assms(6) by auto
  then show ?thesis using jobs_okD(7) [OF jobs assms(2,4,3)] assms(5) h by blast
qed

text \<open>
  C32. After a report was accepted, a task for the file is in the scheduler that does not hold the
  handler's lock yet: as the comparison of the file with its state before the command is done with
  the lock held, an attempt that gets that far takes the reported change into account.
\<close>

theorem report_is_covered:
  assumes "wreachable K rep W" "wstep K rep (Report n c) W W'" "\<not> loopStopRequested (sch (ssys W'))"
  shows "\<exists>t x. t \<in> working W' \<and> job_of W' t = HandleFile n x \<and> file_of W' x = c \<and> \<not> holds (phases W' t)"
proof -
  have r: "wreachable K rep W'" using assms(1,2) by (rule wreachable.step)
  have "(n, c) \<in> pending_files W'" using pending_files_step [OF assms(2,1)] by simp
  then have "(n, c) \<in> in_work W'" using in_work_pending wreachable_inv [OF r] assms(3) by blast
  then obtain t x where t: "t \<in> working W'" "job_of W' t = HandleFile n x" "file_of W' x = c" by (auto simp: in_work_def)
  have "owner W' n = None" using assms(2) by (cases rule: wstep.cases) (auto split: if_splits)
  moreover have "holds (phases W' t) \<Longrightarrow> owner W' n = Some t"
    using wreachable_inv [OF r] t(2) unfolding watch_locks_def locks_ok_def by blast
  ultimately have "\<not> holds (phases W' t)" by auto
  then show ?thesis using t by blast
qed

section \<open>A sample run\<close>

text \<open>A handler and one slot; a change is reported, its task is queued and the loop launches it.\<close>

definition report_state :: "'w reporter \<Rightarrow> string \<Rightarrow> string \<Rightarrow> 'w wsys \<Rightarrow> 'w wsys" where
  "report_state rep n c W =
     (case handlers W n of
        None \<Rightarrow> W
      | Some h \<Rightarrow>
          (case handle_locked (fresh_obj W) c h of
             (None, h1) \<Rightarrow> W\<lparr>handlers := (handlers W)(n \<mapsto> h1)\<rparr>
           | (Some j, h1) \<Rightarrow>
               (case newTask (Some j) [] (sch (ssys W)) of
                  Inl _ \<Rightarrow> W
                | Inr (t, s1) \<Rightarrow>
                    W\<lparr>handlers := (handlers W)(n \<mapsto> h1), ssys := (ssys W)\<lparr>sch := s1, adding := t # adding (ssys W)\<rparr>,
                      objs := (objs W)(fresh_obj W := handler_newTask rep h c), fresh_obj := Suc (fresh_obj W)\<rparr>)))"

lemma report_state_step:
  assumes "handlers W n = Some h" "owner W n = None"
  shows "wstep K rep (Report n c) W (report_state rep n c W)"
proof -
  obtain j h1 where l: "handle_locked (fresh_obj W) c h = (j, h1)" by fastforce
  show ?thesis
  proof (cases j)
    case None
    then show ?thesis using wstep.report_known [OF assms, of c h1 K rep] assms l by (simp add: report_state_def)
  next
    case (Some k)
    obtain t s1 where n: "newTask (Some k) [] (sch (ssys W)) = Inr (t, s1)" by (simp add: newTask_def Let_def)
    then show ?thesis using wstep.report_new [OF assms _ n, of c h1 K rep] Some assms l by (simp add: report_state_def)
  qed
qed

definition no_report :: "unit reporter" where
  "no_report _ _ _ _ w = w"

definition watch_start :: "unit wsys" where
  "watch_start = init_watch (\<lambda>_ _ _. []) [sample_handler]
     (\<lambda>_. task_New \<lparr>t_Config = sample_handler, t_Journal = journal_New sample_handler, t_Name = [], t_Metrics = None\<rparr>)
     (init_sys 1 0 (\<lambda>_. \<lparr>fn = PruneAll, seq = 0, nextAfter = Time 0, attemptCount = 0, seqItem = None, timeItem = None\<rparr>) (Time 5))"

definition watch_reported :: "unit wsys" where
  "watch_reported = report_state no_report ''h'' ''f'' watch_start"

definition queued_sys :: "job sys" where
  "queued_sys = (ssys watch_reported)\<lparr>sch := projr (Add_locked 0 (sch (ssys watch_reported))), adding := [], notifying := 1\<rparr>"

definition started_sys :: "job sys" where
  "started_sys = queued_sys\<lparr>sch := (sch queued_sys)\<lparr>loopActiveCount := 1\<rparr>, lpc := AtTop\<rparr>"

definition running_sys :: "job sys" where
  "running_sys = started_sys\<lparr>sch := snd (loop_iteration (now started_sys) (sch started_sys)), running := [0]\<rparr>"

definition watch_running :: "unit wsys" where
  "watch_running = watch_reported\<lparr>ssys := running_sys\<rparr>"

lemma watch_start_handler:
  "handlers watch_start ''h'' = Some (newHandler (\<lambda>_ _ _. []) sample_handler)" "owner watch_start = Map.empty"
  "fresh_obj watch_start = 0"
  by (simp_all add: watch_start_def init_watch_def sample_handler_def)

lemma watch_start_reachable: "wreachable 1 no_report watch_start"
  unfolding watch_start_def by (rule wreachable.init) simp

lemma watch_reported_reachable: "wreachable 1 no_report watch_reported"
  unfolding watch_reported_def
  by (rule wreachable.step [OF watch_start_reachable], rule report_state_step) (simp_all add: watch_start_handler)

lemma running_sys_internal:
  "internal 1 (ssys watch_reported) queued_sys" "internal 1 queued_sys started_sys" "internal 1 started_sys running_sys"
proof -
  have a: "adding (ssys watch_reported) = [0]" "notifying (ssys watch_reported) = 0" "case_sum (\<lambda>_. False) (\<lambda>_. True) (Add_locked 0 (sch (ssys watch_reported)))"
    "running (ssys watch_reported) = []" by code_simp+
  have f: "taskFresh (sch (ssys watch_reported)) = 1" "taskFresh (sch queued_sys) = 1" "running queued_sys = []"
    "running started_sys = []" "taskFresh (sch started_sys) = 1" "taskFresh (sch running_sys) = 1" by code_simp+
  have "Add_locked 0 (sch (ssys watch_reported)) = Inr (sch queued_sys)" using a(3) by (auto simp: queued_sys_def split: sum.splits)
  from step.add_enqueue [OF _ this] have "step 1 (ssys watch_reported) queued_sys" using a(1,2) by (simp add: queued_sys_def)
  then show "internal 1 (ssys watch_reported) queued_sys" using f(1,2) a(4) by (simp add: internal_def)
  have "\<not> loopStopRequested (sch queued_sys)" "loopActiveCount (sch queued_sys) = 0" by code_simp+
  then have "Start (sch queued_sys) = Inr ((sch queued_sys)\<lparr>loopActiveCount := 1\<rparr>)" by (simp add: Start_def)
  from step.start [OF this] have "step 1 queued_sys started_sys" by (simp add: started_sys_def)
  then show "internal 1 queued_sys started_sys" using f(2,3,5) by (simp add: internal_def)
  have "fst (loop_iteration (now started_sys) (sch started_sys)) = LoopLaunch 0" by code_simp
  then have l: "loop_iteration (now started_sys) (sch started_sys) = (LoopLaunch 0, sch running_sys)"
    by (simp add: running_sys_def prod_eq_iff)
  have "lpc started_sys = AtTop" by (simp add: started_sys_def)
  from step.loop_launch [OF this l] have "step 1 started_sys running_sys" using f(4) by (simp add: running_sys_def)
  then show "internal 1 started_sys running_sys" using f(4-6) by (simp add: internal_def)
qed

lemma watch_running_reachable: "wreachable 1 no_report watch_running"
proof -
  have "wreachable 1 no_report (watch_reported\<lparr>ssys := queued_sys\<rparr>)"
    using wreachable.step [OF watch_reported_reachable wstep.scheduler [OF running_sys_internal(1)]] by simp
  then have "wreachable 1 no_report (watch_reported\<lparr>ssys := started_sys\<rparr>)"
    using wreachable.step wstep.scheduler [of 1 "watch_reported\<lparr>ssys := queued_sys\<rparr>" started_sys no_report] running_sys_internal(2)
    by fastforce
  then show ?thesis
    using wreachable.step wstep.scheduler [of 1 "watch_reported\<lparr>ssys := started_sys\<rparr>" running_sys no_report] running_sys_internal(3)
    unfolding watch_running_def by fastforce
qed

lemma watch_running_facts:
  "running (ssys watch_running) = [0]" "job_of watch_running 0 = HandleFile ''h'' 0" "phases watch_running = (\<lambda>_. Calling)"
  "owner watch_running = Map.empty" "\<not> loopStopRequested (sch (ssys watch_running))" "file_of watch_running 0 = ''f''"
proof -
  show "running (ssys watch_running) = [0]" "job_of watch_running 0 = HandleFile ''h'' 0"
    "\<not> loopStopRequested (sch (ssys watch_running))" "file_of watch_running 0 = ''f''" by code_simp+
  have "phases (report_state r n c W) = phases W" "owner (report_state r n c W) = owner W" for r n c and W :: "unit wsys"
    by (auto simp: report_state_def split: option.split prod.split sum.split)
  then show "phases watch_running = (\<lambda>_. Calling)" "owner watch_running = Map.empty"
    by (simp_all add: watch_running_def watch_reported_def watch_start_def init_watch_def)
qed

lemma watch_running_handler: "\<exists>h. handlers watch_running ''h'' = Some h \<and> pending h ''f'' = Some 0"
  by (simp add: watch_running_def watch_reported_def report_state_def watch_start_handler handle_locked_def newHandler_def
      newTask_def Let_def)

lemma watch_running_working: "0 \<in> working watch_running"
proof -
  have "task_inv (ssys watch_running)" using wreachable_inv [OF watch_running_reachable] reachable_inv by blast
  then show ?thesis using running_active [of "ssys watch_running" 0] by (simp add: working_def watch_running_facts)
qed

section \<open>Witnesses\<close>

theorem watch_refines_spec_witness:
  "spec_step (Report ''h'' ''f'') (in_work watch_start) (in_work watch_reported) \<and> in_work watch_start = {}"
proof -
  have "\<not> loopStopRequested (sch (ssys watch_reported))" by code_simp
  moreover have "wstep 1 no_report (Report ''h'' ''f'') watch_start watch_reported"
    unfolding watch_reported_def by (rule report_state_step) (simp_all add: watch_start_handler)
  moreover have "in_work watch_start = {}"
    by (simp add: in_work_def working_def watch_start_def init_watch_def active_def live_def init_sys_def)
  ultimately show ?thesis using watch_refines_spec [OF watch_start_reachable] by blast
qed

theorem one_task_per_file_witness:
  "\<exists>h. handlers watch_running ''h'' = Some h \<and> pending h ''f'' = Some 0"
  using one_task_per_file [OF watch_running_reachable watch_running_working watch_running_facts(2)
      watch_running_working watch_running_facts(2) refl]
  by (simp add: watch_running_facts(6))

theorem report_is_covered_witness:
  "\<exists>W t x. wstep 1 no_report (Report ''h'' ''f'') watch_running W \<and> job_of W t = HandleFile ''h'' x \<and> file_of W x = ''f'' \<and>
     \<not> holds (phases W t)"
proof -
  let ?W = "report_state no_report ''h'' ''f'' watch_running"
  obtain h where "handlers watch_running ''h'' = Some h" using watch_running_handler by blast
  then have st: "wstep 1 no_report (Report ''h'' ''f'') watch_running ?W"
    by (rule report_state_step) (simp add: watch_running_facts(4))
  have "\<not> loopStopRequested (sch (ssys ?W))" by code_simp
  from report_is_covered [OF watch_running_reachable st this] show ?thesis using st by blast
qed

text \<open>
  C33. A reported change can be lost. When \<open>invoke\<close> has returned a permanent error without having
  taken the handler's lock (for example because the file had vanished before the command was run),
  the task is still pending until \<open>invokeTask\<close> gets the lock. A change of the same file that is
  reported in between is accepted without making a new task, the pending task is then removed, and
  no task is left for the file.
\<close>

theorem change_can_be_lost:
  "\<exists>(W1 :: unit wsys) W2 W3 e. wreachable 1 no_report W1 \<and> phases W1 0 = Invoked (Some e) False \<and>
     wstep 1 no_report (Report ''h'' ''f'') W1 W2 \<and> wstep 1 no_report (Finish ''h'' ''f'') W2 W3 \<and>
     \<not> loopStopRequested (sch (ssys W3)) \<and> in_work W3 = {}"
proof -
  let ?e = "ErrWrap ''file vanished before running command'' (ErrNo ENOENT)"
  let ?W = watch_running
  let ?W1 = "?W\<lparr>phases := (phases ?W)(0 := Invoked (Some ?e) False), objs := (objs ?W)(0 := objs ?W 0)\<rparr>"
  have "wstep 1 no_report Tau ?W ?W1"
    by (rule wstep.invoked [where n = "''h''" and locked = False]) (simp_all add: watch_running_facts)
  then have r1: "wreachable 1 no_report ?W1" by (rule wreachable.step [OF watch_running_reachable])
  obtain h where h: "handlers ?W ''h'' = Some h" "pending h ''f'' = Some 0" using watch_running_handler by blast
  obtain h1 where h1: "handle_locked (fresh_obj ?W1) ''f'' h = (None, h1)" using h(2) by (simp add: handle_locked_def Let_def)
  let ?W2 = "?W1\<lparr>handlers := (handlers ?W1)(''h'' \<mapsto> h1)\<rparr>"
  have s2: "wstep 1 no_report (Report ''h'' ''f'') ?W1 ?W2"
    by (rule wstep.report_known [OF _ _ h1]) (simp_all add: h(1) watch_running_facts)
  then have r2: "wreachable 1 no_report ?W2" by (rule wreachable.step [OF r1])
  have perm: "Permanent (AsTaskError (Some ?e))" by (rule Permanent_plain) simp
  have f: "file_of ?W2 0 = ''f''" using watch_running_facts(6) by (simp add: file_of_def)
  obtain W3 where W3: "W3 = ?W2\<lparr>handlers := (handlers ?W2)(''h'' \<mapsto> invokeTask_end (Some ?e) (file_of ?W2 0) h1),
      phases := (phases ?W2)(0 := Ended (Some ?e)), owner := (if False then (owner ?W2)(''h'' := None) else owner ?W2)\<rparr>" by simp
  have "wstep 1 no_report (if Permanent (AsTaskError (Some ?e)) then Finish ''h'' (file_of ?W2 0) else Tau) ?W2 W3"
    unfolding W3 by (rule wstep.ended) (simp_all add: watch_running_facts)
  then have s3: "wstep 1 no_report (Finish ''h'' ''f'') ?W2 W3" unfolding f using perm by simp
  then have r3: "wreachable 1 no_report W3" by (rule wreachable.step [OF r2])
  have stop: "\<not> loopStopRequested (sch (ssys W3))" using watch_running_facts(5) by (simp add: W3)
  have p0: "pending_files watch_start = {}"
    by (auto simp: pending_files_def watch_start_def init_watch_def newHandler_def split: if_splits)
  have "wstep 1 no_report (Report ''h'' ''f'') watch_start watch_reported"
    unfolding watch_reported_def by (rule report_state_step) (simp_all add: watch_start_handler)
  from pending_files_step [OF this watch_start_reachable] have "pending_files watch_reported = {(''h'', ''f'')}" by (simp add: p0)
  then have "pending_files ?W1 = {(''h'', ''f'')}" by (simp add: pending_files_def watch_running_def)
  then have "pending_files W3 = {}" using pending_files_step [OF s2 r1] pending_files_step [OF s3 r2] by simp
  then have "in_work W3 = {}" using in_work_pending stop wreachable_inv [OF r3] by blast
  then show ?thesis using r1 s2 s3 stop
    by (intro exI [of _ ?W1] exI [of _ ?W2] exI [of _ W3] exI [of _ ?e]) simp
qed

end
