(* ===== verification/Watchman.thy ===== *)
theory Watchman
  imports FileChange
begin

text \<open>
  \<open>internal/watchman/client.go\<close> and \<open>flag.go\<close>: the daemon is used through its command line client,
  one process per request. The process and the logger its error output goes to are a dependency;
  \<open>client_env\<close> has the operations of \<open>exec.Cmd\<close> and of the JSON decoder at its output.
\<close>

section \<open>flag.go\<close>

record Flags =
  program :: string

definition Flags_Args :: "Flags \<Rightarrow> string list" where
  "Flags_Args f = [program f]"

section \<open>client.go\<close>

definition ErrClientError :: goerr where
  "ErrClientError = ErrNew ''watchman client error''"

definition defaultClientCommand :: "string list \<Rightarrow> string list" where
  "defaultClientCommand base =
     base @ [''--logfile=/dev/stderr'', ''--log-level=1'', ''--no-local'', ''--no-spawn'', ''--no-pretty'', ''--no-save-state'']"

text \<open>\<open>json.Marshal\<close> writes valid UTF-8 only.\<close>

fun coerce_json :: "json \<Rightarrow> json" where
  "coerce_json (JStr s) = JStr (coerce_utf8 s)"
| "coerce_json (JArr xs) = JArr (map coerce_json xs)"
| "coerce_json (JObj ms) = JObj (map (\<lambda>(k, v). (coerce_utf8 k, coerce_json v)) ms)"
| "coerce_json v = v"

text \<open>The operations on one client process: making the pipe for its output, starting it with its
  arguments and its input, decoding the response from the pipe, waiting for its end; and closing
  the logger. A decoded response is the list of its members.\<close>

record 'w client_env =
  StdoutPipe :: "'w \<Rightarrow> err \<times> 'w"
  cmd_Start :: "string list \<Rightarrow> json option \<Rightarrow> 'w \<Rightarrow> err \<times> 'w"
  Decode_response :: "'w \<Rightarrow> (goerr + (string \<times> json) list) \<times> 'w"
  cmd_Wait :: "'w \<Rightarrow> err \<times> 'w"
  logger_Close :: "'w \<Rightarrow> err \<times> 'w"

text \<open>A key that occurs several times has its last value.\<close>

definition member :: "(string \<times> json) list \<Rightarrow> string \<Rightarrow> json option" where
  "member ms k = map_of (rev ms) k"

definition client_process :: "'w client_env \<Rightarrow> string list \<Rightarrow> json option \<Rightarrow> 'w \<Rightarrow> err \<times> 'w" where
  "client_process env args input w =
     (case StdoutPipe env w of
        (Some e, w1) \<Rightarrow> (Some e, w1)
      | (None, w1) \<Rightarrow>
          (case cmd_Start env args (map_option coerce_json input) w1 of
             (Some e, w2) \<Rightarrow> (Some e, w2)
           | (None, w2) \<Rightarrow>
               (case Decode_response env w2 of
                  (decoded, w3) \<Rightarrow>
                    (case cmd_Wait env w3 of
                       (Some e, w4) \<Rightarrow> (Some (ErrWrap ''client failed'' e), w4)
                     | (None, w4) \<Rightarrow>
                         (case decoded of
                            Inl e \<Rightarrow> (Some (ErrWrap ''decoding output failed'' e), w4)
                          | Inr response \<Rightarrow>
                              (case member response ''error'' of
                                 None \<Rightarrow> (None, w4)
                               | Some errmsg \<Rightarrow>
                                   if errmsg = JNull then (None, w4)
                                   else (Some (ErrWrap '''' ErrClientError), w4)))))))"

text \<open>\<open>runClient\<close>: the deferred function adds the error of closing the logger.\<close>

definition runClient :: "append_func \<Rightarrow> 'w client_env \<Rightarrow> string list \<Rightarrow> json option \<Rightarrow> 'w \<Rightarrow> err \<times> 'w" where
  "runClient app env args input w =
     (case client_process env args input w of
        (err, w1) \<Rightarrow> (case logger_Close env w1 of (closeErr, w2) \<Rightarrow> (app err closeErr, w2)))"

record CommandClient =
  client_Args :: "string list"

definition NewCommandClient :: "string list \<Rightarrow> CommandClient" where
  "NewCommandClient base = \<lparr>client_Args = defaultClientCommand base\<rparr>"

definition NewClient :: "Flags \<Rightarrow> CommandClient" where
  "NewClient f = NewCommandClient (Flags_Args f)"

definition client_run :: "append_func \<Rightarrow> 'w client_env \<Rightarrow> CommandClient \<Rightarrow> string list \<Rightarrow> json option \<Rightarrow> 'w \<Rightarrow> err \<times> 'w" where
  "client_run app env c args input w = runClient app env (client_Args c @ args) input w"

text \<open>An error is wrapped, success is not.\<close>

definition wrap_err :: "string \<Rightarrow> err \<times> 'w \<Rightarrow> err \<times> 'w" where
  "wrap_err msg r = (map_option (ErrWrap msg) (fst r), snd r)"

definition Ping :: "append_func \<Rightarrow> 'w client_env \<Rightarrow> CommandClient \<Rightarrow> 'w \<Rightarrow> err \<times> 'w" where
  "Ping app env c w = wrap_err ''getting watchman daemon version failed'' (client_run app env c [''version''] None w)"

definition WatchSet :: "append_func \<Rightarrow> 'w client_env \<Rightarrow> CommandClient \<Rightarrow> path \<Rightarrow> 'w \<Rightarrow> err \<times> 'w" where
  "WatchSet app env c root w = client_run app env c [''watch'', Clean root] None w"

definition Recrawl :: "append_func \<Rightarrow> 'w client_env \<Rightarrow> CommandClient \<Rightarrow> path \<Rightarrow> 'w \<Rightarrow> err \<times> 'w" where
  "Recrawl app env c root w = client_run app env c [''debug-recrawl'', Clean root] None w"

definition TriggerSet :: "append_func \<Rightarrow> 'w client_env \<Rightarrow> CommandClient \<Rightarrow> path \<Rightarrow> json \<Rightarrow> 'w \<Rightarrow> err \<times> 'w" where
  "TriggerSet app env c root descriptor w =
     wrap_err ''setting trigger failed''
       (client_run app env c [''trigger'', ''--json-command'']
          (Some (JArr [JStr ''trigger'', JStr (Clean root), descriptor])) w)"

definition TriggerDel :: "append_func \<Rightarrow> 'w client_env \<Rightarrow> CommandClient \<Rightarrow> path \<Rightarrow> string \<Rightarrow> 'w \<Rightarrow> err \<times> 'w" where
  "TriggerDel app env c root name w =
     wrap_err ''deleting trigger failed'' (client_run app env c [''trigger-del'', Clean root, name] None w)"

definition ShutdownServer :: "append_func \<Rightarrow> 'w client_env \<Rightarrow> CommandClient \<Rightarrow> 'w \<Rightarrow> err \<times> 'w" where
  "ShutdownServer app env c w = client_run app env c [''shutdown-server''] None w"

section \<open>When a request succeeds\<close>

lemma client_process_ok:
  "fst (client_process env args input w) = None \<longleftrightarrow>
     (\<exists>w1 w2 response w3 w4. StdoutPipe env w = (None, w1) \<and> cmd_Start env args (map_option coerce_json input) w1 = (None, w2) \<and>
        Decode_response env w2 = (Inr response, w3) \<and> cmd_Wait env w3 = (None, w4) \<and>
        (member response ''error'' = None \<or> member response ''error'' = Some JNull))"
  by (auto simp: client_process_def split: prod.splits option.splits sum.splits)

text \<open>
  A request to the daemon is reported as successful exactly if the client process was started
  and ended without error, its response was valid, the response has no error member other than
  null, and its log was written.
\<close>

theorem client_request_succeeds:
  assumes "multierr_law app"
  shows "fst (runClient app env args input w) = None \<longleftrightarrow>
    (\<exists>w1 w2 response w3 w4 w5. StdoutPipe env w = (None, w1) \<and> cmd_Start env args (map_option coerce_json input) w1 = (None, w2) \<and>
       Decode_response env w2 = (Inr response, w3) \<and> cmd_Wait env w3 = (None, w4) \<and> logger_Close env w4 = (None, w5) \<and>
       (member response ''error'' = None \<or> member response ''error'' = Some JNull))"
proof -
  have "fst (runClient app env args input w) = None \<longleftrightarrow>
      fst (client_process env args input w) = None \<and> fst (logger_Close env (snd (client_process env args input w))) = None"
    using multierr_law_None_iff [OF assms] by (simp add: runClient_def split: prod.split)
  also have "\<dots> \<longleftrightarrow> (\<exists>w1 w2 response w3 w4 w5. StdoutPipe env w = (None, w1) \<and> cmd_Start env args (map_option coerce_json input) w1 = (None, w2) \<and>
       Decode_response env w2 = (Inr response, w3) \<and> cmd_Wait env w3 = (None, w4) \<and> logger_Close env w4 = (None, w5) \<and>
       (member response ''error'' = None \<or> member response ''error'' = Some JNull))"
    by (auto simp: client_process_def prod_eq_iff split: prod.splits option.splits sum.splits)
  finally show ?thesis .
qed

text \<open>A client process that prints one response.\<close>

definition echo_env :: "(string \<times> json) list \<Rightarrow> nat client_env" where
  "echo_env response = \<lparr>StdoutPipe = (\<lambda>w. (None, w)), cmd_Start = (\<lambda>_ _ w. (None, w)),
     Decode_response = (\<lambda>w. (Inr response, w)), cmd_Wait = (\<lambda>w. (None, w)), logger_Close = (\<lambda>w. (None, w))\<rparr>"

theorem client_request_succeeds_witness:
  "fst (runClient join_errors (echo_env [(''version'', JStr ''2024'')]) [''watchman''] None 0) = None \<and>
   fst (runClient join_errors (echo_env [(''error'', JStr ''unable to resolve root'')]) [''watchman''] None 0) \<noteq> None"
  unfolding client_request_succeeds [OF multierr_law_join_errors]
  by (simp add: echo_env_def member_def)

end
