(* ===== verification/Trigger.thy ===== *)
theory Trigger
  imports Watchman Journal "HOL-Library.List_Lexorder" "HOL-Library.Char_ord"
begin

text \<open>
  \<open>internal/watchmantrigger\<close>: which files of a watched directory cause a report, and setting up and
  removing the triggers in the Watchman daemon. Watchman is a dependency: the locale
  \<open>watchman_query\<close> states what its documentation says of the terms a query expression is made of.
\<close>

section \<open>trigger.go\<close>

definition makeQueryExpression :: "Handler \<Rightarrow> path list \<Rightarrow> json list" where
  "makeQueryExpression h ignoreDirs =
     [JStr ''allof'', JArr [JStr ''exists''], JArr [JStr ''type'', JStr ''f'']] @
     (if \<not> Recursive h then [JArr [JStr ''dirname'', JStr '''', JArr [JStr ''depth'', JStr ''eq'', JNum ''0'']]] else []) @
     map (\<lambda>i. JArr [JStr ''not'', JArr [JStr ''dirname'', JStr i]]) ignoreDirs @
     (if \<not> IncludeHidden h then [JArr [JStr ''not'', JArr [JStr ''match'', JStr ''.*'', JStr ''basename'']]] else []) @
     (if MinSizeBytes h > 0 then [JArr [JStr ''size'', JStr ''ge'', JNum (Itoa (uint (MinSizeBytes h)))]] else []) @
     (if MaxSizeBytes h > 0 then [JArr [JStr ''size'', JStr ''le'', JNum (Itoa (uint (MaxSizeBytes h)))]] else [])"

record triggerConfig =
  configFilePath :: path
  configData :: "(string \<times> json) list"
  expression :: "json list"

text \<open>The loop that collects the directories inside the watched one.\<close>

fun collect_ignored :: "path \<Rightarrow> path list \<Rightarrow> goerr + path list" where
  "collect_ignored base [] = Inr []"
| "collect_ignored base (i # is) =
     (case Resolve base i of
        Inl e \<Rightarrow> Inl e
      | Inr r \<Rightarrow> map_sum id (\<lambda>ds. if Contained r then Relative r # ds else ds) (collect_ignored base is))"

definition configFileLocalScope :: string where
  "configFileLocalScope = ''.watchmanconfig''"

text \<open>A nil slice is \<open>null\<close> in JSON.\<close>

definition string_array :: "string list \<Rightarrow> json" where
  "string_array xs = (if xs = [] then JNull else JArr (map JStr xs))"

definition newTriggerConfig :: "Handler \<Rightarrow> goerr + triggerConfig" where
  "newTriggerConfig h =
     map_sum id (\<lambda>dirs.
         let ignoreDirs = sort dirs
         in \<lparr>configFilePath = Join [hPath h, configFileLocalScope],
             configData = [(''settle'', JNum (Itoa (sgn (SettleDuration h) * (\<bar>SettleDuration h\<bar> div 1000000)))),
               (''ignore_dirs'', string_array ignoreDirs), (''gc_age_seconds'', JNum ''3600''),
               (''gc_interval_seconds'', JNum ''3600''), (''idle_reap_age_seconds'', JNum ''60''),
               (''suppress_recrawl_warnings'', JBool True)],
             expression = makeQueryExpression h ignoreDirs\<rparr>)
       (collect_ignored (hPath h) [JournalDir h, SuccessDir h, FailureDir h])"

section \<open>group.go\<close>

text \<open>\<open>client\<close> has the operations of the \<open>watchman.Client\<close> interface; writing a file and changing its
  mode are operations of the system.\<close>

record 'w trigger_env =
  os_WriteFile :: "path \<Rightarrow> json \<Rightarrow> int \<Rightarrow> 'w \<Rightarrow> err \<times> 'w"
  os_Chmod :: "path \<Rightarrow> int \<Rightarrow> 'w \<Rightarrow> err \<times> 'w"
  c_WatchSet :: "path \<Rightarrow> 'w \<Rightarrow> err \<times> 'w"
  c_TriggerSet :: "path \<Rightarrow> json \<Rightarrow> 'w \<Rightarrow> err \<times> 'w"
  c_TriggerDel :: "path \<Rightarrow> string \<Rightarrow> 'w \<Rightarrow> err \<times> 'w"
  c_Recrawl :: "path \<Rightarrow> 'w \<Rightarrow> err \<times> 'w"
  gctx_Err :: "'w \<Rightarrow> err"

definition configFileLocalScopeMode :: int where
  "configFileLocalScopeMode = 384"

record triggerSetter =
  ts_command :: "string list"

definition newTriggerSetter :: "path \<times> err \<Rightarrow> path \<Rightarrow> goerr + triggerSetter" where
  "newTriggerSetter exe socketPath =
     (case exe of
        (_, Some e) \<Rightarrow> Inl e
      | (p, None) \<Rightarrow> Inr \<lparr>ts_command = [p, ''send-file-changes'', socketPath]\<rparr>)"

definition trigger_args :: "triggerSetter \<Rightarrow> Handler \<Rightarrow> triggerConfig \<Rightarrow> json" where
  "trigger_args s h tc =
     JObj [(''name'', JStr (hName h)), (''expression'', JArr (expression tc)),
           (''stdin'', JArr (map JStr FileChangeFields)), (''command'', JArr (map JStr (ts_command s)))]"

text \<open>Running operations until one fails.\<close>

fun first_error :: "('w \<Rightarrow> err \<times> 'w) list \<Rightarrow> 'w \<Rightarrow> err \<times> 'w" where
  "first_error [] w = (None, w)"
| "first_error (f # fs) w = (case f w of (Some e, w1) \<Rightarrow> (Some e, w1) | (None, w1) \<Rightarrow> first_error fs w1)"

definition setter_do :: "'w trigger_env \<Rightarrow> triggerSetter \<Rightarrow> Handler \<Rightarrow> 'w \<Rightarrow> err \<times> 'w" where
  "setter_do env s h w =
     (case newTriggerConfig h of
        Inl e \<Rightarrow> (Some e, w)
      | Inr tc \<Rightarrow>
          first_error
            [os_WriteFile env (configFilePath tc) (JObj (configData tc)) configFileLocalScopeMode,
             os_Chmod env (configFilePath tc) configFileLocalScopeMode,
             c_WatchSet env (hPath h),
             \<lambda>w. wrap_err ''trigger'' (c_TriggerSet env (hPath h) (trigger_args s h tc) w)] w)"

text \<open>
  \<open>errgroup.Group\<close>: the functions are run by goroutines of their own; the list has them in the order
  in which they finish, and each is one step here. The group's error is the first one.
\<close>

fun group_wait :: "('a \<Rightarrow> 's \<Rightarrow> err \<times> 's) \<Rightarrow> 'a list \<Rightarrow> err \<Rightarrow> 's \<Rightarrow> err \<times> 's" where
  "group_wait f [] err s = (err, s)"
| "group_wait f (x # xs) err s =
     (case f x s of (e, s1) \<Rightarrow> group_wait f xs (case err of None \<Rightarrow> e | Some _ \<Rightarrow> err) s1)"

text \<open>The state is the list of configured handlers and the world.\<close>

definition set_one :: "'w trigger_env \<Rightarrow> triggerSetter \<Rightarrow> Handler \<Rightarrow> Handler list \<times> 'w \<Rightarrow> err \<times> (Handler list \<times> 'w)" where
  "set_one env ts h s =
     (case setter_do env ts h (snd s) of
        (Some e, w1) \<Rightarrow> (Some e, fst s, w1)
      | (None, w1) \<Rightarrow> (None, fst s @ [h], w1))"

definition SetAll ::
  "'w trigger_env \<Rightarrow> path \<times> err \<Rightarrow> path \<Rightarrow> Handler list \<Rightarrow> Handler list \<times> 'w \<Rightarrow> err \<times> (Handler list \<times> 'w)" where
  "SetAll env exe socketPath order s =
     (case newTriggerSetter exe socketPath of
        Inl e \<Rightarrow> (Some e, s)
      | Inr ts \<Rightarrow> group_wait (set_one env ts) order None s)"

definition RecrawlAll :: "'w trigger_env \<Rightarrow> Handler list \<Rightarrow> 'w \<Rightarrow> err \<times> 'w" where
  "RecrawlAll env order w = group_wait (\<lambda>h. c_Recrawl env (hPath h)) order None w"

text \<open>A goroutine of \<open>DeleteAll\<close>: its error, and the errors collected from the daemon.\<close>

definition delete_one :: "'w trigger_env \<Rightarrow> Handler \<Rightarrow> goerr list \<times> 'w \<Rightarrow> err \<times> (goerr list \<times> 'w)" where
  "delete_one env h s =
     (case gctx_Err env (snd s) of
        Some e \<Rightarrow> (Some e, s)
      | None \<Rightarrow>
          (case c_TriggerDel env (hPath h) (hName h) (snd s) of
             (Some e, w1) \<Rightarrow> (None, fst s @ [e], w1)
           | (None, w1) \<Rightarrow> (None, fst s, w1)))"

definition DeleteAll :: "append_func \<Rightarrow> 'w trigger_env \<Rightarrow> Handler list \<Rightarrow> 'w \<Rightarrow> err \<times> 'w" where
  "DeleteAll app env order w =
     (case group_wait (delete_one env) order None ([], w) of
        (err, allErrors, w1) \<Rightarrow>
          (foldl (\<lambda>acc e. app acc (Some e)) None (allErrors @ (case err of None \<Rightarrow> [] | Some e \<Rightarrow> [e])), w1))"

section \<open>What a query expression selects\<close>

text \<open>A file as the daemon sees it; its path is relative to the watched directory.\<close>

record watched =
  w_exists :: bool
  w_regular :: bool
  w_elems :: "string list"
  w_size :: int

definition elems_of :: "path \<Rightarrow> string list" where
  "elems_of d = (if d = [] then [] else split_on slash d)"

definition in_dir :: "path \<Rightarrow> watched \<Rightarrow> bool" where
  "in_dir d f \<longleftrightarrow> prefix (elems_of d) (butlast (w_elems f))"

definition hidden :: "watched \<Rightarrow> bool" where
  "hidden f \<longleftrightarrow> last (w_elems f) \<noteq> [] \<and> hd (last (w_elems f)) = CHR ''.''"

locale watchman_query =
  fixes sat :: "json \<Rightarrow> watched \<Rightarrow> bool"
  assumes sat_allof: "sat (JArr (JStr ''allof'' # ts)) f \<longleftrightarrow> (\<forall>t \<in> set ts. sat t f)"
    and sat_not: "sat (JArr [JStr ''not'', t]) f \<longleftrightarrow> \<not> sat t f"
    and sat_exists: "sat (JArr [JStr ''exists'']) f \<longleftrightarrow> w_exists f"
    and sat_type: "sat (JArr [JStr ''type'', JStr ''f'']) f \<longleftrightarrow> w_regular f"
    and sat_dirname: "sat (JArr [JStr ''dirname'', JStr d]) f \<longleftrightarrow> in_dir d f"
    and sat_top: "sat (JArr [JStr ''dirname'', JStr '''', JArr [JStr ''depth'', JStr ''eq'', JNum ''0'']]) f \<longleftrightarrow> length (w_elems f) = 1"
    and sat_hidden: "sat (JArr [JStr ''match'', JStr ''.*'', JStr ''basename'']) f \<longleftrightarrow> hidden f"
    and sat_size_ge: "0 \<le> n \<Longrightarrow> n < 2 ^ 63 \<Longrightarrow> sat (JArr [JStr ''size'', JStr ''ge'', JNum (Itoa n)]) f \<longleftrightarrow> n \<le> w_size f"
    and sat_size_le: "0 \<le> n \<Longrightarrow> n < 2 ^ 63 \<Longrightarrow> sat (JArr [JStr ''size'', JStr ''le'', JNum (Itoa n)]) f \<longleftrightarrow> w_size f \<le> n"
begin

lemmas sat_terms = sat_allof sat_not sat_exists sat_type sat_dirname sat_top sat_hidden

end

text \<open>The files a handler is meant for.\<close>

definition wanted :: "Handler \<Rightarrow> path list \<Rightarrow> watched \<Rightarrow> bool" where
  "wanted h ignoreDirs f \<longleftrightarrow>
     w_exists f \<and> w_regular f \<and> (Recursive h \<or> length (w_elems f) = 1) \<and> (\<forall>d \<in> set ignoreDirs. \<not> in_dir d f) \<and>
     (IncludeHidden h \<or> \<not> hidden f) \<and> uint (MinSizeBytes h) \<le> w_size f \<and>
     (MaxSizeBytes h = 0 \<or> w_size f \<le> uint (MaxSizeBytes h))"

context watchman_query
begin

lemma expression_selects:
  assumes "0 \<le> w_size f" "uint (MinSizeBytes h) < 2 ^ 63" "uint (MaxSizeBytes h) < 2 ^ 63"
  shows "sat (JArr (makeQueryExpression h dirs)) f \<longleftrightarrow> wanted h dirs f"
proof -
  have z: "0 < n \<longleftrightarrow> n \<noteq> 0" "n = 0 \<Longrightarrow> uint n \<le> w_size f" for n :: "64 word"
    using assms(1) by (simp_all add: word_greater_zero_iff)
  note sz = sat_size_ge [OF _ assms(2)] sat_size_le [OF _ assms(3)]
  show ?thesis
    unfolding makeQueryExpression_def append.simps sat_allof wanted_def
    by (cases "Recursive h"; cases "IncludeHidden h"; cases "MinSizeBytes h = 0"; cases "MaxSizeBytes h = 0")
      (simp_all add: sat_terms sz z ball_Un assms(1) conj_ac)
qed

end

section \<open>The directories that are ignored\<close>

text \<open>A file of the watched directory inside the journal, success or failure directory, if that is
  a proper subdirectory.\<close>

definition in_archive :: "Handler \<Rightarrow> path \<Rightarrow> watched \<Rightarrow> bool" where
  "in_archive h d f \<longleftrightarrow>
     (\<exists>r. r \<noteq> [] \<and> comps (resolved_dir h d) = comps (hPath h) @ r \<and> prefix r (butlast (w_elems f)))"

lemma Resolve_ignored:
  assumes "IsAbs (hPath h)" "\<And>e. e \<in> set (w_elems f) \<Longrightarrow> normal e"
  shows "\<exists>r. Resolve (hPath h) d = Inr r \<and> (Contained r \<and> in_dir (Relative r) f \<longleftrightarrow> in_archive h d f)"
proof -
  obtain p where p: "p = (if IsAbs d then Clean d else Join [Clean (hPath h), d])" by simp
  then have p': "p = resolved_dir h d" by (simp add: resolved_dir_def)
  obtain b t where bt: "strip_common (comps (hPath h)) (comps p) = (b, t)"
    "Resolve (hPath h) d = Inr \<lparr>Path = p, BasePath = Clean (hPath h),
       Relative = (if p = Clean (hPath h) then ''.'' else join_with slash (replicate (length b) ''..'' @ t)),
       RelativeElems = (if p = Clean (hPath h) then [''.''] else replicate (length b) ''..'' @ t)\<rparr>"
    using Resolve_abs [OF assms(1) p] by blast
  obtain c where c: "comps (hPath h) = c @ b" "comps p = c @ t" "b = [] \<or> t = [] \<or> hd b \<noteq> hd t"
    using strip_common_spec [OF bt(1)] by blast
  have pc: "Clean p = p" "IsAbs p" using assms(1) IsAbs_Join_Clean [of "hPath h" d] by (auto simp: p)
  have nodots: "''..'' \<notin> set t" using comps_rooted [OF pc(2)] c by auto
  let ?r = "\<lparr>Path = p, BasePath = Clean (hPath h),
       Relative = (if p = Clean (hPath h) then ''.'' else join_with slash (replicate (length b) ''..'' @ t)),
       RelativeElems = (if p = Clean (hPath h) then [''.''] else replicate (length b) ''..'' @ t)\<rparr>"
  have "Contained ?r \<and> in_dir (Relative ?r) f \<longleftrightarrow> in_archive h d f"
  proof (cases "p = Clean (hPath h)")
    case True
    have "\<not> in_dir ''.'' f"
    proof
      assume "in_dir ''.'' f"
      then have "''.'' \<in> set (butlast (w_elems f))" by (auto simp: in_dir_def elems_of_def dest: set_mono_prefix)
      then show False using assms(2) [of "''.''"] in_set_butlastD by (force simp: normal_def)
    qed
    moreover have "\<not> in_archive h d f" using True by (auto simp: in_archive_def p' [symmetric])
    ultimately show ?thesis using True by simp
  next
    case False
    have ne: "comps (hPath h) \<noteq> comps p" using False pc assms(1) Clean_eq_iff [of p "hPath h"] by auto
    show ?thesis
    proof (cases "b = []")
      case True
      then have t: "t \<noteq> []" "comps p = comps (hPath h) @ t" using ne c by auto
      have "\<forall>e \<in> set t. slash \<notin> set e \<and> e \<noteq> []" using c(2) comps_ok_free [OF comps_ok_comps [of p]] by auto
      then have "elems_of (join_with slash t) = t" using t(1) split_join [of t slash] join_with_Nil_iff [of t slash]
        by (auto simp: elems_of_def)
      moreover have "Contained ?r" using False True t(1) nodots by (simp add: Contained_iff)
      ultimately show ?thesis using False True t by (auto simp: in_archive_def in_dir_def p' [symmetric])
    next
      case nb: False
      then have "\<not> Contained ?r" using False by (cases b) (simp_all add: Contained_iff)
      moreover have "\<not> in_archive h d f"
        using nb c(3) unfolding in_archive_def p' [symmetric] c(1,2) by (cases b; cases t) auto
      ultimately show ?thesis by simp
    qed
  qed
  then show ?thesis using bt(2) by blast
qed

lemma collect_ignored_spec:
  assumes "IsAbs (hPath h)" "\<And>e. e \<in> set (w_elems f) \<Longrightarrow> normal e"
  shows "\<exists>ds. collect_ignored (hPath h) is = Inr ds \<and> ((\<exists>d \<in> set ds. in_dir d f) \<longleftrightarrow> (\<exists>i \<in> set is. in_archive h i f))"
proof (induction "is")
  case (Cons i "is")
  then obtain ds where ds: "collect_ignored (hPath h) is = Inr ds"
      "(\<exists>d \<in> set ds. in_dir d f) \<longleftrightarrow> (\<exists>i \<in> set is. in_archive h i f)" by blast
  obtain r where r: "Resolve (hPath h) i = Inr r" "Contained r \<and> in_dir (Relative r) f \<longleftrightarrow> in_archive h i f"
    using Resolve_ignored [of h f i] assms by blast
  then show ?case using ds by (cases "Contained r") auto
qed simp

text \<open>The evaluation of the terms the program uses, in the way the daemon's documentation describes.\<close>

fun query_eval :: "json \<Rightarrow> watched \<Rightarrow> bool" where
  "query_eval (JArr (JStr term # args)) f =
     (if term = ''allof'' then (\<forall>t \<in> set args. query_eval t f)
      else if term = ''not'' then (case args of [t] \<Rightarrow> \<not> query_eval t f | _ \<Rightarrow> False)
      else if term = ''exists'' then w_exists f
      else if term = ''type'' then args = [JStr ''f''] \<and> w_regular f
      else if term = ''dirname'' then
        (case args of
           [JStr d] \<Rightarrow> in_dir d f
         | [JStr d, JArr [JStr ''depth'', JStr ''eq'', JNum n]] \<Rightarrow>
             in_dir d f \<and> ParseInt n = Some (int (length (w_elems f)) - 1 - int (length (elems_of d)))
         | _ \<Rightarrow> False)
      else if term = ''match'' then args = [JStr ''.*'', JStr ''basename''] \<and> hidden f
      else if term = ''size'' then
        (case args of
           [JStr op, JNum n] \<Rightarrow>
             (case ParseInt n of
                None \<Rightarrow> False
              | Some k \<Rightarrow> if op = ''ge'' then k \<le> w_size f else op = ''le'' \<and> w_size f \<le> k)
         | _ \<Rightarrow> False)
      else False)"
| "query_eval _ f = False"

declare query_eval.simps [simp del]

interpretation eval: watchman_query query_eval
proof
  show "query_eval (JArr (JStr ''allof'' # ts)) f \<longleftrightarrow> (\<forall>t \<in> set ts. query_eval t f)" for ts f
    by (subst query_eval.simps) simp
  show "query_eval (JArr [JStr ''not'', t]) f \<longleftrightarrow> \<not> query_eval t f" for t f
    by (subst query_eval.simps) simp
  show "query_eval (JArr [JStr ''exists'']) f \<longleftrightarrow> w_exists f" for f
    by (subst query_eval.simps) simp
  show "query_eval (JArr [JStr ''type'', JStr ''f'']) f \<longleftrightarrow> w_regular f" for f
    by (subst query_eval.simps) simp
  show "query_eval (JArr [JStr ''dirname'', JStr d]) f \<longleftrightarrow> in_dir d f" for d f
    by (subst query_eval.simps) simp
  have "ParseInt ''0'' = Some 0" by code_simp
  then show "query_eval (JArr [JStr ''dirname'', JStr [], JArr [JStr ''depth'', JStr ''eq'', JNum ''0'']]) f
      \<longleftrightarrow> length (w_elems f) = 1" for f
    by (subst query_eval.simps) (auto simp: in_dir_def elems_of_def)
  show "query_eval (JArr [JStr ''match'', JStr ''.*'', JStr ''basename'']) f \<longleftrightarrow> hidden f" for f
    by (subst query_eval.simps) simp
  show "query_eval (JArr [JStr ''size'', JStr ''ge'', JNum (Itoa n)]) f \<longleftrightarrow> n \<le> w_size f"
    if "0 \<le> n" "n < 2 ^ 63" for n f
    using that by (subst query_eval.simps) (simp add: ParseInt_Itoa)
  show "query_eval (JArr [JStr ''size'', JStr ''le'', JNum (Itoa n)]) f \<longleftrightarrow> w_size f \<le> n"
    if "0 \<le> n" "n < 2 ^ 63" for n f
    using that by (subst query_eval.simps) (simp add: ParseInt_Itoa)
qed

text \<open>
  C6. The query of a handler's trigger selects exactly the files the handler's configuration asks for:
  existing regular files, at the top level of the directory unless the handler is recursive, not
  hidden unless hidden files are included, within the size limits that are set, and outside the
  journal, success and failure directories. Setting up the query never fails for an absolute
  directory. \<open>sat\<close> is the evaluation of queries by the Watchman daemon, of which its documentation
  describes the terms used.
\<close>

theorem trigger_selects:
  assumes "watchman_query sat" "IsAbs (hPath h)" "\<And>e. e \<in> set (w_elems f) \<Longrightarrow> normal e" "0 \<le> w_size f"
    and "uint (MinSizeBytes h) < 2 ^ 63" "uint (MaxSizeBytes h) < 2 ^ 63"
  shows "\<exists>tc. newTriggerConfig h = Inr tc \<and>
    (sat (JArr (expression tc)) f \<longleftrightarrow>
       w_exists f \<and> w_regular f \<and> (Recursive h \<or> length (w_elems f) = 1) \<and> (IncludeHidden h \<or> \<not> hidden f) \<and>
       uint (MinSizeBytes h) \<le> w_size f \<and> (MaxSizeBytes h = 0 \<or> w_size f \<le> uint (MaxSizeBytes h)) \<and>
       (\<forall>d \<in> {JournalDir h, SuccessDir h, FailureDir h}. \<not> in_archive h d f))"
proof -
  obtain ds where ds: "collect_ignored (hPath h) [JournalDir h, SuccessDir h, FailureDir h] = Inr ds"
      "(\<exists>d \<in> set ds. in_dir d f) \<longleftrightarrow> (\<exists>i \<in> set [JournalDir h, SuccessDir h, FailureDir h]. in_archive h i f)"
    using collect_ignored_spec [of h f] assms(2,3) by blast
  have "sat (JArr (makeQueryExpression h (sort ds))) f \<longleftrightarrow> wanted h (sort ds) f"
    by (rule watchman_query.expression_selects [OF assms(1,4-6)])
  then show ?thesis using ds by (auto simp: newTriggerConfig_def Let_def wanted_def)
qed

theorem trigger_selects_witness:
  "\<exists>tc. newTriggerConfig sample_handler = Inr tc \<and>
     query_eval (JArr (expression tc)) \<lparr>w_exists = True, w_regular = True, w_elems = [''f''], w_size = 3\<rparr>"
proof -
  let ?f = "\<lparr>w_exists = True, w_regular = True, w_elems = [''f''], w_size = 3\<rparr>"
  have n: "e \<in> set (w_elems ?f) \<Longrightarrow> normal e" for e by (simp add: normal_def)
  have "IsAbs (hPath sample_handler)" "uint (MinSizeBytes sample_handler) = 0" "MaxSizeBytes sample_handler = 0"
    by code_simp+
  then show ?thesis
    using trigger_selects [OF eval.watchman_query_axioms, of sample_handler ?f] n
    by (auto simp: in_archive_def hidden_def)
qed

end
