(* ===== verification/ExePath.thy ===== *)
theory ExePath
  imports FilePath GoErrors
begin

text \<open>
  \<open>internal/exepath\<close>: the absolute path of the running program, found once and remembered. The
  operating system's answers are arguments: \<open>fn\<close> for \<open>os.Executable\<close> and \<open>getwd\<close> for the working
  directory that \<open>filepath.Abs\<close> consults.
\<close>

record exe_data =
  exe_path :: path
  exe_err :: err

definition resolve :: "append_func \<Rightarrow> goerr + path \<Rightarrow> path \<times> err \<Rightarrow> exe_data" where
  "resolve app getwd fn =
     (case fn of
        (p, Some e) \<Rightarrow> \<lparr>exe_path = p, exe_err = Some e\<rparr>
      | (p, None) \<Rightarrow>
          if IsAbs p then \<lparr>exe_path = Clean p, exe_err = None\<rparr>
          else case getwd of
                 Inr wd \<Rightarrow> \<lparr>exe_path = Abs wd p, exe_err = None\<rparr>
               | Inl e \<Rightarrow> \<lparr>exe_path = p, exe_err = app None (Some e)\<rparr>)"

text \<open>\<open>Get\<close> on the global state: \<open>None\<close> before the first call.\<close>

definition exe_Get :: "append_func \<Rightarrow> goerr + path \<Rightarrow> path \<times> err \<Rightarrow> exe_data option \<Rightarrow> (path \<times> err) \<times> exe_data option" where
  "exe_Get app getwd fn global =
     (let d = (case global of Some d \<Rightarrow> d | None \<Rightarrow> resolve app getwd fn)
      in ((exe_path d, exe_err d), Some d))"

definition MustGet :: "append_func \<Rightarrow> goerr + path \<Rightarrow> path \<times> err \<Rightarrow> exe_data option \<Rightarrow> path may_panic \<times> exe_data option" where
  "MustGet app getwd fn global =
     (case exe_Get app getwd fn global of
        ((p, None), global1) \<Rightarrow> (Inr p, global1)
      | ((p, Some e), global1) \<Rightarrow> (Inl (Panic ''executable unknown''), global1))"

text \<open>A path that is reported is absolute, and once found it never changes.\<close>

lemma exe_Get_absolute:
  assumes "multierr_law app" "exe_Get app getwd fn None = ((p, None), g)" "\<And>wd. getwd = Inr wd \<Longrightarrow> IsAbs wd"
  shows "IsAbs p"
proof (cases fn)
  case (Pair q e)
  have "IsAbs (Join [wd, q])" if "IsAbs wd" for wd
  proof -
    have "wd \<noteq> []" "hd wd = slash" using that by (auto simp: IsAbs_def)
    then show ?thesis by (simp add: Join_def comps_join(2)) (simp add: IsAbs_def)
  qed
  then show ?thesis
    using assms(2,3) Pair multierr_law_simps(1) [OF assms(1)]
    by (auto simp: exe_Get_def resolve_def Abs_def split: option.splits if_splits sum.splits)
qed

lemma exe_Get_stable:
  "exe_Get app getwd fn global = (r, g) \<Longrightarrow> exe_Get app' getwd' fn' g = (r, g)"
  by (auto simp: exe_Get_def Let_def)

end
