(* ===== verification/CmdUtil.thy ===== *)
theory CmdUtil
  imports ExePath UniqueName
begin

text \<open>
  \<open>internal/cmdutil\<close>: the exit status of a subcommand and its help text. A subcommand is an object
  with the methods of the interface \<open>subcommands.Command\<close> the package calls; \<open>cmd_flags\<close> are the names
  of the flags that its \<open>SetFlags\<close> defines.
\<close>

datatype ExitStatus = ExitSuccess | ExitFailure | ExitUsageError

text \<open>Besides the status: the error that was written.\<close>

definition executeStatus :: "err \<Rightarrow> ExitStatus \<times> err" where
  "executeStatus err = (if err \<noteq> None then (ExitFailure, err) else (ExitSuccess, None))"

record subcommand =
  cmd_Name :: string
  cmd_Synopsis :: string
  cmd_flags :: "string list"

definition newline :: string where
  "newline = [CHR 0x0A]"

definition TrimSpace :: "string \<Rightarrow> string" where
  "TrimSpace s = trim_right (trim_left s)"

fun usage_texts :: "(string \<Rightarrow> nat \<Rightarrow> string) \<Rightarrow> string list \<Rightarrow> string" where
  "usage_texts wrap [] = []"
| "usage_texts wrap (i # is) =
     (let text = TrimSpace i
      in (if text \<noteq> [] then newline @ wrap text 78 @ newline else []) @ usage_texts wrap is)"

text \<open>\<open>wrap\<close> is \<open>wordwrap.WrapString\<close> and \<open>exe\<close> the outcome of \<open>exepath.MustGet\<close>.\<close>

definition Usage :: "(string \<Rightarrow> nat \<Rightarrow> string) \<Rightarrow> path may_panic \<Rightarrow> subcommand \<Rightarrow> string \<Rightarrow> string \<Rightarrow> string may_panic" where
  "Usage wrap exe cmd args description =
     (let foundFlags = (cmd_flags cmd \<noteq> [])
      in map_sum id (\<lambda>p.
           ''Usage: '' @ Base p @ '' '' @ cmd_Name cmd @
           (if foundFlags then '' [flags]'' else []) @
           (if args \<noteq> [] then '' '' @ args else []) @ newline @
           usage_texts wrap [cmd_Synopsis cmd, description] @
           (if foundFlags then newline @ ''Flags:'' @ newline else [])) exe)"

lemma executeStatus_success: "fst (executeStatus err) = ExitSuccess \<longleftrightarrow> err = None"
  by (simp add: executeStatus_def)

end
