(* ===== verification/SendFileChanges.thy ===== *)
theory SendFileChanges
  imports WatchHandler CmdUtil
begin

text \<open>
  \<open>sendfilechanges\<close> and the remote procedure call of \<open>internal/service\<close>: Watchman runs
  \<open>send-file-changes\<close> with a JSON array of changes as its standard input, and the command passes them
  one by one to the server over a socket. The end-to-end property composes this with the router.
\<close>

section \<open>input.go\<close>

text \<open>Decoding into a slice: \<open>null\<close> gives a nil slice, and the first element that cannot be decoded
  ends the decoding.\<close>

fun decode_changes :: "json list \<Rightarrow> goerr + FileChange list" where
  "decode_changes [] = Inr []"
| "decode_changes (v # vs) =
     (case UnmarshalJSON v no_change of
        (Some e, _) \<Rightarrow> Inl e
      | (None, c) \<Rightarrow> map_sum id (\<lambda>cs. c # cs) (decode_changes vs))"

text \<open>The argument is the first value of the input, or the error of reading it.\<close>

definition readInput :: "goerr + json \<Rightarrow> goerr + FileChange list" where
  "readInput r =
     map_sum (ErrWrap ''reading input failed'') id
       (case r of
          Inl e \<Rightarrow> Inl e
        | Inr JNull \<Rightarrow> Inr []
        | Inr (JArr vs) \<Rightarrow> decode_changes vs
        | Inr _ \<Rightarrow> Inl ErrUnmarshalType)"

section \<open>command.go\<close>

record send_command =
  handlerName :: string
  root_dir :: path

text \<open>\<open>SetFlags\<close>: the defaults of the two flags, from the environment.\<close>

definition send_SetFlags :: "(string \<Rightarrow> string) \<Rightarrow> send_command" where
  "send_SetFlags getenv =
     (let defaultRoot = getenv ''WATCHMAN_ROOT''
      in \<lparr>handlerName = getenv ''WATCHMAN_TRIGGER'', root_dir = (if defaultRoot = [] then ''.'' else defaultRoot)\<rparr>)"

record ('k, 'w) rpc_env =
  rpc_Dial :: "path \<Rightarrow> 'w \<Rightarrow> (goerr + 'k) \<times> 'w"
  rpc_Call :: "'k \<Rightarrow> FileChangedRequest \<Rightarrow> 'w \<Rightarrow> err \<times> 'w"
  rpc_Close :: "'k \<Rightarrow> 'w \<Rightarrow> err \<times> 'w"

fun send_loop ::
  "('k, 'w) rpc_env \<Rightarrow> 'k \<Rightarrow> FileChangedRequest \<Rightarrow> FileChange list \<Rightarrow> 'w \<Rightarrow> err \<times> 'w" where
  "send_loop env svc req [] w = (None, w)"
| "send_loop env svc req (c # cs) w =
     (case rpc_Call env svc (req\<lparr>Change := c\<rparr>) w of
        (Some e, w1) \<Rightarrow> (Some e, w1)
      | (None, w1) \<Rightarrow> send_loop env svc req cs w1)"

definition ErrMissingHandler :: goerr where
  "ErrMissingHandler = ErrNew ''missing handler name''"

text \<open>
  \<open>service\<close> is a connection given by the caller. The error of closing a connection made here goes to
  a variable that is declared with \<open>client\<close> and hides the result, so it is dropped.
\<close>

definition send_execute ::
  "('k, 'w) rpc_env \<Rightarrow> goerr + path \<Rightarrow> goerr + json \<Rightarrow> 'k option \<Rightarrow> send_command \<Rightarrow> path \<Rightarrow> 'w \<Rightarrow> err \<times> 'w" where
  "send_execute env getwd inp service c socketPath w =
     (case (if IsAbs (root_dir c) then Inr (Clean (root_dir c)) else map_sum id (\<lambda>wd. Abs wd (root_dir c)) getwd) of
        Inl e \<Rightarrow> (Some e, w)
      | Inr dir \<Rightarrow>
          let req = \<lparr>HandlerName = handlerName c, RootDir = dir, Change = no_change\<rparr>
          in if HandlerName req = [] then (Some ErrMissingHandler, w)
             else
               case readInput inp of
                 Inl e \<Rightarrow> (Some (ErrWrap ''reading input failed'' e), w)
               | Inr changes \<Rightarrow>
                   if changes = [] then (None, w)
                   else
                     case service of
                       Some svc \<Rightarrow> send_loop env svc req changes w
                     | None \<Rightarrow>
                         (case rpc_Dial env socketPath w of
                            (Inl e, w1) \<Rightarrow> (Some e, w1)
                          | (Inr client, w1) \<Rightarrow>
                              (case send_loop env client req changes w1 of
                                 (err, w2) \<Rightarrow> (case rpc_Close env client w2 of (_, w3) \<Rightarrow> (err, w3)))))"

definition send_Execute ::
  "('k, 'w) rpc_env \<Rightarrow> goerr + path \<Rightarrow> goerr + json \<Rightarrow> 'k option \<Rightarrow> send_command \<Rightarrow> string list \<Rightarrow> 'w \<Rightarrow>
   (ExitStatus \<times> err) \<times> 'w" where
  "send_Execute env getwd inp service c args w =
     (if length args \<noteq> 1 then ((ExitUsageError, None), w)
      else case send_execute env getwd inp service c (args ! 0) w of (err, w1) \<Rightarrow> (executeStatus err, w1))"

section \<open>service.go\<close>

text \<open>The function the server registers calls the router; a panic would end the server.\<close>

definition service_FileChanged ::
  "append_func \<Rightarrow> 'w os \<Rightarrow> 'w reporter \<Rightarrow> FileChangedRequest \<Rightarrow> 'w router \<times> 'w \<Rightarrow> err \<times> 'w router \<times> 'w" where
  "service_FileChanged app os rep req s =
     (case FileChanged app os rep req (fst s) (snd s) of
        Inl _ \<Rightarrow> (Some (ErrNew ''connection is shut down''), s)
      | Inr (err, r1, w1) \<Rightarrow> (err, r1, w1))"

text \<open>
  What \<open>net/rpc\<close> promises: a call runs the registered function on the server with the request, and
  making or closing a connection does not.
\<close>

locale rpc_connection =
  fixes env :: "('k, 's) rpc_env" and serve :: "FileChangedRequest \<Rightarrow> 's \<Rightarrow> err \<times> 's"
  assumes call: "rpc_Call env k req s = serve req s"
    and dial: "snd (rpc_Dial env p s) = s"
    and close: "snd (rpc_Close env k s) = s"

section \<open>Sending changes to the router\<close>

text \<open>The first \<open>n\<close> changes were recorded: their files, and no others, have become pending.\<close>

definition recorded :: "string \<Rightarrow> FileChange list \<Rightarrow> 'w router \<Rightarrow> 'w router \<Rightarrow> bool" where
  "recorded name cs r r' \<longleftrightarrow>
     (cs \<noteq> [] \<longrightarrow> handlerByName r name \<noteq> None) \<and>
     (\<forall>n. n \<noteq> name \<longrightarrow> handlerByName r' n = handlerByName r n) \<and>
     (handlerByName r' name = None \<longleftrightarrow> handlerByName r name = None) \<and>
     (\<forall>h h'. handlerByName r name = Some h \<longrightarrow> handlerByName r' name = Some h' \<longrightarrow>
        dom (pending h') = dom (pending h) \<union> (\<lambda>c. Clean (c_Name c)) ` set cs)"

lemma recorded_Nil: "handlerByName r' = handlerByName r \<Longrightarrow> recorded name [] r r'"
  by (simp add: recorded_def)

lemma recorded_Cons:
  assumes "handlerByName r name = Some h" "handlerByName r1 = (handlerByName r)(name \<mapsto> h1)"
    "dom (pending h1) = insert (Clean (c_Name c)) (dom (pending h))" "recorded name cs r1 r'"
  shows "recorded name (c # cs) r r'"
  using assms by (auto simp: recorded_def)

lemma change_recorded_dom: "change_recorded n h ts h' ts' \<Longrightarrow> dom (pending h') = insert n (dom (pending h))"
  by (auto simp: change_recorded_def split: if_splits)

context rpc_connection
begin

lemma send_loop_serve:
  "send_loop env k req cs s =
     (case cs of [] \<Rightarrow> (None, s)
      | c # cs' \<Rightarrow> (case serve (req\<lparr>Change := c\<rparr>) s of (Some e, s1) \<Rightarrow> (Some e, s1) | (None, s1) \<Rightarrow> send_loop env k req cs' s1))"
  by (cases cs) (simp_all add: call)

end

lemma send_to_router:
  assumes "rpc_connection env (service_FileChanged app os rep)" "sched_wf (t_sched (r_tasks r))"
  shows "\<exists>n err r' w'. send_loop env k req cs (r, w) = (err, r', w') \<and> n \<le> length cs \<and>
    (err = None \<longleftrightarrow> n = length cs) \<and> recorded (HandlerName req) (take n cs) r r' \<and> sched_wf (t_sched (r_tasks r'))"
  using assms(2)
proof (induction cs arbitrary: r w)
  case Nil
  then show ?case by (simp add: recorded_Nil)
next
  case (Cons c cs)
  note loop = rpc_connection.send_loop_serve [OF assms(1), of k req "c # cs" "(r, w)", simplified]
  have sel: "HandlerName (req\<lparr>Change := c\<rparr>) = HandlerName req" "Change (req\<lparr>Change := c\<rparr>) = c" by simp_all
  obtain err r1 w1 where f: "FileChanged app os rep (req\<lparr>Change := c\<rparr>) r w = Inr (err, r1, w1)"
    "err \<noteq> None \<longrightarrow> handlerByName r1 = handlerByName r \<and> r_tasks r1 = r_tasks r"
    "err = None \<longrightarrow> (\<exists>h h'. handlerByName r (HandlerName req) = Some h \<and>
       handlerByName r1 = (handlerByName r)(HandlerName req \<mapsto> h') \<and>
       change_recorded (Clean (c_Name c)) h (r_tasks r) h' (r_tasks r1))" "sched_wf (t_sched (r_tasks r1))"
    using FileChanged_spec [OF Cons.prems, of app os rep "req\<lparr>Change := c\<rparr>" w, unfolded sel] by blast
  have s: "service_FileChanged app os rep (req\<lparr>Change := c\<rparr>) (r, w) = (err, r1, w1)"
    using f(1) by (simp add: service_FileChanged_def)
  show ?case
  proof (cases err)
    case None
    then obtain h h' where h: "handlerByName r (HandlerName req) = Some h"
       "handlerByName r1 = (handlerByName r)(HandlerName req \<mapsto> h')"
       "dom (pending h') = insert (Clean (c_Name c)) (dom (pending h))"
      using f(3) change_recorded_dom by blast
    obtain n err' r' w' where ih: "send_loop env k req cs (r1, w1) = (err', r', w')" "n \<le> length cs"
      "err' = None \<longleftrightarrow> n = length cs" "recorded (HandlerName req) (take n cs) r1 r'" "sched_wf (t_sched (r_tasks r'))"
      using Cons.IH [OF f(4)] by blast
    then show ?thesis using loop s None recorded_Cons [OF h ih(4)]
      by (intro exI [of _ "Suc n"] exI [of _ err'] exI [of _ r'] exI [of _ w']) simp
  next
    case (Some e)
    then show ?thesis using loop s f(2,4)
      by (intro exI [of _ 0] exI [of _ "Some e"] exI [of _ r1] exI [of _ w1]) (simp add: recorded_Nil)
  qed
qed

text \<open>Changes as Watchman is asked to write them are read back.\<close>

lemma readInput_written:
  assumes "\<And>c. c \<in> set cs \<Longrightarrow> UnmarshalJSON (f c) no_change = (None, c)"
  shows "readInput (Inr (JArr (map f cs))) = Inr cs"
proof -
  have "decode_changes (map f cs) = Inr cs" using assms by (induction cs) auto
  then show ?thesis by (simp add: readInput_def)
qed

text \<open>A run of the command, with every outcome of its parts.\<close>

lemma send_execute_spec:
  assumes "rpc_connection env (service_FileChanged app os rep)" "sched_wf (t_sched (r_tasks r))"
    "IsAbs (root_dir c) \<or> getwd = Inr wd" "handlerName c \<noteq> []" "readInput inp = Inr changes"
  shows "\<exists>n err r' w'. send_execute env getwd inp svc c socketPath (r, w) = (err, r', w') \<and> n \<le> length changes \<and>
    recorded (handlerName c) (take n changes) r r' \<and>
    (svc = None \<longrightarrow> changes \<noteq> [] \<longrightarrow> (\<forall>e. fst (rpc_Dial env socketPath (r, w)) = Inl e \<longrightarrow> err = Some e \<and> n = 0)) \<and>
    (svc \<noteq> None \<or> changes = [] \<or> (\<exists>k. fst (rpc_Dial env socketPath (r, w)) = Inr k) \<longrightarrow>
       (err = None \<longleftrightarrow> n = length changes))"
proof -
  obtain dir where dir: "(if IsAbs (root_dir c) then Inr (Clean (root_dir c)) else map_sum id (\<lambda>wd. Abs wd (root_dir c)) getwd) =
      (Inr dir :: goerr + path)"
    using assms(3) by (cases "IsAbs (root_dir c)") auto
  let ?req = "\<lparr>HandlerName = handlerName c, RootDir = dir, Change = no_change\<rparr>"
  obtain d s where d: "rpc_Dial env socketPath (r, w) = (d, s)"
    by (cases "rpc_Dial env socketPath (r, w)")
  have s: "s = (r, w)" using rpc_connection.dial [OF assms(1), of socketPath "(r, w)"] d by simp
  have loop: "\<exists>n err r' w'. send_loop env k ?req changes (r, w) = (err, r', w') \<and> n \<le> length changes \<and>
      (err = None \<longleftrightarrow> n = length changes) \<and> recorded (handlerName c) (take n changes) r r'" for k
    using send_to_router [OF assms(1,2), of k ?req changes w] by auto
  have closed: "(case rpc_Close env k x of (_, w3) \<Rightarrow> (err, w3)) = (err :: err, x)" for k x err
    using rpc_connection.close [OF assms(1), of k x] by (auto split: prod.splits)
  note run = send_execute_def [of env getwd inp svc c socketPath "(r, w)", unfolded dir] assms(4,5)
  show ?thesis
  proof (cases "changes = []")
    case True
    then show ?thesis using run by (simp add: recorded_Nil)
  next
    case ne: False
    show ?thesis
    proof (cases svc)
      case (Some k)
      then show ?thesis using run ne loop [of k] by auto
    next
      case None
      show ?thesis
      proof (cases d)
        case (Inl e)
        then show ?thesis using run ne None d s by (simp add: recorded_Nil)
      next
        case (Inr k)
        then show ?thesis using run ne None d s loop [of k] by (auto simp: closed)
      qed
    qed
  qed
qed


definition direct_rpc :: "(FileChangedRequest \<Rightarrow> 's \<Rightarrow> err \<times> 's) \<Rightarrow> (unit, 's) rpc_env" where
  "direct_rpc serve =
     \<lparr>rpc_Dial = \<lambda>p s. (Inr (), s), rpc_Call = \<lambda>k. serve, rpc_Close = \<lambda>k s. (Some (ErrNo (EOTHER 5)), s)\<rparr>"

interpretation direct: rpc_connection "direct_rpc (service_FileChanged app os rep)" "service_FileChanged app os rep"
  by unfold_locales (simp_all add: direct_rpc_def)


end
