(* ===== verification/UnixServer.thy ===== *)
theory UnixServer
  imports FilePath GoErrors
begin

text \<open>
  \<open>internal/unixserver\<close>: a listener on a Unix socket with a goroutine that accepts connections. The
  methods are critical sections on the state of the server; the functions of \<open>net\<close> are arguments.
\<close>

section \<open>Definitions\<close>

text \<open>\<open>quit\<close> is \<open>None\<close> while the channel is nil, afterwards it says whether the channel was closed.\<close>

record 'l Server =
  Address :: path
  listener :: "'l option"
  quit :: "bool option"

definition ErrStarted :: goerr where
  "ErrStarted = ErrNew ''server already started''"

definition server_Listen ::
  "(path \<Rightarrow> 'w \<Rightarrow> (goerr + 'l) \<times> 'w) \<Rightarrow> 'l Server \<Rightarrow> 'w \<Rightarrow> err \<times> 'l Server \<times> 'w" where
  "server_Listen net_Listen s w =
     (if listener s \<noteq> None then (Some ErrStarted, s, w)
      else
        let s1 = (case quit s of None \<Rightarrow> s\<lparr>quit := Some False\<rparr> | Some _ \<Rightarrow> s)
        in case net_Listen (Address s) w of
             (Inl e, w1) \<Rightarrow> (Some (ErrNew ''unable to listen''), s1, w1)
           | (Inr l, w1) \<Rightarrow> (None, s1\<lparr>listener := Some l\<rparr>, w1))"

text \<open>
  The goroutine: \<open>accepted\<close> are the results of \<open>Accept\<close> in their order, each with whether the
  channel was closed at that time. The connections passed to \<open>ServeConn\<close> and, when the loop has ended,
  the error that is returned.
\<close>

fun server_serve :: "(bool \<times> (goerr + 'c)) list \<Rightarrow> 'c list \<times> err option" where
  "server_serve [] = ([], None)"
| "server_serve ((closed, Inl e) # rest) = ([], Some (if closed then None else Some (ErrWrap ''listener accept failed'' e)))"
| "server_serve ((closed, Inr conn) # rest) = (case server_serve rest of (conns, res) \<Rightarrow> (conn # conns, res))"

definition server_Close :: "('l \<Rightarrow> 'w \<Rightarrow> err \<times> 'w) \<Rightarrow> 'l Server \<Rightarrow> 'w \<Rightarrow> err \<times> 'l Server \<times> 'w" where
  "server_Close l_Close s w =
     (case quit s of
        None \<Rightarrow> (None, s, w)
      | Some True \<Rightarrow> (None, s, w)
      | Some False \<Rightarrow>
          (case listener s of
             None \<Rightarrow> (None, s\<lparr>quit := Some True\<rparr>, w)
           | Some l \<Rightarrow> (case l_Close l w of (e, w1) \<Rightarrow> (e, s\<lparr>quit := Some True\<rparr>, w1))))"

definition new_Server :: "path \<Rightarrow> 'l Server" where
  "new_Server p = \<lparr>Address = p, listener = None, quit = None\<rparr>"

section \<open>internal/service\<close>

text \<open>\<open>RegisterName\<close> is the error of registering the functions of the service on a new \<open>rpc.Server\<close>.\<close>

definition newService :: "(string \<Rightarrow> err) \<Rightarrow> goerr + string" where
  "newService RegisterName = (case RegisterName ''Service'' of Some e \<Rightarrow> Inl e | None \<Rightarrow> Inr ''Service'')"

definition service_ListenAndServe ::
  "(string \<Rightarrow> err) \<Rightarrow> (path \<Rightarrow> 'w \<Rightarrow> (goerr + 'l) \<times> 'w) \<Rightarrow> path \<Rightarrow> 'w \<Rightarrow> (goerr + 'l Server) \<times> 'w" where
  "service_ListenAndServe RegisterName net_Listen address w =
     (case newService RegisterName of
        Inl e \<Rightarrow> (Inl e, w)
      | Inr _ \<Rightarrow>
          (case server_Listen net_Listen (new_Server address) w of
             (Some e, _, w1) \<Rightarrow> (Inl e, w1)
           | (None, server, w1) \<Rightarrow> (Inr server, w1)))"

section \<open>Starting and closing\<close>

datatype server_op = OpListen | OpClose

text \<open>A run of operations; the world is the list of the listeners that are open, the results of
  \<open>net.Listen\<close> are given in advance.\<close>

definition offer :: "(goerr + 'l) list \<Rightarrow> path \<Rightarrow> 'l list \<Rightarrow> (goerr + 'l) \<times> 'l list" where
  "offer rs p opened =
     (case rs of
        Inr l # _ \<Rightarrow> (Inr l, l # opened)
      | Inl e # _ \<Rightarrow> (Inl e, opened)
      | [] \<Rightarrow> (Inl (ErrNo EINVAL), opened))"

definition forget :: "'l \<Rightarrow> 'l list \<Rightarrow> err \<times> 'l list" where
  "forget l opened = (None, remove1 l opened)"

fun server_run :: "server_op list \<Rightarrow> (goerr + 'l) list \<Rightarrow> 'l Server \<times> 'l list \<Rightarrow> 'l Server \<times> 'l list" where
  "server_run [] rs (s, opened) = (s, opened)"
| "server_run (OpListen # ops) rs (s, opened) =
     (case server_Listen (offer rs) s opened of
        (_, s1, opened1) \<Rightarrow> server_run ops (if listener s = None then tl rs else rs) (s1, opened1))"
| "server_run (OpClose # ops) rs (s, opened) =
     (case server_Close forget s opened of (_, s1, opened1) \<Rightarrow> server_run ops rs (s1, opened1))"

text \<open>At most one listener is open, it is the server's own, and \<open>Close\<close> closes it unless the server had
  been closed before it was listening.\<close>

definition server_inv :: "'l Server \<times> 'l list \<Rightarrow> bool" where
  "server_inv p = (case p of (s, opened) \<Rightarrow>
     (listener s = None \<longrightarrow> opened = []) \<and> (\<forall>l. listener s = Some l \<longrightarrow> opened = [] \<or> opened = [l]) \<and>
     (listener s \<noteq> None \<longrightarrow> quit s \<noteq> None) \<and> (quit s = Some False \<longrightarrow> length opened = (if listener s = None then 0 else 1)))"

lemma server_Listen_inv:
  assumes "server_inv (s, opened)" "server_Listen (offer rs) s opened = (e, s1, opened1)"
  shows "server_inv (s1, opened1)"
proof (cases "listener s")
  case None
  obtain res o1 where o: "offer rs (Address s) opened = (res, o1)" by fastforce
  have "opened = []" using assms(1) None by (simp add: server_inv_def)
  then have "o1 = (case res of Inl _ \<Rightarrow> [] | Inr l \<Rightarrow> [l])"
    using o by (auto simp: offer_def split: list.splits sum.splits)
  then show ?thesis using assms None o
    by (cases res; cases "quit s") (auto simp: server_Listen_def server_inv_def)
qed (use assms in \<open>simp add: server_Listen_def\<close>)

lemma server_Close_inv:
  assumes "server_inv (s, opened)" "server_Close forget s opened = (e, s1, opened1)"
  shows "server_inv (s1, opened1)"
  using assms
  by (cases "quit s"; cases "listener s")
    (auto simp: server_Close_def server_inv_def forget_def split: bool.splits)

lemma server_run_inv: "server_inv p \<Longrightarrow> server_inv (server_run ops rs p)"
proof (induction ops rs p rule: server_run.induct)
  case (2 ops rs s opened)
  obtain e s1 o1 where l: "server_Listen (offer rs) s opened = (e, s1, o1)" using prod_cases3 by blast
  show ?case using 2 server_Listen_inv [OF 2(2) l] l by simp
next
  case (3 ops rs s opened)
  obtain e s1 o1 where l: "server_Close forget s opened = (e, s1, o1)" using prod_cases3 by blast
  show ?case using 3 server_Close_inv [OF 3(2) l] l by simp
qed simp

lemma server_closed:
  assumes "server_inv (s, opened)" "quit s = Some False" "server_Close forget s opened = (e, s1, opened1)"
  shows "e = None \<and> opened1 = [] \<and> quit s1 = Some True"
  using assms by (auto simp: server_Close_def server_inv_def forget_def split: option.splits)

text \<open>
  A server that could not listen, was closed and listens then never closes its listener: the
  channel is closed already, so \<open>Close\<close> does nothing.
\<close>

lemma listener_can_leak:
  "server_run [OpListen, OpClose, OpListen, OpClose] [Inl (ErrNo EACCES), Inr (7 :: nat)] (new_Server p, []) =
     (\<lparr>Address = p, listener = Some 7, quit = Some True\<rparr>, [7])"
  by (simp add: new_Server_def server_Listen_def server_Close_def offer_def)

end
