(* ===== verification/SignalWait.thy ===== *)
theory SignalWait
  imports GoErrors Strconv
begin

text \<open>
  \<open>internal/signalwait\<close>: signals are buffered from \<open>Setup\<close> on, so that one that arrives before the
  program waits is not lost. A signal has a name and a number. \<open>os/signal\<close> delivers a signal to a
  registered channel unless its buffer is full; the buffer here has room for one.
\<close>

definition ErrSignal :: goerr where
  "ErrSignal = ErrNew ''received signal''"

record signal =
  sig_name :: string
  sig_num :: int

record waiter =
  ch :: "signal option"
  active_closed :: bool
  registered :: "signal list"

definition signal_setup :: "signal list \<Rightarrow> waiter" where
  "signal_setup signals = \<lparr>ch = None, active_closed = False, registered = signals\<rparr>"

definition signal_stop :: "waiter \<Rightarrow> waiter" where
  "signal_stop w = w\<lparr>registered := [], active_closed := True\<rparr>"

definition signal_error :: "signal \<Rightarrow> goerr" where
  "signal_error sig =
     (let suf = (if sig_num sig \<noteq> 0 then '' (number '' @ Itoa (sig_num sig) @ '')'' else [])
      in ErrWrap (sig_name sig @ suf) ErrSignal)"

text \<open>What \<open>wait\<close> may do: one of the cases of its \<open>select\<close> that are ready, \<open>ctxErr\<close> being the error of
  the context. With none ready it waits.\<close>

definition signal_wait :: "waiter \<Rightarrow> err \<Rightarrow> (err \<times> waiter) list" where
  "signal_wait w ctxErr =
     (if active_closed w then [(None, w)] else []) @
     (case ch w of None \<Rightarrow> [] | Some sig \<Rightarrow> [(Some (signal_error sig), w\<lparr>ch := None\<rparr>)]) @
     (case ctxErr of None \<Rightarrow> [] | Some e \<Rightarrow> [(Some e, w)])"

text \<open>The arrival of a signal.\<close>

definition deliver :: "signal \<Rightarrow> waiter \<Rightarrow> waiter" where
  "deliver sig w = (if sig \<in> set (registered w) \<and> ch w = None then w\<lparr>ch := Some sig\<rparr> else w)"

lemma deliver_keeps:
  "active_closed (fold deliver sigs w) = active_closed w" "registered (fold deliver sigs w) = registered w"
  by (induction sigs arbitrary: w) (simp_all add: deliver_def)

lemma deliver_ch: "ch (fold deliver sigs w) = (case ch w of Some s \<Rightarrow> Some s | None \<Rightarrow> List.find (\<lambda>s. s \<in> set (registered w)) sigs)"
  by (induction sigs arbitrary: w) (auto simp: deliver_def split: option.splits)

text \<open>A signal that arrives between \<open>Setup\<close> and \<open>wait\<close> makes \<open>wait\<close> return an error that wraps
  \<open>ErrSignal\<close>, whatever other signals arrive; after \<open>stop\<close> nothing waits forever.\<close>

lemma signal_not_lost:
  assumes "sig \<in> set signals" "sig \<in> set arrived"
  shows "\<exists>e w. signal_wait (fold deliver arrived (signal_setup signals)) None = [(Some e, w)] \<and> errors_Is e ErrSignal"
proof -
  have "\<exists>s. List.find (\<lambda>s. s \<in> set signals) arrived = Some s"
    using assms by (metis find_None_iff not_None_eq)
  then obtain s where "ch (fold deliver arrived (signal_setup signals)) = Some s"
    by (auto simp: deliver_ch signal_setup_def)
  then show ?thesis
    by (simp add: signal_wait_def deliver_keeps) (simp add: signal_setup_def signal_error_def ErrSignal_def)
qed

lemma stopped_wait_returns: "signal_wait (signal_stop w) ctxErr \<noteq> []"
  by (simp add: signal_wait_def signal_stop_def)

end
