(* ===== verification/CleanupGroup.thy ===== *)
theory CleanupGroup
  imports GoErrors
begin

text \<open>
  \<open>internal/cleanupgroup\<close>: functions to call at the end, the last one first. A function gets the
  context and the world.
\<close>

type_synonym ('c, 'w) CleanupGroup = "('c \<Rightarrow> 'w \<Rightarrow> err \<times> 'w) list"

definition cleanup_Append :: "('c \<Rightarrow> 'w \<Rightarrow> err \<times> 'w) \<Rightarrow> ('c, 'w) CleanupGroup \<Rightarrow> ('c, 'w) CleanupGroup" where
  "cleanup_Append f c = c @ [f]"

text \<open>The loop: the functions with an index below \<open>n\<close> are left.\<close>

fun cleanup_loop :: "append_func \<Rightarrow> ('c, 'w) CleanupGroup \<Rightarrow> 'c \<Rightarrow> nat \<Rightarrow> err \<Rightarrow> 'w \<Rightarrow> err \<times> 'w" where
  "cleanup_loop app c ctx 0 allErrors w = (allErrors, w)"
| "cleanup_loop app c ctx (Suc i) allErrors w =
     (case (c ! i) ctx w of (e, w1) \<Rightarrow> cleanup_loop app c ctx i (app allErrors e) w1)"

definition cleanup_Call :: "append_func \<Rightarrow> ('c, 'w) CleanupGroup \<Rightarrow> 'c \<Rightarrow> 'w \<Rightarrow> err \<times> 'w" where
  "cleanup_Call app c ctx w = cleanup_loop app c ctx (length c) None w"

text \<open>\<open>withTimeout\<close> makes a context that is done after the given time.\<close>

definition CallWithTimeout ::
  "append_func \<Rightarrow> (duration \<Rightarrow> 'c) \<Rightarrow> duration \<Rightarrow> ('c, 'w) CleanupGroup \<Rightarrow> 'w \<Rightarrow> err \<times> 'w" where
  "CallWithTimeout app withTimeout timeout c w = cleanup_Call app c (withTimeout timeout) w"

section \<open>Every function is called once, the last one first\<close>

text \<open>The reference: run the operations of a list, collecting all errors.\<close>

fun run_all :: "append_func \<Rightarrow> ('w \<Rightarrow> err \<times> 'w) list \<Rightarrow> err \<Rightarrow> 'w \<Rightarrow> err \<times> 'w" where
  "run_all app [] err w = (err, w)"
| "run_all app (f # fs) err w = (case f w of (e, w1) \<Rightarrow> run_all app fs (app err e) w1)"

lemma cleanup_loop_run:
  "n \<le> length c \<Longrightarrow> cleanup_loop app c ctx n err w = run_all app (rev (map (\<lambda>f. f ctx) (take n c))) err w"
  by (induction n arbitrary: err w) (simp_all add: take_Suc_conv_app_nth split: prod.split)

lemma cleanup_Call_run: "cleanup_Call app c ctx w = run_all app (rev (map (\<lambda>f. f ctx) c)) None w"
  by (simp add: cleanup_Call_def cleanup_loop_run)

text \<open>The state does not depend on the errors, and no error is lost.\<close>

lemma run_all_state: "snd (run_all app fs e w) = snd (run_all app' fs e' w)"
  by (induction fs arbitrary: e e' w) (auto split: prod.split)

lemma run_all_append:
  "run_all app (fs @ gs) e w = (case run_all app fs e w of (e1, w1) \<Rightarrow> run_all app gs e1 w1)"
  by (induction fs arbitrary: e w) (auto split: prod.split)

lemma run_all_None_iff:
  "multierr_law app \<Longrightarrow> fst (run_all app fs e w) = None \<longleftrightarrow> e = None \<and> fst (run_all app fs None w) = None"
proof (induction fs arbitrary: e w)
  case (Cons f fs)
  obtain e1 w1 where f: "f w = (e1, w1)" by fastforce
  show ?case using Cons.IH [OF Cons.prems, of "app e e1" w1] Cons.IH [OF Cons.prems, of e1 w1] Cons.prems
    by (auto simp: f multierr_law_None_iff multierr_law_simps)
qed simp

end
