(* ===== verification/WatchCommand.thy ===== *)
theory WatchCommand
  imports Trigger SendFileChanges UnixServer SignalWait CleanupGroup
begin

text \<open>
  \<open>watch/command.go\<close>: the subcommand \<open>watch\<close>. It acquires one resource after the other, waits for a
  signal and releases everything again; deferred calls and a cleanup group do the latter. The
  operations it calls are the record \<open>watch_ops\<close>, on a state of any type: what other goroutines do
  meanwhile is part of an operation. The definition \<open>component_ops\<close> fills the record with the models
  of the components.
\<close>

section \<open>wait.go\<close>

text \<open>\<open>cenkalti/backoff\<close> is a dependency: \<open>retryFn\<close> is \<open>backoff.RetryNotifyWithTimer\<close>.\<close>

record ExponentialBackOff =
  RandomizationFactor :: rat
  MaxInterval :: duration
  MaxElapsedTime :: duration

text \<open>The retried function counts its errors: the fourth is written to the log.\<close>

definition ping_once :: "('w \<Rightarrow> err \<times> 'w) \<Rightarrow> nat \<times> 'w \<Rightarrow> err \<times> nat \<times> 'w" where
  "ping_once ping s =
     (case ping (snd s) of
        (Some e, w1) \<Rightarrow> (Some e, Suc (fst s), w1)
      | (None, w1) \<Rightarrow> (None, fst s, w1))"

definition waitForReady ::
  "(ExponentialBackOff \<Rightarrow> (nat \<times> 'w \<Rightarrow> err \<times> nat \<times> 'w) \<Rightarrow> nat \<times> 'w \<Rightarrow> err \<times> nat \<times> 'w) \<Rightarrow> ('w \<Rightarrow> err \<times> 'w) \<Rightarrow> ExponentialBackOff \<Rightarrow> 'w \<Rightarrow> err \<times> 'w" where
  "waitForReady retryFn ping b w = (case retryFn b (ping_once ping) (0, w) of (err, _, w1) \<Rightarrow> (err, w1))"

definition WaitForReady ::
  "(ExponentialBackOff \<Rightarrow> (nat \<times> 'w \<Rightarrow> err \<times> nat \<times> 'w) \<Rightarrow> nat \<times> 'w \<Rightarrow> err \<times> nat \<times> 'w) \<Rightarrow> ('w \<Rightarrow> err \<times> 'w) \<Rightarrow> 'w \<Rightarrow> err \<times> 'w" where
  "WaitForReady retryFn ping w =
     waitForReady retryFn ping \<lparr>RandomizationFactor = 1/10, MaxInterval = 1000000000, MaxElapsedTime = 0\<rparr> w"

section \<open>The operations\<close>

record ('c, 's) watch_ops =
  op_Load :: "'s \<Rightarrow> (goerr + Root) \<times> 's"
  op_Marshal :: "Root \<Rightarrow> 's \<Rightarrow> err \<times> 's"
  op_WaitForReady :: "'s \<Rightarrow> err \<times> 's"
  op_Setup :: "'s \<Rightarrow> 's"
  op_stopSignalWait :: "'s \<Rightarrow> 's"
  op_MkdirTemp :: "path \<Rightarrow> 's \<Rightarrow> (goerr + path) \<times> 's"
  op_RemoveAll :: "path \<Rightarrow> 's \<Rightarrow> err \<times> 's"
  op_start :: "Handler list \<Rightarrow> int \<Rightarrow> 's \<Rightarrow> 's"
  op_stop :: "'c \<Rightarrow> 's \<Rightarrow> err \<times> 's"
  op_Listen :: "string \<Rightarrow> 's \<Rightarrow> err \<times> 's"
  op_Shutdown :: "'c \<Rightarrow> 's \<Rightarrow> err \<times> 's"
  op_served :: "'c \<Rightarrow> 's \<Rightarrow> err \<times> 's"
  op_ListenAndServe :: "path \<Rightarrow> 's \<Rightarrow> err \<times> 's"
  op_Close :: "'s \<Rightarrow> err \<times> 's"
  op_SetAll :: "path \<Rightarrow> Handler list \<Rightarrow> 's \<Rightarrow> err \<times> 's"
  op_RecrawlAll :: "'s \<Rightarrow> err \<times> 's"
  op_DeleteAll :: "'c \<Rightarrow> 's \<Rightarrow> err \<times> 's"
  op_startPruning :: "duration \<Rightarrow> 's \<Rightarrow> 's"
  op_waitForSignal :: "'s \<Rightarrow> err \<times> 's"

section \<open>command.go\<close>

definition logConfig :: "('c, 's) watch_ops \<Rightarrow> Root \<Rightarrow> 's \<Rightarrow> err \<times> 's" where
  "logConfig ops c s = op_Marshal ops c s"

definition removeTempDir :: "('c, 's) watch_ops \<Rightarrow> path \<Rightarrow> 's \<Rightarrow> err \<times> 's" where
  "removeTempDir ops tmpdir s =
     (case op_RemoveAll ops tmpdir s of
        (Some e, s1) \<Rightarrow> (if os_IsNotExist e then None else Some (ErrWrap ''removing temporary directory failed'' e), s1)
      | (None, s1) \<Rightarrow> (None, s1))"

definition createTempDir :: "('c, 's) watch_ops \<Rightarrow> path \<Rightarrow> 's \<Rightarrow> (goerr + path \<times> ('s \<Rightarrow> err \<times> 's)) \<times> 's" where
  "createTempDir ops parentDir s =
     (case op_MkdirTemp ops parentDir s of
        (Inl e, s1) \<Rightarrow> (Inl e, s1)
      | (Inr tmpdir, s1) \<Rightarrow> (Inr (tmpdir, removeTempDir ops tmpdir), s1))"

text \<open>The function that \<open>serveMetrics\<close> returns; \<open>op_served\<close> waits until the goroutine of the HTTP server
  has ended or the context is done.\<close>

definition stopMetrics :: "('c, 's) watch_ops \<Rightarrow> 'c \<Rightarrow> 's \<Rightarrow> err \<times> 's" where
  "stopMetrics ops ctx s =
     (case op_Shutdown ops ctx s of
        (Some e, s1) \<Rightarrow> (Some e, s1)
      | (None, s1) \<Rightarrow> op_served ops ctx s1)"

definition listenAndServeMetrics :: "('c, 's) watch_ops \<Rightarrow> string \<Rightarrow> 's \<Rightarrow> (goerr + ('c \<Rightarrow> 's \<Rightarrow> err \<times> 's)) \<times> 's" where
  "listenAndServeMetrics ops addr s =
     (case op_Listen ops addr s of
        (Some e, s1) \<Rightarrow> (Inl e, s1)
      | (None, s1) \<Rightarrow> (Inr (stopMetrics ops), s1))"

record watch_command =
  runtimeParentDir :: path
  slotCount :: "64 word"
  w_pruneInterval :: duration
  shutdownTimeout :: duration
  metricsAddress :: string

definition watch_SetFlags :: "path \<Rightarrow> watch_command" where
  "watch_SetFlags tempDir =
     \<lparr>runtimeParentDir = tempDir, slotCount = 1, w_pruneInterval = hour, shutdownTimeout = minute, metricsAddress = []\<rparr>"

text \<open>\<open>ExecuteWithClient\<close> from the inside out: with the socket open; with the temporary directory, giving
  also the cleanup group; and as a whole.\<close>

definition watch_socket :: "('c, 's) watch_ops \<Rightarrow> watch_command \<Rightarrow> path \<Rightarrow> Root \<Rightarrow> 's \<Rightarrow> err \<times> 's" where
  "watch_socket ops c socketPath conf s =
     (case op_SetAll ops socketPath (Handlers conf) s of
        (Some e, s1) \<Rightarrow> (Some e, s1)
      | (None, s1) \<Rightarrow>
          (case op_RecrawlAll ops s1 of
             (Some e, s2) \<Rightarrow> (Some e, s2)
           | (None, s2) \<Rightarrow>
               (case op_waitForSignal ops (op_startPruning ops (w_pruneInterval c) s2) of (_, s3) \<Rightarrow> (None, s3))))"

definition watch_serve ::
  "append_func \<Rightarrow> ('c, 's) watch_ops \<Rightarrow> watch_command \<Rightarrow> path \<Rightarrow> Root \<Rightarrow> ('c, 's) CleanupGroup \<Rightarrow> 's \<Rightarrow>
   (err \<times> ('c, 's) CleanupGroup) \<times> 's" where
  "watch_serve app ops c tmpdir conf cleanup s =
     (let socketPath = Join [tmpdir, ''server.socket''];
          cleanup1 = cleanup_Append (op_DeleteAll ops) cleanup
      in case op_ListenAndServe ops socketPath s of
           (Some e, s1) \<Rightarrow> ((Some e, cleanup1), s1)
         | (None, s1) \<Rightarrow>
             (case watch_socket ops c socketPath conf s1 of
                (err, s2) \<Rightarrow> (case op_Close ops s2 of (e, s3) \<Rightarrow> ((app err e, cleanup1), s3))))"

definition watch_router ::
  "append_func \<Rightarrow> ('c, 's) watch_ops \<Rightarrow> watch_command \<Rightarrow> path \<Rightarrow> Root \<Rightarrow> 's \<Rightarrow> (err \<times> ('c, 's) CleanupGroup) \<times> 's" where
  "watch_router app ops c tmpdir conf s =
     (let s1 = op_start ops (Handlers conf) (sint (slotCount c)) s;
          cleanup = cleanup_Append (op_stop ops) []
      in if metricsAddress c \<noteq> [] then
           (case listenAndServeMetrics ops (metricsAddress c) s1 of
              (Inl e, s2) \<Rightarrow> ((Some e, cleanup), s2)
            | (Inr stop, s2) \<Rightarrow> watch_serve app ops c tmpdir conf (cleanup_Append stop cleanup) s2)
         else watch_serve app ops c tmpdir conf cleanup s1)"

definition ExecuteWithClient ::
  "append_func \<Rightarrow> (duration \<Rightarrow> 'c) \<Rightarrow> ('c, 's) watch_ops \<Rightarrow> watch_command \<Rightarrow> 's \<Rightarrow> err \<times> 's" where
  "ExecuteWithClient app withTimeout ops c s =
     (case op_Load ops s of
        (Inl e, s1) \<Rightarrow> (Some e, s1)
      | (Inr conf, s1) \<Rightarrow>
          (case logConfig ops conf s1 of
             (Some e, s2) \<Rightarrow> (Some e, s2)
           | (None, s2) \<Rightarrow>
               (case op_WaitForReady ops s2 of
                  (Some e, s3) \<Rightarrow> (Some e, s3)
                | (None, s3) \<Rightarrow>
                    (case createTempDir ops (runtimeParentDir c) (op_Setup ops s3) of
                       (Inl e, s4) \<Rightarrow> (Some e, op_stopSignalWait ops s4)
                     | (Inr (tmpdir, remove), s4) \<Rightarrow>
                         (case watch_router app ops c tmpdir conf s4 of
                            ((err, cleanup), s5) \<Rightarrow>
                              (case CallWithTimeout app withTimeout (shutdownTimeout c) cleanup s5 of
                                 (e1, s6) \<Rightarrow>
                                   (case remove s6 of
                                      (e2, s7) \<Rightarrow> (app (app err e1) e2, op_stopSignalWait ops s7))))))))"

definition watch_Execute ::
  "append_func \<Rightarrow> (duration \<Rightarrow> 'c) \<Rightarrow> ('c, 's) watch_ops \<Rightarrow> watch_command \<Rightarrow> string list \<Rightarrow> 's \<Rightarrow> (ExitStatus \<times> err) \<times> 's" where
  "watch_Execute app withTimeout ops c args s =
     (if length args > 0 then ((ExitUsageError, None), s)
      else case ExecuteWithClient app withTimeout ops c s of (err, s1) \<Rightarrow> (executeStatus err, s1))"

section \<open>Acquiring and releasing in order\<close>

text \<open>
  The specification: stages, each of which fails or gives a function that releases what it acquired.
  When a stage fails or the innermost work is done, the releases are run, the latest first.
\<close>

type_synonym 's stage = "'s \<Rightarrow> (goerr + ('s \<Rightarrow> err \<times> 's)) \<times> 's"

fun bracket :: "append_func \<Rightarrow> 's stage list \<Rightarrow> ('s \<Rightarrow> err \<times> 's) \<Rightarrow> 's \<Rightarrow> err \<times> 's" where
  "bracket app [] work s = work s"
| "bracket app (st # sts) work s =
     (case st s of
        (Inl e, s1) \<Rightarrow> (Some e, s1)
      | (Inr release, s1) \<Rightarrow>
          (case bracket app sts work s1 of (err, s2) \<Rightarrow> (case release s2 of (e, s3) \<Rightarrow> (app err e, s3))))"

definition no_error :: "('s \<Rightarrow> 's) \<Rightarrow> 's \<Rightarrow> err \<times> 's" where
  "no_error f s = (None, f s)"

text \<open>The stages after the configuration was read and Watchman is ready; \<open>ctx\<close> is the context of the
  shutdown.\<close>

definition socket_stages :: "('c, 's) watch_ops \<Rightarrow> 'c \<Rightarrow> path \<Rightarrow> 's stage list" where
  "socket_stages ops ctx tmpdir =
     [\<lambda>s. (Inr (op_DeleteAll ops ctx), s),
      \<lambda>s. (case op_ListenAndServe ops (Join [tmpdir, ''server.socket'']) s of
             (Some e, s1) \<Rightarrow> (Inl e, s1) | (None, s1) \<Rightarrow> (Inr (op_Close ops), s1))]"

definition stages :: "('c, 's) watch_ops \<Rightarrow> 'c \<Rightarrow> watch_command \<Rightarrow> path \<Rightarrow> Root \<Rightarrow> 's stage list" where
  "stages ops ctx c tmpdir conf =
     [\<lambda>s. (Inr (op_stop ops ctx), op_start ops (Handlers conf) (sint (slotCount c)) s)] @
     (if metricsAddress c \<noteq> [] then
        [\<lambda>s. map_prod (map_sum id (\<lambda>stop. stop ctx)) id (listenAndServeMetrics ops (metricsAddress c) s)]
      else []) @
     socket_stages ops ctx tmpdir"

definition watch_spec :: "append_func \<Rightarrow> ('c, 's) watch_ops \<Rightarrow> 'c \<Rightarrow> watch_command \<Rightarrow> Root \<Rightarrow> 's \<Rightarrow> err \<times> 's" where
  "watch_spec app ops ctx c conf s =
     bracket app [\<lambda>s. (Inr (no_error (op_stopSignalWait ops)), op_Setup ops s)]
       (\<lambda>s. case op_MkdirTemp ops (runtimeParentDir c) s of
              (Inl e, s1) \<Rightarrow> (Some e, s1)
            | (Inr tmpdir, s1) \<Rightarrow>
                bracket app ((\<lambda>s. (Inr (removeTempDir ops tmpdir), s)) # stages ops ctx c tmpdir conf)
                  (watch_socket ops c (Join [tmpdir, ''server.socket'']) conf) s1) s"

text \<open>Two outcomes that differ at most in how errors are combined.\<close>

definition agree :: "err \<times> 's \<Rightarrow> err \<times> 's \<Rightarrow> bool" where
  "agree x y \<longleftrightarrow> snd x = snd y \<and> (fst x = None \<longleftrightarrow> fst y = None)"

text \<open>Running the cleanup functions \<open>cl\<close> after an outcome.\<close>

definition after :: "append_func \<Rightarrow> ('c, 's) CleanupGroup \<Rightarrow> 'c \<Rightarrow> err \<times> 's \<Rightarrow> err \<times> 's" where
  "after app cl ctx x = (case cleanup_Call app cl ctx (snd x) of (e, s) \<Rightarrow> (app (fst x) e, s))"

lemma after_snoc:
  assumes "multierr_law app"
  shows "agree (after app (cl @ [f]) ctx x) (after app cl ctx (case f ctx (snd x) of (e, s) \<Rightarrow> (app (fst x) e, s)))"
proof -
  obtain e s where f: "f ctx (snd x) = (e, s)" by (cases "f ctx (snd x)")
  obtain e1 s1 where r: "run_all app (rev (map (\<lambda>f. f ctx) cl)) None s = (e1, s1)" by fastforce
  have "fst (run_all app (rev (map (\<lambda>f. f ctx) cl)) e s) = None \<longleftrightarrow> e = None \<and> e1 = None"
    using run_all_None_iff [OF assms, of "rev (map (\<lambda>f. f ctx) cl)" e s] r by simp
  moreover have "snd (run_all app (rev (map (\<lambda>f. f ctx) cl)) e s) = s1"
    using run_all_state [of app _ e s app None] r by simp
  ultimately show ?thesis
    by (cases "run_all app (rev (map (\<lambda>f. f ctx) cl)) e s")
      (auto simp: agree_def after_def cleanup_Call_run f r multierr_law_simps(1) [OF assms] multierr_law_None_iff [OF assms])
qed

lemma agree_after: "multierr_law app \<Longrightarrow> agree x y \<Longrightarrow> agree (after app cl ctx x) (after app cl ctx y)"
  by (auto simp: agree_def after_def multierr_law_None_iff split: prod.split)

lemma agree_trans: "agree x y \<Longrightarrow> agree y z \<Longrightarrow> agree x z"
  by (simp add: agree_def)

lemma agree_refl [simp]: "agree x x"
  by (simp add: agree_def)

text \<open>The stages that a step of the source pushes onto the cleanup group, one at a time.\<close>

lemma bracket_release:
  assumes "multierr_law app" "st s = (Inr (f ctx), s1)"
  shows "agree (after app cl ctx (bracket app (st # sts) work s)) (after app (cl @ [f]) ctx (bracket app sts work s1))"
  using after_snoc [OF assms(1), of cl f ctx "bracket app sts work s1"] assms(2)
  by (auto simp: agree_def split: prod.splits)

lemma after_Nil: "multierr_law app \<Longrightarrow> after app [] ctx x = x"
  by (simp add: after_def cleanup_Call_run multierr_law_simps)

lemma watch_serve_bracket:
  assumes "multierr_law app" "watch_serve app ops c tmpdir conf cl s = ((err, cl1), s1)"
  shows "agree (after app cl1 ctx (err, s1))
    (after app cl ctx (bracket app (socket_stages ops ctx tmpdir) (watch_socket ops c (Join [tmpdir, ''server.socket'']) conf) s))"
proof -
  have cl1: "cl1 = cl @ [op_DeleteAll ops]"
    using assms(2) by (auto simp: watch_serve_def cleanup_Append_def Let_def split: prod.splits option.splits)
  have "bracket app (socket_stages ops ctx tmpdir) (watch_socket ops c (Join [tmpdir, ''server.socket'']) conf) s =
      (case op_DeleteAll ops ctx s1 of (e, s2) \<Rightarrow> (app err e, s2))"
    using assms(2) by (auto simp: socket_stages_def watch_serve_def Let_def split: prod.splits option.splits)
  then show ?thesis using after_snoc [OF assms(1), of cl "op_DeleteAll ops" ctx "(err, s1)"] by (simp add: cl1)
qed

lemma watch_router_bracket:
  assumes "multierr_law app" "watch_router app ops c tmpdir conf s = ((err, cl), s1)"
  shows "agree (after app cl ctx (err, s1))
    (bracket app (stages ops ctx c tmpdir conf) (watch_socket ops c (Join [tmpdir, ''server.socket'']) conf) s)"
    (is "agree ?l (bracket app _ ?work s)")
proof -
  let ?s = "op_start ops (Handlers conf) (sint (slotCount c)) s" and ?sock = "socket_stages ops ctx tmpdir"
  let ?st = "\<lambda>s. (Inr (op_stop ops ctx), op_start ops (Handlers conf) (sint (slotCount c)) s)"
  have start: "agree (after app [op_stop ops] ctx (bracket app sts ?work ?s)) (bracket app (?st # sts) ?work s)" for sts
    using bracket_release [OF assms(1), of ?st s "op_stop ops" ctx ?s "[]" sts ?work]
    by (simp add: after_Nil [OF assms(1)] agree_def)
  show ?thesis
  proof (cases "metricsAddress c = []")
    case True
    then have "watch_serve app ops c tmpdir conf [op_stop ops] ?s = ((err, cl), s1)"
      using assms(2) by (simp add: watch_router_def cleanup_Append_def Let_def)
    then have "agree ?l (after app [op_stop ops] ctx (bracket app ?sock ?work ?s))"
      by (rule watch_serve_bracket [OF assms(1)])
    then show ?thesis using agree_trans [OF _ start [of ?sock]] True by (simp add: stages_def)
  next
    case False
    let ?m = "\<lambda>s. map_prod (map_sum id (\<lambda>stop. stop ctx)) id (listenAndServeMetrics ops (metricsAddress c) s)"
    have st: "stages ops ctx c tmpdir conf = ?st # ?m # ?sock" using False by (simp add: stages_def)
    obtain r s2 where l: "listenAndServeMetrics ops (metricsAddress c) ?s = (r, s2)" by fastforce
    show ?thesis
    proof (cases r)
      case (Inl e)
      then have "cl = [op_stop ops]" "err = Some e" "s1 = s2"
        using assms(2) False l by (simp_all add: watch_router_def cleanup_Append_def Let_def)
      moreover have "bracket app (?m # ?sock) ?work ?s = (Some e, s2)" using l Inl by simp
      ultimately show ?thesis using start [of "?m # ?sock"] unfolding st by simp
    next
      case (Inr stop)
      then have "watch_serve app ops c tmpdir conf [op_stop ops, stop] s2 = ((err, cl), s1)"
        using assms(2) False l by (simp add: watch_router_def cleanup_Append_def Let_def)
      then have "agree ?l (after app [op_stop ops, stop] ctx (bracket app ?sock ?work s2))"
        by (rule watch_serve_bracket [OF assms(1)])
      moreover have "agree (after app [op_stop ops] ctx (bracket app (?m # ?sock) ?work ?s))
          (after app [op_stop ops, stop] ctx (bracket app ?sock ?work s2))"
        using bracket_release [OF assms(1), of ?m ?s stop ctx s2 "[op_stop ops]" ?sock ?work] l Inr by simp
      ultimately show ?thesis using start [of "?m # ?sock"] unfolding st agree_def by simp
    qed
  qed
qed

lemma ExecuteWithClient_agree:
  assumes "multierr_law app" "op_Load ops s = (Inr conf, s1)" "logConfig ops conf s1 = (None, s2)"
    "op_WaitForReady ops s2 = (None, s3)"
  shows "agree (ExecuteWithClient app withTimeout ops c s) (watch_spec app ops (withTimeout (shutdownTimeout c)) c conf s3)"
proof -
  let ?ctx = "withTimeout (shutdownTimeout c)"
  obtain t s4 where t: "op_MkdirTemp ops (runtimeParentDir c) (op_Setup ops s3) = (t, s4)" by fastforce
  show ?thesis
  proof (cases t)
    case (Inl e)
    then show ?thesis using assms t multierr_law_simps(2) [OF assms(1)]
      by (simp add: ExecuteWithClient_def watch_spec_def createTempDir_def no_error_def agree_def)
  next
    case (Inr tmpdir)
    obtain err cl s5 where r: "watch_router app ops c tmpdir conf s4 = ((err, cl), s5)" by (metis prod.exhaust)
    obtain e1 s6 where a: "cleanup_Call app cl ?ctx s5 = (e1, s6)" by fastforce
    obtain e2 s7 where rm: "removeTempDir ops tmpdir s6 = (e2, s7)" by fastforce
    obtain e3 s6' where b: "bracket app (stages ops ?ctx c tmpdir conf)
        (watch_socket ops c (Join [tmpdir, ''server.socket'']) conf) s4 = (e3, s6')" by fastforce
    have "s6' = s6" "app err e1 = None \<longleftrightarrow> e3 = None"
      using watch_router_bracket [OF assms(1) r, of ?ctx] a b by (auto simp: agree_def after_def)
    moreover have "ExecuteWithClient app withTimeout ops c s = (app (app err e1) e2, op_stopSignalWait ops s7)"
      using assms(2-4) t Inr r a rm by (simp add: ExecuteWithClient_def createTempDir_def CallWithTimeout_def)
    ultimately show ?thesis using t Inr b rm multierr_law_None_iff [OF assms(1)] multierr_law_simps(2) [OF assms(1)]
      by (simp add: watch_spec_def no_error_def agree_def)
  qed
qed

section \<open>Properties\<close>

text \<open>
  C8. \<open>watch\<close> releases what it acquired, in the reverse order, wherever it stops. Whatever the called
  operations do, the command ends in the state that its specification gives: every stage that was
  completed is undone once, and a stage that failed ends the setup. The deferred calls and the
  cleanup group together do this. An error is reported exactly if a step or a release had one.
\<close>

theorem watch_releases_in_order:
  assumes "multierr_law app" "op_Load ops s = (Inr conf, s1)" "logConfig ops conf s1 = (None, s2)"
    "op_WaitForReady ops s2 = (None, s3)"
  shows "snd (ExecuteWithClient app withTimeout ops c s) = snd (watch_spec app ops (withTimeout (shutdownTimeout c)) c conf s3) \<and>
    (fst (ExecuteWithClient app withTimeout ops c s) = None \<longleftrightarrow>
     fst (watch_spec app ops (withTimeout (shutdownTimeout c)) c conf s3) = None)"
  using ExecuteWithClient_agree [OF assms] by (simp add: agree_def)

text \<open>Operations that write down their names; setting up the triggers fails.\<close>

definition trace :: "string \<Rightarrow> 'a \<Rightarrow> string list \<Rightarrow> 'a \<times> string list" where
  "trace name a s = (a, s @ [name])"

definition trace_ops :: "(unit, string list) watch_ops" where
  "trace_ops =
     \<lparr>op_Load = \<lambda>s. (Inr \<lparr>Handlers = []\<rparr>, s), op_Marshal = \<lambda>c s. (None, s), op_WaitForReady = \<lambda>s. (None, s),
      op_Setup = \<lambda>s. s @ [''signals''], op_stopSignalWait = \<lambda>s. s @ [''-signals''],
      op_MkdirTemp = \<lambda>p. trace ''dir'' (Inr p), op_RemoveAll = \<lambda>p. trace ''-dir'' (Some (ErrNo ENOENT)),
      op_start = \<lambda>hs n s. s @ [''router''], op_stop = \<lambda>c. trace ''-router'' None,
      op_Listen = \<lambda>a. trace ''metrics'' None, op_Shutdown = \<lambda>c. trace ''-metrics'' None, op_served = \<lambda>c s. (None, s),
      op_ListenAndServe = \<lambda>p. trace ''socket'' None, op_Close = trace ''-socket'' None,
      op_SetAll = \<lambda>p hs. trace ''triggers'' (Some (ErrNo EINVAL)), op_RecrawlAll = trace ''recrawl'' None,
      op_DeleteAll = \<lambda>c. trace ''-triggers'' None, op_startPruning = \<lambda>d s. s @ [''prune''],
      op_waitForSignal = trace ''wait'' None\<rparr>"

theorem watch_releases_in_order_witness:
  "snd (ExecuteWithClient join_errors (\<lambda>_. ()) trace_ops (watch_SetFlags ''/tmp''\<lparr>metricsAddress := '':80''\<rparr>) []) =
     [''signals'', ''dir'', ''router'', ''metrics'', ''socket'', ''triggers'',
      ''-socket'', ''-triggers'', ''-metrics'', ''-router'', ''-dir'', ''-signals''] \<and>
   fst (ExecuteWithClient join_errors (\<lambda>_. ()) trace_ops (watch_SetFlags ''/tmp''\<lparr>metricsAddress := '':80''\<rparr>) []) \<noteq> None"
proof -
  let ?c = "watch_SetFlags ''/tmp''\<lparr>metricsAddress := '':80''\<rparr>" and ?conf = "\<lparr>Handlers = []\<rparr>"
  have l: "op_Load trace_ops [] = (Inr ?conf, [])" "logConfig trace_ops ?conf [] = (None, [])"
    "op_WaitForReady trace_ops [] = (None, [])"
    by (simp_all add: trace_ops_def logConfig_def)
  have "snd (watch_spec join_errors trace_ops () ?c ?conf []) =
      [''signals'', ''dir'', ''router'', ''metrics'', ''socket'', ''triggers'',
       ''-socket'', ''-triggers'', ''-metrics'', ''-router'', ''-dir'', ''-signals'']"
    "fst (watch_spec join_errors trace_ops () ?c ?conf []) = Some (ErrNo EINVAL)"
    by code_simp+
  then show ?thesis
    using watch_releases_in_order [OF multierr_law_join_errors l, of "\<lambda>_. ()" ?c] by simp
qed

end
