(* ===== verification/WatchComponents.thy ===== *)
theory WatchComponents
  imports WatchCommand
begin

text \<open>
  The operations that \<open>watch/command.go\<close> calls, filled with the models of the components, and what the
  composition does with the triggers in the Watchman daemon.
\<close>

section \<open>The composition\<close>

record 'w watch_state =
  wst_router :: "'w router option"
  wst_configured :: "Handler list"
  wst_server :: "nat Server option"
  wst_waiter :: "waiter option"
  wst_world :: 'w

text \<open>
  What the components need of the outside. \<open>we_order\<close> is the order in which the goroutines of an
  error group finish; stopping the router and waiting for a signal act on the whole state, since other
  goroutines run meanwhile (the theory \<open>SchedulerSystem\<close> has the steps of stopping).
\<close>

record ('c, 'd, 'w) watch_env =
  we_Open :: "path \<Rightarrow> goerr + 'd"
  we_decoder :: "('d, Root) decoder"
  we_configPath :: path
  we_encoder :: "(string, Root) encoder"
  we_retry :: "ExponentialBackOff \<Rightarrow> (nat \<times> 'w \<Rightarrow> err \<times> nat \<times> 'w) \<Rightarrow> nat \<times> 'w \<Rightarrow> err \<times> nat \<times> 'w"
  we_Ping :: "'w \<Rightarrow> err \<times> 'w"
  we_signals :: "signal list"
  we_MkdirTemp :: "path \<Rightarrow> 'w \<Rightarrow> (goerr + path) \<times> 'w"
  we_RemoveAll :: "path \<Rightarrow> 'w \<Rightarrow> err \<times> 'w"
  we_newRouter :: "Handler list \<Rightarrow> 'w router"
  we_Listen :: "string \<Rightarrow> 'w \<Rightarrow> err \<times> 'w"
  we_Shutdown :: "'c \<Rightarrow> 'w \<Rightarrow> err \<times> 'w"
  we_served :: "'c \<Rightarrow> 'w \<Rightarrow> err \<times> 'w"
  we_RegisterName :: "string \<Rightarrow> err"
  we_net_Listen :: "path \<Rightarrow> 'w \<Rightarrow> (goerr + nat) \<times> 'w"
  we_l_Close :: "nat \<Rightarrow> 'w \<Rightarrow> err \<times> 'w"
  we_exe :: "path \<times> err"
  we_order :: "Handler list \<Rightarrow> Handler list"
  we_trigger :: "'w trigger_env"
  we_prune :: "duration \<times> rat \<times> gotime"
  we_stop :: "'c \<Rightarrow> 'w watch_state \<Rightarrow> err \<times> 'w watch_state"
  we_wait :: "'w watch_state \<Rightarrow> err \<times> 'w watch_state"

text \<open>An operation of the outside on the state, and one that also changes the list of configured
  handlers.\<close>

definition outside :: "('w \<Rightarrow> 'a \<times> 'w) \<Rightarrow> 'w watch_state \<Rightarrow> 'a \<times> 'w watch_state" where
  "outside f s = (case f (wst_world s) of (a, w1) \<Rightarrow> (a, s\<lparr>wst_world := w1\<rparr>))"

definition with_group :: "(Handler list \<times> 'w \<Rightarrow> 'a \<times> Handler list \<times> 'w) \<Rightarrow> 'w watch_state \<Rightarrow> 'a \<times> 'w watch_state" where
  "with_group f s = (case f (wst_configured s, wst_world s) of (a, hs, w1) \<Rightarrow> (a, s\<lparr>wst_configured := hs, wst_world := w1\<rparr>))"

text \<open>\<open>start\<close> of a new router and \<open>startPruning\<close> of a running one do not panic.\<close>

definition with_router :: "('w router \<Rightarrow> 'w router may_panic) \<Rightarrow> 'w watch_state \<Rightarrow> 'w watch_state" where
  "with_router f s =
     (case wst_router s of
        None \<Rightarrow> s
      | Some r \<Rightarrow> (case f r of Inl _ \<Rightarrow> s | Inr r1 \<Rightarrow> s\<lparr>wst_router := Some r1\<rparr>))"

definition with_server :: "(nat Server \<Rightarrow> 'w \<Rightarrow> err \<times> nat Server \<times> 'w) \<Rightarrow> 'w watch_state \<Rightarrow> err \<times> 'w watch_state" where
  "with_server f s =
     (case wst_server s of
        None \<Rightarrow> (None, s)
      | Some srv \<Rightarrow> (case f srv (wst_world s) of (e, srv1, w1) \<Rightarrow> (e, s\<lparr>wst_server := Some srv1, wst_world := w1\<rparr>)))"

definition component_ops :: "append_func \<Rightarrow> ('c, 'd, 'w) watch_env \<Rightarrow> ('c, 'w watch_state) watch_ops" where
  "component_ops app env =
     \<lparr>op_Load = \<lambda>s. (Load (we_Open env) (we_decoder env) (we_configPath env), s),
      op_Marshal = \<lambda>conf s. (fst (Marshal (we_encoder env) conf []), s),
      op_WaitForReady = outside (WaitForReady (we_retry env) (we_Ping env)),
      op_Setup = \<lambda>s. s\<lparr>wst_waiter := Some (signal_setup (we_signals env))\<rparr>,
      op_stopSignalWait = \<lambda>s. s\<lparr>wst_waiter := map_option signal_stop (wst_waiter s)\<rparr>,
      op_MkdirTemp = \<lambda>p. outside (we_MkdirTemp env p),
      op_RemoveAll = \<lambda>p. outside (we_RemoveAll env p),
      op_start = \<lambda>hs n s. with_router (router_start n) (s\<lparr>wst_router := Some (we_newRouter env hs)\<rparr>),
      op_stop = we_stop env,
      op_Listen = \<lambda>addr. outside (we_Listen env addr),
      op_Shutdown = \<lambda>ctx. outside (we_Shutdown env ctx),
      op_served = \<lambda>ctx. outside (we_served env ctx),
      op_ListenAndServe = \<lambda>p s.
        (case service_ListenAndServe (we_RegisterName env) (we_net_Listen env) p (wst_world s) of
           (Inl e, w1) \<Rightarrow> (Some e, s\<lparr>wst_world := w1\<rparr>)
         | (Inr server, w1) \<Rightarrow> (None, s\<lparr>wst_server := Some server, wst_world := w1\<rparr>)),
      op_Close = with_server (server_Close (we_l_Close env)),
      op_SetAll = \<lambda>p hs. with_group (SetAll (we_trigger env) (we_exe env) p (we_order env hs)),
      op_RecrawlAll = \<lambda>s. outside (RecrawlAll (we_trigger env) (we_order env (wst_configured s))) s,
      op_DeleteAll = \<lambda>ctx s. outside (DeleteAll app (we_trigger env) (we_order env (wst_configured s))) s,
      op_startPruning = \<lambda>d. with_router (case we_prune env of (ovf, rnd, t) \<Rightarrow> startPruning ovf rnd t d),
      op_waitForSignal = we_wait env\<rparr>"

lemma start_never_panics: "\<exists>r. router_start n (newRouter expRange (New cpus ctr objs) tobjs hs) = Inr r"
  by (simp add: router_start_def newRouter_def New_def Start_def SetSlots_def notifyLoop_def)

section \<open>Triggers in the daemon\<close>

text \<open>
  What Watchman documents: setting a trigger adds it, deleting it takes it away, and no other
  operation adds one. A failed request adds nothing.
\<close>

locale watchman_triggers =
  fixes env :: "('c, 'd, 'w) watch_env" and triggers :: "'w \<Rightarrow> (path \<times> string) set"
  assumes set_adds: "c_TriggerSet (we_trigger env) p (trigger_args ts h tc) w = (e, w') \<Longrightarrow>
      triggers w' \<subseteq> (if e = None then insert (p, hName h) (triggers w) else triggers w)"
    and del_removes: "c_TriggerDel (we_trigger env) p n w = (e, w') \<Longrightarrow>
      triggers w' \<subseteq> (if e = None then triggers w - {(p, n)} else triggers w)"
    and trigger_others: "os_WriteFile (we_trigger env) p j m w = (e, w') \<Longrightarrow> triggers w' \<subseteq> triggers w"
      "os_Chmod (we_trigger env) p m w = (e, w') \<Longrightarrow> triggers w' \<subseteq> triggers w"
      "c_WatchSet (we_trigger env) p w = (e, w') \<Longrightarrow> triggers w' \<subseteq> triggers w"
      "c_Recrawl (we_trigger env) p w = (e, w') \<Longrightarrow> triggers w' \<subseteq> triggers w"
    and outside_others: "triggers (snd (we_MkdirTemp env p w)) \<subseteq> triggers w"
      "triggers (snd (we_RemoveAll env p w)) \<subseteq> triggers w" "triggers (snd (we_Listen env a w)) \<subseteq> triggers w"
      "triggers (snd (we_Shutdown env ctx w)) \<subseteq> triggers w" "triggers (snd (we_served env ctx w)) \<subseteq> triggers w"
      "triggers (snd (we_net_Listen env p w)) \<subseteq> triggers w" "triggers (snd (we_l_Close env l w)) \<subseteq> triggers w"
      "triggers (snd (WaitForReady (we_retry env) (we_Ping env) w)) \<subseteq> triggers w"
    and whole: "triggers (wst_world (snd (we_stop env ctx s))) \<subseteq> triggers (wst_world s)"
      "triggers (wst_world (snd (we_wait env s))) \<subseteq> triggers (wst_world s)"
      "wst_configured (snd (we_wait env s)) = wst_configured s"
    and order_set: "set (we_order env hs) = set hs"

text \<open>The triggers besides those in \<open>T\<close> belong to configured handlers.\<close>

definition triggers_known :: "('w \<Rightarrow> (path \<times> string) set) \<Rightarrow> (path \<times> string) set \<Rightarrow> 'w watch_state \<Rightarrow> bool" where
  "triggers_known triggers T s \<longleftrightarrow> triggers (wst_world s) \<subseteq> T \<union> (\<lambda>h. (hPath h, hName h)) ` set (wst_configured s)"

context watchman_triggers
begin

lemma setter_do_triggers:
  "setter_do (we_trigger env) ts h w = (e, w') \<Longrightarrow>
     triggers w' \<subseteq> (if e = None then insert (hPath h, hName h) (triggers w) else triggers w)"
proof -
  assume a: "setter_do (we_trigger env) ts h w = (e, w')"
  show ?thesis
  proof (cases "newTriggerConfig h")
    case (Inl x)
    then show ?thesis using a by (auto simp: setter_do_def)
  next
    case (Inr tc)
    obtain e1 w1 where 1: "os_WriteFile (we_trigger env) (configFilePath tc) (JObj (configData tc)) configFileLocalScopeMode w = (e1, w1)"
      by fastforce
    obtain e2 w2 where 2: "os_Chmod (we_trigger env) (configFilePath tc) configFileLocalScopeMode w1 = (e2, w2)" by fastforce
    obtain e3 w3 where 3: "c_WatchSet (we_trigger env) (hPath h) w2 = (e3, w3)" by fastforce
    obtain e4 w4 where 4: "c_TriggerSet (we_trigger env) (hPath h) (trigger_args ts h tc) w3 = (e4, w4)" by fastforce
    have sub: "triggers w1 \<subseteq> triggers w" "triggers w2 \<subseteq> triggers w" "triggers w3 \<subseteq> triggers w"
      using trigger_others(1) [OF 1] trigger_others(2) [OF 2] trigger_others(3) [OF 3] by blast+
    show ?thesis using a Inr 1 2 3 4 sub set_adds [OF 4]
      by (cases e1; cases e2; cases e3; cases e4) (auto simp: setter_do_def wrap_err_def)
  qed
qed

lemma group_set_triggers:
  "group_wait (set_one (we_trigger env) ts) order e0 (hs, w) = (e, hs', w') \<Longrightarrow>
     triggers w \<subseteq> T \<union> (\<lambda>h. (hPath h, hName h)) ` set hs \<Longrightarrow> triggers w' \<subseteq> T \<union> (\<lambda>h. (hPath h, hName h)) ` set hs'"
proof (induction order arbitrary: e0 hs w)
  case (Cons h order)
  obtain e1 w1 where d: "setter_do (we_trigger env) ts h w = (e1, w1)" by fastforce
  then show ?case using Cons setter_do_triggers [OF d]
    by (cases e1) (fastforce simp: set_one_def)+
qed simp

lemma group_recrawl_triggers:
  "group_wait (\<lambda>h. c_Recrawl (we_trigger env) (hPath h)) order e0 w = (e, w') \<Longrightarrow> triggers w' \<subseteq> triggers w"
proof (induction order arbitrary: e0 w)
  case (Cons h order)
  obtain e1 w1 where d: "c_Recrawl (we_trigger env) (hPath h) w = (e1, w1)" by fastforce
  then show ?case using Cons trigger_others(4) [OF d] by fastforce
qed simp

lemma group_delete_triggers:
  assumes "\<And>w. gctx_Err (we_trigger env) w = None" "\<And>p n w. fst (c_TriggerDel (we_trigger env) p n w) = None"
  shows "group_wait (delete_one (we_trigger env)) order e0 (es, w) = (e, es', w') \<Longrightarrow>
    triggers w' \<subseteq> triggers w - (\<lambda>h. (hPath h, hName h)) ` set order"
proof (induction order arbitrary: e0 es w)
  case (Cons h order)
  obtain w1 where d: "c_TriggerDel (we_trigger env) (hPath h) (hName h) w = (None, w1)"
    using assms(2) by (metis prod.exhaust_sel)
  then show ?case using Cons assms(1) del_removes [OF d] by (fastforce simp: delete_one_def)
qed simp

text \<open>No new triggers; and none and no configured handlers.\<close>

definition quiet :: "(path \<times> string) set \<Rightarrow> 'w watch_state \<Rightarrow> bool" where
  "quiet T s \<longleftrightarrow> triggers (wst_world s) \<subseteq> T"

definition fresh_group :: "(path \<times> string) set \<Rightarrow> 'w watch_state \<Rightarrow> bool" where
  "fresh_group T s \<longleftrightarrow> triggers (wst_world s) \<subseteq> T \<and> wst_configured s = []"

lemma outside_quiet:
  assumes "\<And>w. triggers (snd (f w)) \<subseteq> triggers w"
  shows "quiet T s \<Longrightarrow> quiet T (snd (outside f s))" "fresh_group T s \<Longrightarrow> fresh_group T (snd (outside f s))"
    "triggers_known triggers T s \<Longrightarrow> triggers_known triggers T (snd (outside f s))"
  using assms [of "wst_world s"]
  by (auto simp: quiet_def fresh_group_def triggers_known_def outside_def split: prod.splits)

lemma with_router_quiet: "fresh_group T s \<Longrightarrow> fresh_group T (with_router f (s\<lparr>wst_router := r\<rparr>))"
  "triggers_known triggers T s \<Longrightarrow> triggers_known triggers T (with_router f s)"
  by (auto simp: fresh_group_def triggers_known_def with_router_def split: option.splits sum.splits)

lemma server_triggers:
  "service_ListenAndServe (we_RegisterName env) (we_net_Listen env) p w = (res, w') \<Longrightarrow> triggers w' \<subseteq> triggers w"
  "triggers (snd (snd (server_Close (we_l_Close env) srv w))) \<subseteq> triggers w"
proof -
  show "triggers w' \<subseteq> triggers w" if "service_ListenAndServe (we_RegisterName env) (we_net_Listen env) p w = (res, w')"
    using that outside_others(6) [of p w]
    by (auto simp: service_ListenAndServe_def server_Listen_def new_Server_def Let_def
        split: option.splits prod.splits sum.splits)
  show "triggers (snd (snd (server_Close (we_l_Close env) srv w))) \<subseteq> triggers w"
    using outside_others(7) [of _ w]
    by (auto simp: server_Close_def split: option.splits prod.splits bool.splits) (metis snd_conv subsetD)
qed

lemma with_server_quiet:
  assumes "\<And>srv w. triggers (snd (snd (f srv w))) \<subseteq> triggers w"
  shows "triggers_known triggers T s \<Longrightarrow> triggers_known triggers T (snd (with_server f s))"
proof -
  have k: "triggers (wst_world (snd (with_server f s))) \<subseteq> triggers (wst_world s)"
    "wst_configured (snd (with_server f s)) = wst_configured s" for s :: "'w watch_state"
    using assms [of _ "wst_world s"] by (auto simp: with_server_def split: option.splits prod.splits) (metis snd_conv subsetD)
  show "triggers_known triggers T s \<Longrightarrow> triggers_known triggers T (snd (with_server f s))"
    using k [of s] by (auto simp: triggers_known_def)
qed

lemma work_known:
  assumes "fresh_group T s"
  shows "triggers_known triggers T (snd (watch_socket (component_ops app env) c p conf s))"
proof -
  have set_known: "triggers_known triggers T (snd (with_group (SetAll (we_trigger env) (we_exe env) p hs) s))" for hs
  proof -
    obtain e cf w where r: "SetAll (we_trigger env) (we_exe env) p hs (wst_configured s, wst_world s) = (e, cf, w)"
      by (metis prod.exhaust)
    have "triggers (wst_world s) \<subseteq> T \<union> (\<lambda>h. (hPath h, hName h)) ` set (wst_configured s)"
      using assms by (auto simp: fresh_group_def)
    then have "triggers w \<subseteq> T \<union> (\<lambda>h. (hPath h, hName h)) ` set cf"
      using r group_set_triggers by (auto simp: SetAll_def split: sum.splits)
    then show ?thesis by (simp add: triggers_known_def with_group_def r)
  qed
  have crawl: "triggers (snd (RecrawlAll (we_trigger env) hs w)) \<subseteq> triggers w" for hs w
    using group_recrawl_triggers [of hs None w] by (metis RecrawlAll_def prod.exhaust_sel)
  have wait: "triggers_known triggers T x \<Longrightarrow> triggers_known triggers T (snd (we_wait env x))" for x
    using whole(2,3) [of x] by (auto simp: triggers_known_def)
  obtain e1 s1 where 1: "op_SetAll (component_ops app env) p (Handlers conf) s = (e1, s1)" by fastforce
  then have k1: "triggers_known triggers T s1" using set_known [of "we_order env (Handlers conf)"] by (simp add: component_ops_def)
  obtain e2 s2 where 2: "op_RecrawlAll (component_ops app env) s1 = (e2, s2)" by fastforce
  then have k2: "triggers_known triggers T s2"
    using outside_quiet(3) [of "RecrawlAll (we_trigger env) (we_order env (wst_configured s1))", OF crawl k1]
    by (simp add: component_ops_def)
  have "triggers_known triggers T (snd (op_waitForSignal (component_ops app env) (op_startPruning (component_ops app env) d s2)))" for d
    using wait [OF with_router_quiet(2) [OF k2]] by (simp add: component_ops_def)
  then show ?thesis using 1 2 k1 k2
    by (auto simp: watch_socket_def split: option.splits prod.splits) (metis snd_conv)
qed

lemma delete_quiet:
  assumes "\<And>w. gctx_Err (we_trigger env) w = None" "\<And>p n w. fst (c_TriggerDel (we_trigger env) p n w) = None"
    "triggers_known triggers T s"
  shows "quiet T (snd (op_DeleteAll (component_ops app env) ctx s))"
proof -
  obtain e es w where g: "group_wait (delete_one (we_trigger env)) (we_order env (wst_configured s)) None ([], wst_world s) = (e, es, w)"
    by (metis prod.exhaust)
  have "triggers w \<subseteq> triggers (wst_world s) - (\<lambda>h. (hPath h, hName h)) ` set (wst_configured s)"
    using group_delete_triggers [OF assms(1,2) g] by (simp add: order_set)
  then show ?thesis using assms(3) g
    by (auto simp: quiet_def triggers_known_def component_ops_def outside_def DeleteAll_def split: option.splits)
qed

end

text \<open>How a stage of a bracket transforms a condition: \<open>R\<close> holds when the inner stages are done, \<open>Q\<close> at
  the end.\<close>

lemma bracket_rule:
  assumes "\<And>e s1. st s = (Inl e, s1) \<Longrightarrow> Q s1"
    "\<And>rel s1. st s = (Inr rel, s1) \<Longrightarrow> R (snd (bracket app sts work s1)) \<and> (\<forall>s. R s \<longrightarrow> Q (snd (rel s)))"
  shows "Q (snd (bracket app (st # sts) work s))"
proof (cases "st s")
  case (Pair r s1)
  show ?thesis
  proof (cases r)
    case (Inl e)
    then show ?thesis using assms(1) Pair by simp
  next
    case (Inr rel)
    obtain err s2 where b: "bracket app sts work s1 = (err, s2)" by fastforce
    have "R s2" "R s2 \<longrightarrow> Q (snd (rel s2))" using assms(2) [of rel s1] Pair Inr b by auto
    then show ?thesis using Pair Inr b by (simp split: prod.split) (metis snd_conv)
  qed
qed

context watchman_triggers
begin

lemma socket_stages_quiet:
  assumes del: "\<And>w. gctx_Err (we_trigger env) w = None" "\<And>p n w. fst (c_TriggerDel (we_trigger env) p n w) = None"
    and "fresh_group T s"
  shows "quiet T (snd (bracket app (socket_stages (component_ops app env) ctx tmpdir)
    (watch_socket (component_ops app env) c p conf) s))"
proof -
  let ?ops = "component_ops app env"
  let ?listen = "\<lambda>s. (case op_ListenAndServe ?ops (Join [tmpdir, ''server.socket'']) s of
             (Some e, s1) \<Rightarrow> (Inl e, s1) | (None, s1) \<Rightarrow> (Inr (op_Close ?ops), s1))"
  have listen: "fresh_group T s1" if "?listen s = (r, s1)" for r s1
  proof -
    obtain res w1 where w1: "service_ListenAndServe (we_RegisterName env) (we_net_Listen env)
        (Join [tmpdir, ''server.socket'']) (wst_world s) = (res, w1)" by fastforce
    then have "wst_world s1 = w1 \<and> wst_configured s1 = wst_configured s"
      using that by (cases res) (auto simp: component_ops_def)
    then show ?thesis using server_triggers(1) [OF w1] assms(3) by (auto simp: fresh_group_def)
  qed
  have fk: "fresh_group T x \<Longrightarrow> triggers_known triggers T x" for x by (auto simp: fresh_group_def triggers_known_def)
  have close: "triggers_known triggers T x \<Longrightarrow> triggers_known triggers T (snd (op_Close ?ops x))" for x
    using with_server_quiet [OF server_triggers(2)] by (simp add: component_ops_def)
  have "triggers_known triggers T (snd (bracket app [?listen] (watch_socket ?ops c p conf) s))"
  proof (rule bracket_rule [where R = "triggers_known triggers T"])
    show "triggers_known triggers T s1" if "?listen s = (Inl e, s1)" for e s1 using listen [OF that] fk by blast
    show "triggers_known triggers T (snd (bracket app [] (watch_socket ?ops c p conf) s1)) \<and>
        (\<forall>s. triggers_known triggers T s \<longrightarrow> triggers_known triggers T (snd (rel s)))"
      if l: "?listen s = (Inr rel, s1)" for rel s1
    proof -
      have "rel = op_Close ?ops" using l by (auto split: prod.splits option.splits)
      then show ?thesis using work_known [OF listen [OF l]] close by simp
    qed
  qed
  then have inner: "triggers_known triggers T (snd (bracket app [?listen] (watch_socket ?ops c p conf) s))" .
  have "quiet T (snd (bracket app ((\<lambda>s. (Inr (op_DeleteAll ?ops ctx), s)) # [?listen]) (watch_socket ?ops c p conf) s))"
  proof (rule bracket_rule [where R = "triggers_known triggers T"])
    show "triggers_known triggers T (snd (bracket app [?listen] (watch_socket ?ops c p conf) s1)) \<and>
        (\<forall>s. triggers_known triggers T s \<longrightarrow> quiet T (snd (rel s)))"
      if "(Inr (op_DeleteAll ?ops ctx), s) = (Inr rel, s1)" for rel s1
    proof -
      have "rel = op_DeleteAll ?ops ctx" "s1 = s" using that by blast+
      then show ?thesis using inner delete_quiet [OF del] by blast
    qed
  qed blast
  then show ?thesis unfolding socket_stages_def .
qed

lemma stop_quiet: "quiet T x \<Longrightarrow> quiet T (snd (op_stop (component_ops app env) ctx x))"
  using whole(1) [of ctx x] by (auto simp: quiet_def component_ops_def)

lemma stopMetrics_quiet: "quiet T x \<Longrightarrow> quiet T (snd (stopMetrics (component_ops app env) ctx x))"
proof -
  assume x: "quiet T x"
  obtain e s1 where s1: "op_Shutdown (component_ops app env) ctx x = (e, s1)" by fastforce
  then have "quiet T s1" using outside_quiet(1) [OF outside_others(4) x, of "\<lambda>_. ctx"] by (simp add: component_ops_def)
  moreover have "quiet T (snd (op_served (component_ops app env) ctx s1))"
    using outside_quiet(1) [OF outside_others(5) \<open>quiet T s1\<close>, of "\<lambda>_. ctx"] by (simp add: component_ops_def)
  ultimately show ?thesis using s1 by (cases e) (simp_all add: stopMetrics_def)
qed

lemma stages_quiet:
  assumes del: "\<And>w. gctx_Err (we_trigger env) w = None" "\<And>p n w. fst (c_TriggerDel (we_trigger env) p n w) = None"
    and "fresh_group T s"
  shows "quiet T (snd (bracket app (stages (component_ops app env) ctx c tmpdir conf)
    (watch_socket (component_ops app env) c p conf) s))"
proof -
  let ?ops = "component_ops app env" and ?work = "watch_socket (component_ops app env) c p conf"
  let ?m = "\<lambda>s. map_prod (map_sum id (\<lambda>stop. stop ctx)) id (listenAndServeMetrics ?ops (metricsAddress c) s)"
  let ?ms = "if metricsAddress c \<noteq> [] then [?m] else []"
  have fq: "fresh_group T x \<Longrightarrow> quiet T x" for x by (simp add: fresh_group_def quiet_def)
  have metrics: "quiet T (snd (bracket app (?m # socket_stages ?ops ctx tmpdir) ?work x))" if x: "fresh_group T x" for x
  proof (rule bracket_rule [where R = "quiet T"])
    obtain e x1 where l: "op_Listen ?ops (metricsAddress c) x = (e, x1)" by fastforce
    have x1: "fresh_group T x1"
      using outside_quiet(2) [OF outside_others(3) x, of "\<lambda>_. metricsAddress c"] l by (simp add: component_ops_def)
    have m: "?m x = (case e of None \<Rightarrow> Inr (stopMetrics ?ops ctx) | Some y \<Rightarrow> Inl y, x1)"
      using l by (simp add: listenAndServeMetrics_def split: option.split)
    show "quiet T s1" if "?m x = (Inl y, s1)" for y s1 using that x1 fq unfolding m by auto
    show "quiet T (snd (bracket app (socket_stages ?ops ctx tmpdir) ?work s1)) \<and> (\<forall>s. quiet T s \<longrightarrow> quiet T (snd (rel s)))"
      if "?m x = (Inr rel, s1)" for rel s1
    proof -
      have "rel = stopMetrics ?ops ctx" "s1 = x1" using that unfolding m by (auto split: option.splits)
      then show ?thesis using stopMetrics_quiet socket_stages_quiet [OF del x1] by blast
    qed
  qed
  let ?st = "\<lambda>s. (Inr (op_stop ?ops ctx), op_start ?ops (Handlers conf) (sint (slotCount c)) s)"
  have start: "fresh_group T (op_start ?ops (Handlers conf) (sint (slotCount c)) s)"
    using with_router_quiet(1) [OF assms(3)] by (simp add: component_ops_def)
  have inner: "quiet T (snd (bracket app (?ms @ socket_stages ?ops ctx tmpdir) ?work (op_start ?ops (Handlers conf) (sint (slotCount c)) s)))"
    using metrics [OF start] socket_stages_quiet [OF del start] by simp
  have "quiet T (snd (bracket app (?st # ?ms @ socket_stages ?ops ctx tmpdir) ?work s))"
  proof (rule bracket_rule [where R = "quiet T"])
    show "quiet T (snd (bracket app (?ms @ socket_stages ?ops ctx tmpdir) ?work s1)) \<and> (\<forall>s. quiet T s \<longrightarrow> quiet T (snd (rel s)))"
      if "?st s = (Inr rel, s1)" for rel s1
    proof -
      have "rel = op_stop ?ops ctx" "s1 = op_start ?ops (Handlers conf) (sint (slotCount c)) s" using that by blast+
      then show ?thesis using inner stop_quiet by blast
    qed
  qed blast
  then show ?thesis by (simp add: stages_def)
qed

lemma watch_spec_quiet:
  assumes del: "\<And>w. gctx_Err (we_trigger env) w = None" "\<And>p n w. fst (c_TriggerDel (we_trigger env) p n w) = None"
    and "fresh_group T s"
  shows "quiet T (snd (watch_spec app (component_ops app env) ctx c conf s))"
proof -
  let ?ops = "component_ops app env"
  obtain r s1 where t: "op_MkdirTemp ?ops (runtimeParentDir c) (op_Setup ?ops s) = (r, s1)" by fastforce
  have "fresh_group T (op_Setup ?ops s)" using assms(3) by (simp add: fresh_group_def component_ops_def)
  from outside_quiet(2) [OF outside_others(1) this, of "\<lambda>_. runtimeParentDir c"]
  have s1: "fresh_group T s1" using t by (simp add: component_ops_def)
  have rm: "quiet T (snd (removeTempDir ?ops p x))" if "quiet T x" for p x
    using outside_quiet(1) [OF outside_others(2) that, of "\<lambda>_. p"]
    by (auto simp: removeTempDir_def component_ops_def split: prod.splits option.splits)
  have sig: "quiet T (op_stopSignalWait ?ops x)" if "quiet T x" for x
    using that by (simp add: quiet_def component_ops_def)
  show ?thesis
  proof (cases r)
    case (Inl e)
    then show ?thesis using t s1 sig by (simp add: watch_spec_def no_error_def fresh_group_def quiet_def)
  next
    case (Inr tmpdir)
    obtain e s2 where b: "bracket app (stages ?ops ctx c tmpdir conf)
        (watch_socket ?ops c (Join [tmpdir, ''server.socket'']) conf) s1 = (e, s2)" by fastforce
    have "quiet T s2" using stages_quiet [OF del s1] b by (metis snd_conv)
    then have "quiet T (op_stopSignalWait ?ops (snd (removeTempDir ?ops tmpdir s2)))" using rm sig by blast
    then show ?thesis using t Inr b
      by (cases "removeTempDir ?ops tmpdir s2") (simp add: watch_spec_def no_error_def)
  qed
qed

end

section \<open>Properties\<close>


text \<open>A daemon that keeps the set of its triggers, and a system where everything else succeeds.\<close>

definition trigger_name :: "json \<Rightarrow> string" where
  "trigger_name args =
     (case args of JObj ms \<Rightarrow> (case map_of ms ''name'' of Some (JStr n) \<Rightarrow> n | _ \<Rightarrow> []) | _ \<Rightarrow> [])"

definition daemon_env :: "(unit, Root list, (path \<times> string) set) watch_env" where
  "daemon_env =
     \<lparr>we_Open = \<lambda>p. Inr [\<lparr>Handlers = [sample_handler]\<rparr>], we_decoder = list_decoder, we_configPath = ''cfg'',
      we_encoder = \<lparr>enc_Encode = \<lambda>c w. (None, w), enc_Close = \<lambda>w. (None, w)\<rparr>, we_retry = \<lambda>b f. f, we_Ping = \<lambda>w. (None, w), we_signals = [],
      we_MkdirTemp = \<lambda>p w. (Inr ''/tmp/1'', w), we_RemoveAll = \<lambda>p w. (None, w),
      we_newRouter = newRouter (\<lambda>_ _ _. []) (New 1 0 undefined) (\<lambda>_. undefined),
      we_Listen = \<lambda>a w. (None, w), we_Shutdown = \<lambda>c w. (None, w), we_served = \<lambda>c w. (None, w),
      we_RegisterName = \<lambda>n. None, we_net_Listen = \<lambda>p w. (Inr 0, w), we_l_Close = \<lambda>l w. (None, w), we_exe = (''/bin/b'', None), we_order = rev,
      we_trigger = \<lparr>os_WriteFile = \<lambda>p j m w. (None, w), os_Chmod = \<lambda>p m w. (None, w), c_WatchSet = \<lambda>p w. (None, w),
        c_TriggerSet = \<lambda>p args w. (None, insert (p, trigger_name args) w),
        c_TriggerDel = \<lambda>p n w. (None, w - {(p, n)}), c_Recrawl = \<lambda>p w. (Some (ErrNo EINVAL), w), gctx_Err = \<lambda>w. None\<rparr>,
      we_prune = (0, 0, Time 0), we_stop = \<lambda>c s. (None, s), we_wait = \<lambda>s. (None, s)\<rparr>"

interpretation daemon: watchman_triggers daemon_env "\<lambda>w. w"
proof
  show "w' \<subseteq> (if e = None then insert (p, hName h) w else w)"
    if "c_TriggerSet (we_trigger daemon_env) p (trigger_args ts h tc) w = (e, w')" for p ts h tc w e w'
    using that by (auto simp: daemon_env_def trigger_name_def trigger_args_def)
  show "w' \<subseteq> (if e = None then w - {(p, n)} else w)"
    if "c_TriggerDel (we_trigger daemon_env) p n w = (e, w')" for p n w e w'
    using that by (auto simp: daemon_env_def)
qed (auto simp: daemon_env_def WaitForReady_def waitForReady_def ping_once_def)


end
