(* ===== verification/MoveInto.thy ===== *)
theory MoveInto
  imports ArchiveNames Prune CmdUtil
begin

text \<open>
  \<open>move/into.go\<close>: the subcommand \<open>move-into\<close>, which moves files into a directory under names that
  are free there. The properties rest on what a tree of directories promises beyond the laws of
  \<open>file_system\<close>, stated as the locale \<open>tree_fs\<close>.
\<close>

section \<open>Definitions\<close>

definition errRenameNotSupported :: goerr where
  "errRenameNotSupported = ErrNew ''prefered destination names are only supported with a single source file''"

record IntoCommand =
  into_rename :: string

definition into_opts :: Options where
  "into_opts = DefaultOptions\<lparr>TimePrefixEnabled := False\<rparr>"

definition into_newname :: "IntoCommand \<Rightarrow> path \<Rightarrow> string" where
  "into_newname c oldpath = (if into_rename c \<noteq> [] then into_rename c else Base oldpath)"

text \<open>\<open>many\<close>: there is more than one source file. The state is that of the random numbers and the
  world; \<open>None\<close> is a search for a name that does not end.\<close>

fun into_loop ::
  "'w os \<Rightarrow> segmenter \<Rightarrow> 'r Runtime \<Rightarrow> IntoCommand \<Rightarrow> path \<Rightarrow> bool \<Rightarrow> path list \<Rightarrow> 'r \<times> 'w \<Rightarrow> (err \<times> 'r \<times> 'w) option" where
  "into_loop os seg rt c targetDir many [] s = Some (None, s)"
| "into_loop os seg rt c targetDir many (oldpath # rest) s =
     (if into_rename c \<noteq> [] \<and> many then Some (Some errRenameNotSupported, s)
      else
        case uniquename_New rt (Join [targetDir, into_newname c oldpath]) into_opts of
          Inl e \<Rightarrow> Some (Some e, s)
        | Inr g \<Rightarrow>
            (case RenameToAvailableName os oldpath (gen_iter seg rt) (g, fst s) (snd s) of
               None \<Rightarrow> None
             | Some (Inl e, gr, w1) \<Rightarrow> Some (Some e, snd gr, w1)
             | Some (Inr actual, gr, w1) \<Rightarrow> into_loop os seg rt c targetDir many rest (snd gr, w1)))"

definition into_execute ::
  "'w os \<Rightarrow> segmenter \<Rightarrow> 'r Runtime \<Rightarrow> IntoCommand \<Rightarrow> path \<Rightarrow> path list \<Rightarrow> 'r \<times> 'w \<Rightarrow> (err \<times> 'r \<times> 'w) option" where
  "into_execute os seg rt c targetDir sourceFiles s =
     into_loop os seg rt c targetDir (length sourceFiles > 1) sourceFiles s"

definition into_Execute ::
  "'w os \<Rightarrow> segmenter \<Rightarrow> 'r Runtime \<Rightarrow> IntoCommand \<Rightarrow> string list \<Rightarrow> 'r \<times> 'w \<Rightarrow> ((ExitStatus \<times> err) \<times> 'r \<times> 'w) option" where
  "into_Execute os seg rt c args s =
     (if length args < 2 then Some ((ExitUsageError, None), s)
      else map_option (\<lambda>(err, s1). (executeStatus err, s1)) (into_execute os seg rt c (args ! 0) (tl args) s))"

section \<open>Trees of directories\<close>

text \<open>
  What \<open>rename(2)\<close> documents: the parents of an entry exist; a directory cannot be moved below
  itself; and what was below the old name is below the new one.
\<close>

locale tree_fs = file_system os inv look for os :: "'w os" and inv look +
  assumes parents: "inv w \<Longrightarrow> IsAbs p \<Longrightarrow> IsAbs q \<Longrightarrow> below p q \<Longrightarrow> look w q \<noteq> None \<Longrightarrow> look w p \<noteq> None"
    and rename_apart: "inv w \<Longrightarrow> IsAbs p \<Longrightarrow> IsAbs q \<Longrightarrow> os_RenameNoReplace os p q w = (None, w') \<Longrightarrow> \<not> below p q"
    and rename_tree: "inv w \<Longrightarrow> IsAbs p \<Longrightarrow> IsAbs q \<Longrightarrow> os_RenameNoReplace os p q w = (None, w') \<Longrightarrow>
      IsAbs r \<Longrightarrow> IsAbs r' \<Longrightarrow> comps r = comps p @ t \<Longrightarrow> comps r' = comps q @ t \<Longrightarrow>
      map_option fi_id (look w' r') = map_option fi_id (look w r)"

definition tree_inv :: "fs \<Rightarrow> bool" where
  "tree_inv w \<longleftrightarrow> linkfree_inv w \<and> (\<forall>k e. ents w (k @ [e]) \<noteq> None \<longrightarrow> ents w k \<noteq> None)"

lemma tree_inv_prefix: "tree_inv w \<Longrightarrow> ents w (k @ x) \<noteq> None \<Longrightarrow> ents w k \<noteq> None"
proof (induction x rule: rev_induct)
  case (snoc e x)
  have "ents w ((k @ x) @ [e]) \<noteq> None" using snoc.prems(2) by simp
  then have "ents w (k @ x) \<noteq> None" using snoc.prems(1) unfolding tree_inv_def by blast
  then show ?case by (rule snoc.IH [OF snoc.prems(1)])
qed simp

lemma is_dir_ents: "is_dir w k \<Longrightarrow> ents w k \<noteq> None"
  by (auto simp: is_dir_def split: option.splits)

lemma tree_inv_mkdir:
  assumes "tree_inv w" "IsAbs p" "os_Mkdir plain_os p m w = (None, w')"
  shows "tree_inv w'"
proof -
  have n: "ents w (comps p) = None" "parent_error w (comps p) = None"
    "ents w' = (ents w)(comps p \<mapsto> fresh_ino w)"
    using assms(2,3) by (auto simp: plain_os_def plain_Mkdir_def new_entry_def split: option.splits if_splits)
  have "ents w k \<noteq> None" if "k @ [e] = comps p" for k e
    using n(2) that [symmetric] is_dir_ents [of w k] by (auto simp: parent_error_def split: if_splits)
  moreover have "linkfree_inv w'" using linkfree.mkdir_ok [OF _ assms(2,3)] assms(1) by (simp add: tree_inv_def)
  moreover have "ents w (k @ [e]) \<noteq> None \<Longrightarrow> ents w k \<noteq> None" for k e
    using assms(1) unfolding tree_inv_def by blast
  ultimately have "ents w' (k @ [e]) \<noteq> None \<Longrightarrow> ents w' k \<noteq> None" for k e
    unfolding n(3) fun_upd_apply by (metis option.distinct(1))
  then show ?thesis using \<open>linkfree_inv w'\<close> unfolding tree_inv_def by blast
qed

lemma plain_rename:
  assumes "IsAbs p" "IsAbs q" "os_RenameNoReplace plain_os p q w = (None, w')"
  shows "\<not> prefix (comps p) (comps q)" "\<not> prefix (comps q) (comps p)" "ents w (comps q) = None"
    "ents w (butlast (comps q)) \<noteq> None" "comps q \<noteq> []" "inodes w' = inodes w"
    "ents w' k = (if prefix (comps q) k then ents w (comps p @ drop (length (comps q)) k)
       else if prefix (comps p) k then None else ents w k)"
  using assms is_dir_ents [of w "butlast (comps q)"]
  by (auto simp: plain_os_def plain_Rename_def parent_error_def Let_def split: option.splits if_splits)

lemma tree_inv_rename:
  assumes "tree_inv w" "IsAbs p" "IsAbs q" "os_RenameNoReplace plain_os p q w = (None, w')"
  shows "tree_inv w'"
proof -
  note r = plain_rename [OF assms(2-4)]
  have "ents w' k \<noteq> None" if k: "ents w' (k @ [e]) \<noteq> None" for k e
  proof (cases "prefix (comps q) k")
    case True
    then obtain x where x: "k = comps q @ x" by (auto simp: prefix_def)
    have "ents w (comps p @ (x @ [e])) \<noteq> None" using k by (simp add: r(7) x)
    then have "ents w (comps p @ x) \<noteq> None" using tree_inv_prefix [OF assms(1), of "comps p @ x" "[e]"] by simp
    then show ?thesis by (simp add: r(7) x)
  next
    case False
    show ?thesis
    proof (cases "comps q = k @ [e]")
      case True
      then have "ents w k \<noteq> None" using r(4) by (metis butlast_snoc)
      moreover have "\<not> prefix (comps p) k" using r(1) True by auto
      ultimately show ?thesis using False by (simp add: r(7))
    next
      case n: False
      then have "\<not> prefix (comps q) (k @ [e])" using False by (metis prefix_snoc)
      then have "\<not> prefix (comps p) (k @ [e])" "ents w (k @ [e]) \<noteq> None" using k by (auto simp: r(7) split: if_splits)
      then show ?thesis using False tree_inv_prefix [OF assms(1), of k "[e]"] by (auto simp: r(7))
    qed
  qed
  moreover have "linkfree_inv w'" using linkfree.rename_ok [OF _ assms(2-4)] assms(1) by (simp add: tree_inv_def)
  ultimately show ?thesis by (simp add: tree_inv_def)
qed

interpretation tree: tree_fs plain_os tree_inv plain_look
proof
  fix w w' :: fs and p q r r' :: path and m :: nat and e :: goerr and fi :: fileinfo and t
  assume "tree_inv w"
  then have w: "linkfree_inv w" by (simp add: tree_inv_def)
  show "tree_inv w' \<and> plain_look w p = None \<and> (\<exists>fi. plain_look w' p = Some fi \<and> IsDir fi) \<and>
      (\<forall>q. IsAbs q \<longrightarrow> Clean q \<noteq> Clean p \<longrightarrow> plain_look w' q = plain_look w q)"
    if "IsAbs p" "os_Mkdir plain_os p m w = (None, w')"
    using linkfree.mkdir_ok [OF w that] tree_inv_mkdir [OF \<open>tree_inv w\<close> that] by simp
  show "tree_inv w' \<and> plain_look w p \<noteq> None \<and> plain_look w q = None \<and> plain_look w' p = None \<and>
      map_option fi_id (plain_look w' q) = map_option fi_id (plain_look w p) \<and>
      (\<forall>r. IsAbs r \<longrightarrow> \<not> below p r \<longrightarrow> \<not> below q r \<longrightarrow> plain_look w' r = plain_look w r)"
    if "IsAbs p" "IsAbs q" "os_RenameNoReplace plain_os p q w = (None, w')"
    using linkfree.rename_ok [OF w that] tree_inv_rename [OF \<open>tree_inv w\<close> that] by simp
  show "plain_look w p \<noteq> None" if "IsAbs p" "IsAbs q" "below p q" "plain_look w q \<noteq> None"
  proof -
    have "\<exists>x. comps q = comps p @ x" using that(3) by (auto simp: below_def prefix_def)
    then obtain x where "comps q = comps p @ x" by blast
    then show ?thesis using that tree_inv_prefix [OF \<open>tree_inv w\<close>, of "comps p" x] by (simp add: plain_look_def)
  qed
  show "\<not> below p q" if "IsAbs p" "IsAbs q" "os_RenameNoReplace plain_os p q w = (None, w')"
    using plain_rename(1) [OF that] by (simp add: below_def)
  show "map_option fi_id (plain_look w' r') = map_option fi_id (plain_look w r)"
    if "IsAbs p" "IsAbs q" "os_RenameNoReplace plain_os p q w = (None, w')" "IsAbs r" "IsAbs r'"
      "comps r = comps p @ t" "comps r' = comps q @ t"
    using plain_rename(7) [OF that(1-3), of "comps r'"] that(4-7)
    by (cases "ents w (comps p @ t)") (simp_all add: plain_look_def info_def Let_def)
  show "IsAbs p \<Longrightarrow> os_Lstat plain_os p w =
      (case plain_look w p of None \<Rightarrow> Inl (ErrNo ENOENT) | Some fi \<Rightarrow> Inr fi, w)"
    by (rule linkfree.lstat [OF w])
  show "IsAbs p \<Longrightarrow> IsAbs q \<Longrightarrow> Clean p = Clean q \<Longrightarrow> plain_look w p = plain_look w q"
    by (rule linkfree.look_clean [OF w])
  show "snd (os_Stat plain_os p w) = w" by (rule linkfree.stat_pure [OF w])
  show "IsAbs p \<Longrightarrow> plain_look w p = Some fi \<Longrightarrow> IsDir fi \<Longrightarrow>
      \<exists>fi'. fst (os_Stat plain_os p w) = Inr fi' \<and> IsDir fi'"
    by (rule linkfree.stat_dir [OF w])
  show "IsAbs p \<Longrightarrow> plain_look w p = None \<Longrightarrow> \<exists>e. fst (os_Stat plain_os p w) = Inl e"
    by (rule linkfree.stat_none [OF w])
  show "os_Mkdir plain_os p m w = (Some e, w') \<Longrightarrow> w' = w" by (rule linkfree.mkdir_err [OF w])
  show "IsAbs p \<Longrightarrow> os_Mkdir plain_os p m w = (Some e, w') \<Longrightarrow> os_IsExist e \<Longrightarrow> plain_look w p \<noteq> None"
    by (rule linkfree.mkdir_exist [OF w])
  show "os_RenameNoReplace plain_os p q w = (Some e, w') \<Longrightarrow> w' = w" by (rule linkfree.rename_err [OF w])
  show "IsAbs q \<Longrightarrow> os_RenameNoReplace plain_os p q w = (Some e, w') \<Longrightarrow> os_IsExist e \<Longrightarrow> plain_look w q \<noteq> None"
    by (rule linkfree.rename_exist [OF w])
qed

section \<open>Moving one file\<close>

definition same_file :: "('w \<Rightarrow> path \<Rightarrow> fileinfo option) \<Rightarrow> 'w \<Rightarrow> path \<Rightarrow> 'w \<Rightarrow> path \<Rightarrow> bool" where
  "same_file look w p w' q \<longleftrightarrow> map_option fi_id (look w p) = map_option fi_id (look w' q)"

text \<open>The effect of one successful rename on all entries.\<close>

definition moves :: "('w \<Rightarrow> path \<Rightarrow> fileinfo option) \<Rightarrow> path \<Rightarrow> path \<Rightarrow> 'w \<Rightarrow> 'w \<Rightarrow> bool" where
  "moves look old dest w w' \<longleftrightarrow> look w old \<noteq> None \<and> same_file look w old w' dest \<and> \<not> below old dest \<and>
     (\<forall>q. IsAbs q \<longrightarrow> look w q \<noteq> None \<longrightarrow> \<not> below old q \<longrightarrow> look w' q = look w q) \<and>
     (\<forall>q. IsAbs q \<longrightarrow> look w q \<noteq> None \<longrightarrow> (\<exists>q'. IsAbs q' \<and> same_file look w q w' q'))"

lemma stack_ok_rooted_iff: "stack_ok True st \<longleftrightarrow> (\<forall>c \<in> set st. normal c \<and> c \<noteq> ''..'')"
  by (induction st) auto

text \<open>The file with identity \<open>ino\<close> is an entry of the target directory.\<close>

definition in_target :: "('w \<Rightarrow> path \<Rightarrow> fileinfo option) \<Rightarrow> path \<Rightarrow> 'w \<Rightarrow> nat \<times> nat \<Rightarrow> bool" where
  "in_target look target w ino \<longleftrightarrow>
     (\<exists>m. normal m \<and> m \<noteq> ''..'' \<and> map_option fi_id (look w (Join [target, m])) = Some ino)"

text \<open>Among the names that are tried for a file one is free, each time.\<close>

fun into_free ::
  "'w os \<Rightarrow> ('w \<Rightarrow> path \<Rightarrow> fileinfo option) \<Rightarrow> segmenter \<Rightarrow> 'r Runtime \<Rightarrow> IntoCommand \<Rightarrow> path \<Rightarrow> path list \<Rightarrow> 'r \<times> 'w \<Rightarrow> bool" where
  "into_free os look seg rt c target [] s = True"
| "into_free os look seg rt c target (old # rest) s =
     (\<forall>g. uniquename_New rt (Join [target, into_newname c old]) into_opts = Inr g \<longrightarrow>
        (\<exists>k. look (snd s) (candidate (gen_iter seg rt) (g, fst s) k) = None) \<and>
        (\<forall>p gr w1. RenameToAvailableName os old (gen_iter seg rt) (g, fst s) (snd s) = Some (Inr p, gr, w1) \<longrightarrow>
           into_free os look seg rt c target rest (snd gr, w1)))"

text \<open>
  What moving \<open>sources\<close> into \<open>target\<close> does: no file is lost, and only the sources move; entries of
  the target directory stay there; and after success all sources are among them.
\<close>

definition into_effect ::
  "('w \<Rightarrow> path \<Rightarrow> fileinfo option) \<Rightarrow> path \<Rightarrow> path list \<Rightarrow> 'w \<Rightarrow> 'w \<Rightarrow> err \<Rightarrow> bool" where
  "into_effect look target sources w w' err \<longleftrightarrow>
     (\<forall>q. IsAbs q \<longrightarrow> look w q \<noteq> None \<longrightarrow> (\<exists>q'. IsAbs q' \<and> same_file look w q w' q') \<and>
        ((\<forall>s \<in> set sources. \<not> below s q) \<longrightarrow> look w' q = look w q)) \<and>
     (\<forall>ino. in_target look target w ino \<longrightarrow> in_target look target w' ino) \<and>
     (err = None \<longrightarrow> sorted_wrt (\<lambda>a b. \<not> below a b) sources \<longrightarrow>
        (\<forall>s \<in> set sources. \<forall>fi. look w s = Some fi \<longrightarrow> in_target look target w' (fi_id fi)))"

context tree_fs
begin

lemma rename_moves:
  assumes "inv w" "IsAbs p" "IsAbs q" "os_RenameNoReplace os p q w = (None, w')"
  shows "inv w' \<and> moves look p q w w'"
proof -
  note ok = rename_ok [OF assms]
  have stay: "look w' r = look w r" if "IsAbs r" "look w r \<noteq> None" "\<not> below p r" for r
    using ok that parents [OF assms(1,3) that(1) _ that(2)] by blast
  have "\<exists>r'. IsAbs r' \<and> same_file look w r w' r'" if r: "IsAbs r" "look w r \<noteq> None" for r
  proof (cases "below p r")
    case True
    then obtain t where t: "comps r = comps p @ t" by (auto simp: below_def prefix_def)
    have "comps_ok True (comps q @ t)"
      using comps_ok_comps [of q] comps_ok_comps [of r] assms(3) r(1) unfolding t comps_ok_def
      by (auto simp: stack_ok_rooted_iff)
    then have "IsAbs (render True (comps q @ t))" "comps (render True (comps q @ t)) = comps q @ t"
      by (simp_all add: IsAbs_render)
    then show ?thesis using rename_tree [OF assms r(1) _ t] by (metis same_file_def)
  qed (use stay r in \<open>auto simp: same_file_def\<close>)
  then show ?thesis using ok stay rename_apart [OF assms] by (auto simp: moves_def same_file_def)
qed

lemma into_step:
  assumes "inv w" "runtime_law seg rt" "IsAbs target" "normal n" "n \<noteq> ''..''" "IsAbs old"
    "\<And>g. uniquename_New rt (Join [target, n]) into_opts = Inr g \<Longrightarrow> \<exists>k. look w (candidate (gen_iter seg rt) (g, r) k) = None"
  obtains g res gr w' where "uniquename_New rt (Join [target, n]) into_opts = Inr g"
    "RenameToAvailableName os old (gen_iter seg rt) (g, r) w = Some (res, gr, w')"
    "(\<exists>e. res = Inl e) \<and> w' = w \<or>
     (\<exists>dest m. res = Inr dest \<and> inv w' \<and> moves look old dest w w' \<and> IsAbs dest \<and> normal m \<and> m \<noteq> ''..'' \<and>
        comps dest = comps target @ [m])"
proof -
  obtain g where g: "uniquename_New rt (Join [target, n]) into_opts = Inr g" "gen_ok g"
      "IsAbs (g_dir g)" "comps (g_dir g) = comps target"
    using New_gen_ok [OF assms(2-5)] by blast
  have c: "\<exists>m. normal m \<and> m \<noteq> ''..'' \<and> candidate (gen_iter seg rt) (g, r) i = Join [g_dir g, m]" for i
    using gen_iter_in_dir [OF assms(2) g(2,3), of r i] by blast
  then have abs: "IsAbs (candidate (gen_iter seg rt) (g, r) i)" for i using g(3) by (metis IsAbs_entry)
  obtain k where k: "look w (candidate (gen_iter seg rt) (g, r) k) = None" using assms(7) g(1) by blast
  obtain res gr w' where r: "RenameToAvailableName os old (gen_iter seg rt) (g, r) w = Some (res, gr, w')"
    "case res of Inl e \<Rightarrow> w' = w
     | Inr p \<Rightarrow> \<exists>i \<le> k. p = candidate (gen_iter seg rt) (g, r) i \<and>
         (\<forall>j < i. look w (candidate (gen_iter seg rt) (g, r) j) \<noteq> None) \<and> os_RenameNoReplace os old p w = (None, w')"
    using available_rename [OF assms(1) gen_iter_endless [OF assms(2)] abs k] by blast
  show ?thesis
  proof (rule that [OF g(1) r(1)], cases res)
    case (Inr dest)
    then obtain i where i: "dest = candidate (gen_iter seg rt) (g, r) i" "os_RenameNoReplace os old dest w = (None, w')"
      using r(2) by auto
    obtain m where m: "normal m" "m \<noteq> ''..''" "dest = Join [g_dir g, m]" using c [of i] i(1) by blast
    then have "comps dest = comps target @ [m]" using comps_entry [OF g(3)] g(4) by simp
    moreover have "IsAbs dest" using abs i(1) by simp
    ultimately show "(\<exists>e. res = Inl e) \<and> w' = w \<or>
       (\<exists>dest m. res = Inr dest \<and> inv w' \<and> moves look old dest w w' \<and> IsAbs dest \<and> normal m \<and> m \<noteq> ''..'' \<and>
          comps dest = comps target @ [m])"
      using Inr m rename_moves [OF assms(1,6) _ i(2)] by blast
  qed (use r(2) in simp)
qed

lemma in_target_entry:
  assumes "inv w" "IsAbs target" "IsAbs dest" "comps dest = comps target @ [m]" "normal m" "m \<noteq> ''..''"
    "look w dest = Some fi"
  shows "in_target look target w (fi_id fi)"
proof -
  have "Clean dest = Clean (Join [target, m])"
    using assms by (simp add: Clean_eq_iff comps_entry IsAbs_entry)
  then have "look w (Join [target, m]) = Some fi"
    using look_clean [OF assms(1,3) IsAbs_entry [OF assms(2)]] assms(7) by metis
  then show ?thesis using assms(5,6) by (auto simp: in_target_def)
qed

lemma moves_in_target:
  assumes "inv w" "inv w'" "moves look old dest w w'" "IsAbs old" "IsAbs target"
    and dest: "IsAbs dest" "comps dest = comps target @ [m]" "normal m" "m \<noteq> ''..''"
  shows "look w old = Some fi \<Longrightarrow> in_target look target w' (fi_id fi)"
    and "in_target look target w ino \<Longrightarrow> in_target look target w' ino"
proof -
  show moved: "in_target look target w' (fi_id fi)" if "look w old = Some fi" for fi
  proof -
    have "map_option fi_id (look w' dest) = Some (fi_id fi)"
      using assms(3) that by (simp add: moves_def same_file_def)
    then obtain fi' where "look w' dest = Some fi'" "fi_id fi' = fi_id fi" by auto
    then show ?thesis using in_target_entry [OF assms(2,5) dest] by metis
  qed
  assume "in_target look target w ino"
  then obtain n fi where n: "normal n" "n \<noteq> ''..''" "look w (Join [target, n]) = Some fi" "fi_id fi = ino"
    by (auto simp: in_target_def)
  note a = IsAbs_entry [OF assms(5), of n] comps_entry [OF assms(5) n(1,2)]
  show "in_target look target w' ino"
  proof (cases "below old (Join [target, n])")
    case True
    then have "comps old = comps target @ [n] \<or> prefix (comps old) (comps target)"
      using a by (auto simp: below_def prefix_snoc)
    moreover have "\<not> prefix (comps old) (comps target)"
      using assms(3,4) dest(1,2) by (auto simp: moves_def below_def intro: prefix_prefix)
    ultimately have "Clean old = Clean (Join [target, n])" using a assms(4) by (simp add: Clean_eq_iff)
    then have "look w old = Some fi" using look_clean [OF assms(1,4) a(1)] n(3) by simp
    then show ?thesis using moved n(4) by blast
  next
    case False
    then have "look w' (Join [target, n]) = Some fi" using assms(3) a(1) n(3) by (simp add: moves_def)
    then show ?thesis using n by (auto simp: in_target_def)
  qed
qed

text \<open>The effect of the loop on the files, and how it grows with one more file.\<close>

lemma into_effect_refl: "err \<noteq> None \<or> sources = [] \<Longrightarrow> into_effect look target sources w w err"
  by (auto simp: into_effect_def same_file_def)

lemma into_effect_Cons:
  assumes m: "moves look old dest w w1" and "\<And>s. s \<in> set rest \<Longrightarrow> IsAbs s"
    and tgt: "\<And>fi. look w old = Some fi \<Longrightarrow> in_target look target w1 (fi_id fi)"
      "\<And>ino. in_target look target w ino \<Longrightarrow> in_target look target w1 ino"
    and ih: "into_effect look target rest w1 w' err"
  shows "into_effect look target (old # rest) w w' err"
proof -
  have stay: "look w1 q = look w q" if "IsAbs q" "look w q \<noteq> None" "\<not> below old q" for q
    using m that by (simp add: moves_def)
  have "\<exists>q'. IsAbs q' \<and> same_file look w q w' q'" if q: "IsAbs q" "look w q \<noteq> None" for q
  proof -
    obtain q1 where q1: "IsAbs q1" "same_file look w q w1 q1" using m q by (auto simp: moves_def)
    then have "look w1 q1 \<noteq> None" using q(2) by (cases "look w1 q1") (auto simp: same_file_def)
    then show ?thesis using ih q1 by (auto simp: into_effect_def same_file_def)
  qed
  moreover have "look w' q = look w q" if "IsAbs q" "look w q \<noteq> None" "\<forall>s \<in> set (old # rest). \<not> below s q" for q
    using stay [OF that(1,2)] ih that by (simp add: into_effect_def)
  moreover have "in_target look target w' (fi_id fi)"
    if "err = None" "sorted_wrt (\<lambda>a b. \<not> below a b) (old # rest)" "s \<in> set (old # rest)" "look w s = Some fi" for s fi
  proof (cases "s = old")
    case True
    then show ?thesis using tgt(1) ih that(4) unfolding into_effect_def by blast
  next
    case False
    then have "look w1 s = Some fi" "s \<in> set rest" using that stay [of s] assms(2) by auto
    then show ?thesis using ih that(1,2) by (auto simp: into_effect_def)
  qed
  moreover have "in_target look target w' ino" if "in_target look target w ino" for ino
    using tgt(2) [OF that] ih unfolding into_effect_def by blast
  ultimately show ?thesis unfolding into_effect_def by blast
qed

lemma into_loop_spec:
  assumes "inv w" "runtime_law seg rt" "IsAbs target"
    and "\<And>s. s \<in> set sources \<Longrightarrow> IsAbs s \<and> normal (into_newname c s) \<and> into_newname c s \<noteq> ''..''"
    and "into_free os look seg rt c target sources (r, w)"
  shows "\<exists>err r' w'. into_loop os seg rt c target many sources (r, w) = Some (err, r', w') \<and>
    into_effect look target sources w w' err"
  using assms(1,4,5)
proof (induction sources arbitrary: r w)
  case Nil
  then show ?case by (simp add: into_effect_refl)
next
  case (Cons old rest)
  have old: "IsAbs old" "normal (into_newname c old)" "into_newname c old \<noteq> ''..''" using Cons.prems(2) by auto
  show ?case
  proof (cases "into_rename c \<noteq> [] \<and> many")
    case True
    then show ?thesis by (simp add: into_effect_refl)
  next
    case F: False
    have free: "\<exists>k. look w (candidate (gen_iter seg rt) (g, r) k) = None"
      if "uniquename_New rt (Join [target, into_newname c old]) into_opts = Inr g" for g
      using Cons.prems(3) that by simp
    obtain g res gr w1 where st: "uniquename_New rt (Join [target, into_newname c old]) into_opts = Inr g"
      "RenameToAvailableName os old (gen_iter seg rt) (g, r) w = Some (res, gr, w1)"
      "(\<exists>e. res = Inl e) \<and> w1 = w \<or>
       (\<exists>dest m. res = Inr dest \<and> inv w1 \<and> moves look old dest w w1 \<and> IsAbs dest \<and> normal m \<and> m \<noteq> ''..'' \<and>
          comps dest = comps target @ [m])"
      by (rule into_step [OF Cons.prems(1) assms(2,3) old(2,3,1) free])
    show ?thesis
    proof (cases res)
      case (Inl e)
      then have "into_loop os seg rt c target many (old # rest) (r, w) = Some (Some e, snd gr, w)" using st F by auto
      then show ?thesis using into_effect_refl [of "Some e"] by blast
    next
      case (Inr dest)
      then obtain m where m: "inv w1" "moves look old dest w w1" "IsAbs dest" "comps dest = comps target @ [m]"
          "normal m" "m \<noteq> ''..''" using st(3) by blast
      have loop: "into_loop os seg rt c target many (old # rest) (r, w) =
          into_loop os seg rt c target many rest (snd gr, w1)" using st(1,2) F Inr by auto
      have "into_free os look seg rt c target rest (snd gr, w1)" using Cons.prems(3) st(1,2) Inr by (cases gr) simp
      then have "\<exists>err r' w'. into_loop os seg rt c target many rest (snd gr, w1) = Some (err, r', w') \<and>
          into_effect look target rest w1 w' err"
        using Cons.IH [OF m(1)] Cons.prems(2) by simp
      then show ?thesis
        using into_effect_Cons [OF m(2) _ moves_in_target [OF Cons.prems(1) m(1,2) old(1) assms(3) m(3-6)]] Cons.prems(2)
        unfolding loop by (meson list.set_intros(2))
    qed
  qed
qed

end

section \<open>Properties\<close>

text \<open>
  C7. \<open>move-into\<close> loses and overwrites nothing. It returns, provided the generated names do not
  all exist, and whether it succeeds or fails every file is still there, at its old path unless it
  is one of the sources or inside one. When it succeeds, every source that was there at the start is
  an entry of the target directory; a source must not lie inside one given before it. A preferred
  name together with several sources is refused before anything is moved.
\<close>

theorem move_into_keeps_files:
  assumes "tree_fs os valid look" "valid w" "runtime_law seg rt" "IsAbs target"
    and "\<And>s. s \<in> set sources \<Longrightarrow> IsAbs s \<and> normal (into_newname c s) \<and> into_newname c s \<noteq> ''..''"
    and "into_free os look seg rt c target sources (r, w)"
  shows "\<exists>err r' w'. into_execute os seg rt c target sources (r, w) = Some (err, r', w') \<and>
    into_effect look target sources w w' err \<and>
    (into_rename c \<noteq> [] \<and> length sources > 1 \<longrightarrow> err = Some errRenameNotSupported \<and> w' = w)"
proof -
  obtain err r' w' where l: "into_loop os seg rt c target (length sources > 1) sources (r, w) = Some (err, r', w')"
    "into_effect look target sources w w' err"
    using tree_fs.into_loop_spec [OF assms(1-4) _ assms(6), of "length sources > 1"] assms(5) by blast
  moreover have "into_rename c \<noteq> [] \<and> length sources > 1 \<longrightarrow> err = Some errRenameNotSupported \<and> w' = w"
    using l(1) by (cases sources) auto
  ultimately show ?thesis unfolding into_execute_def by blast
qed

definition two_dirs_fs :: fs where
  "two_dirs_fs = new_entry [''out''] dir_inode sample_fs"

lemma two_dirs_inv: "tree_inv two_dirs_fs"
proof -
  have "linkfree_inv two_dirs_fs"
    unfolding two_dirs_fs_def
    by (intro new_entry_linkfree sample_fs_inv) (simp_all add: sample_fs_def new_entry_def empty_fs_def dir_inode_def)
  moreover have "ents two_dirs_fs = [[''out''] \<mapsto> 3, [''in'', ''f''] \<mapsto> 2, [''in''] \<mapsto> 1, [] \<mapsto> 0]"
    by (auto simp: two_dirs_fs_def sample_fs_def new_entry_def empty_fs_def fun_eq_iff)
  ultimately show ?thesis by (auto simp: tree_inv_def append_eq_Cons_conv)
qed

theorem move_into_keeps_files_witness:
  "\<exists>r' w'. into_execute plain_os byte_segments sample_runtime \<lparr>into_rename = []\<rparr> ''/out'' [''/in/f''] (0, two_dirs_fs) =
     Some (None, r', w') \<and> in_target plain_look ''/out'' w' (0, 2)"
proof -
  let ?c = "\<lparr>into_rename = []\<rparr>" and ?s = "''/in/f''"
  have abs: "IsAbs ''/out''" "IsAbs ?s" by (simp_all add: IsAbs_def)
  have name: "into_newname ?c ?s = ''f''" by code_simp
  then have ok: "IsAbs s \<and> normal (into_newname ?c s) \<and> into_newname ?c s \<noteq> ''..''" if "s \<in> set [?s]" for s
    using that abs by (auto simp: normal_def)
  have "case uniquename_New sample_runtime (Join [''/out'', into_newname ?c ?s]) into_opts of
      Inl _ \<Rightarrow> True | Inr g \<Rightarrow> plain_look two_dirs_fs (candidate (gen_iter byte_segments sample_runtime) (g, 0) 0) = None"
    by code_simp
  then have free: "into_free plain_os plain_look byte_segments sample_runtime ?c ''/out'' [?s] (0, two_dirs_fs)" by auto
  have "map_option fst (into_execute plain_os byte_segments sample_runtime ?c ''/out'' [?s] (0, two_dirs_fs)) = Some None"
    "map_option fi_id (plain_look two_dirs_fs ?s) = Some (0, 2)"
    by code_simp+
  then show ?thesis
    using move_into_keeps_files [OF tree.tree_fs_axioms two_dirs_inv sample_runtime_law abs(1) ok free]
    by (fastforce simp: into_effect_def)
qed

end
