(* ===== verification/CmdEmu.thy ===== *)
theory CmdEmu
  imports ExePath
begin

text \<open>
  \<open>internal/cmdemu\<close>: the test binary acts as an external command when it is called with the flag
  \<open>-emulate\<close>. A registered command is a function on the world.
\<close>

definition exit_Success :: int where "exit_Success = 0"
definition exit_Failure :: int where "exit_Failure = 1"
definition exit_Usage :: int where "exit_Usage = 64"
definition exit_Unavailable :: int where "exit_Unavailable = 69"

record 'w emu_command =
  emu_Name :: string
  emu_Execute :: "string list \<Rightarrow> 'w \<Rightarrow> err \<times> 'w"

definition MakeArgs :: "path may_panic \<Rightarrow> 'w emu_command \<Rightarrow> string list \<Rightarrow> string list may_panic" where
  "MakeArgs exe c args = map_sum id (\<lambda>p. [p, ''-emulate'', emu_Name c, ''--''] @ args) exe"

record 'w Wrapper =
  selected :: string
  commands :: "string \<rightharpoonup> 'w emu_command"

definition emu_New :: "'w Wrapper" where
  "emu_New = \<lparr>selected = [], commands = Map.empty\<rparr>"

definition Register :: "'w emu_command \<Rightarrow> 'w Wrapper \<Rightarrow> 'w Wrapper" where
  "Register cmd w = w\<lparr>commands := (commands w)(emu_Name cmd \<mapsto> cmd)\<rparr>"

text \<open>\<open>errors.As(err, &exitCodeErr)\<close>: the first exit code in the error's tree.\<close>

fun errors_As_exit :: "goerr \<Rightarrow> int option"
and errors_As_exit_any :: "goerr list \<Rightarrow> int option" where
  "errors_As_exit (ErrExitCode c) = Some c"
| "errors_As_exit (ErrWrap _ e) = errors_As_exit e"
| "errors_As_exit (ErrJoin es) = errors_As_exit_any es"
| "errors_As_exit (ErrTask (Some e) _) = errors_As_exit e"
| "errors_As_exit _ = None"
| "errors_As_exit_any [] = None"
| "errors_As_exit_any (e # es) = (case errors_As_exit e of Some c \<Rightarrow> Some c | None \<Rightarrow> errors_As_exit_any es)"

text \<open>The exit code, and whether something was written to the standard error output.\<close>

definition emu_run :: "'w Wrapper \<Rightarrow> string \<Rightarrow> string list \<Rightarrow> 'w \<Rightarrow> (int \<times> bool) \<times> 'w" where
  "emu_run wr name args w =
     (case commands wr name of
        None \<Rightarrow> ((exit_Usage, True), w)
      | Some cmd \<Rightarrow>
          (case emu_Execute cmd args w of
             (None, w1) \<Rightarrow> ((exit_Success, False), w1)
           | (Some e, w1) \<Rightarrow>
               (case errors_As_exit e of
                  Some c \<Rightarrow> ((c, False), w1)
                | None \<Rightarrow> ((exit_Unavailable, True), w1))))"

text \<open>\<open>m_Run\<close> runs the tests; \<open>sel\<close> and \<open>args\<close> are what \<open>flag.Parse\<close> finds.\<close>

definition emu_Main :: "('w \<Rightarrow> int \<times> 'w) \<Rightarrow> string \<Rightarrow> string list \<Rightarrow> 'w Wrapper \<Rightarrow> 'w \<Rightarrow> int \<times> 'w" where
  "emu_Main m_Run sel args wr w =
     (let wr1 = wr\<lparr>selected := sel\<rparr>
      in if selected wr1 \<noteq> [] then (case emu_run wr1 (selected wr1) args w of ((c, _), w1) \<Rightarrow> (c, w1)) else m_Run w)"

text \<open>A registered command called with the arguments made for it is the one that is run; its error
  decides the exit code.\<close>

lemma emulated_exit_code:
  assumes "emu_Name cmd \<noteq> []" "emu_Execute cmd args w = (e, w1)"
  shows "emu_Main m_Run (emu_Name cmd) args (Register cmd wr) w =
    (case e of None \<Rightarrow> 0 | Some x \<Rightarrow> (case errors_As_exit x of Some c \<Rightarrow> c | None \<Rightarrow> 69), w1)"
  using assms
  by (simp add: emu_Main_def Register_def emu_run_def exit_Success_def exit_Unavailable_def Let_def split: option.split)

end
