(* ===== verification/MultiFile.thy ===== *)
theory MultiFile
  imports ArchiveNames Prune Strconv
begin

text \<open>
  \<open>selftest/multifile\<close>: a self-test that creates files, each with the number of the generation from
  which on its command succeeds, and raises the generation until all of them were handled. Files are
  written and looked up through the record \<open>mf_env\<close>; \<open>mf_tick\<close> is the wait for the delay, which ends
  with an error when the context is done.
\<close>

section \<open>Definitions\<close>

record 'w mf_env =
  mf_WriteFile :: "path \<Rightarrow> string \<Rightarrow> int \<Rightarrow> 'w \<Rightarrow> err \<times> 'w"
  mf_Lstat :: "path \<Rightarrow> 'w \<Rightarrow> err \<times> 'w"
  mf_MkdirTemp :: "path \<Rightarrow> string \<Rightarrow> 'w \<Rightarrow> (goerr + path) \<times> 'w"
  mf_tick :: "duration \<Rightarrow> 'w \<Rightarrow> err \<times> 'w"

definition writeInt :: "'w mf_env \<Rightarrow> path \<Rightarrow> int \<Rightarrow> 'w \<Rightarrow> err \<times> 'w" where
  "writeInt env path v w = mf_WriteFile env path (Itoa v @ [CHR 0x0A]) 384 w"

record generationCounterFile =
  gen_path :: path
  gen_count :: int

definition writeCount :: "'w mf_env \<Rightarrow> generationCounterFile \<Rightarrow> 'w \<Rightarrow> err \<times> 'w" where
  "writeCount env f w = writeInt env (gen_path f) (gen_count f) w"

definition newGenerationCounterFile :: "'w mf_env \<Rightarrow> path \<Rightarrow> 'w \<Rightarrow> (err \<times> generationCounterFile) \<times> 'w" where
  "newGenerationCounterFile env p w =
     (let f = \<lparr>gen_path = p, gen_count = 0\<rparr> in case writeCount env f w of (e, w1) \<Rightarrow> ((e, f), w1))"

definition increment :: "'w mf_env \<Rightarrow> generationCounterFile \<Rightarrow> 'w \<Rightarrow> (err \<times> generationCounterFile) \<times> 'w" where
  "increment env f w =
     (let f1 = f\<lparr>gen_count := wrap64 (gen_count f + 1)\<rparr> in case writeCount env f1 w of (e, w1) \<Rightarrow> ((e, f1), w1))"

record mf_entry =
  file_name :: string
  inputPath :: path
  checkmarkPath :: path

definition finished :: "'w mf_env \<Rightarrow> mf_entry \<Rightarrow> 'w \<Rightarrow> (bool \<times> err) \<times> 'w" where
  "finished env f w =
     (case mf_Lstat env (checkmarkPath f) w of
        (Some e, w1) \<Rightarrow> ((False, if os_IsNotExist e then None else Some e), w1)
      | (None, w1) \<Rightarrow> ((True, None), w1))"

text \<open>\<open>pending\<close> is the map of the files not yet handled, in the order in which it is visited.\<close>

record multifileTest =
  mf_dir :: path
  statusDir :: path
  generation :: generationCounterFile
  generationDelay :: duration
  counter :: int
  mf_pending :: "mf_entry list"

text \<open>\<open>rnd\<close> is the result of \<open>rand.Int\<close>.\<close>

definition multifile_New :: "'w mf_env \<Rightarrow> int \<Rightarrow> path \<Rightarrow> 'w \<Rightarrow> (goerr + multifileTest) \<times> 'w" where
  "multifile_New env rnd dir w =
     (case mf_MkdirTemp env dir ''multifile*'' w of
        (Inl e, w1) \<Rightarrow> (Inl e, w1)
      | (Inr d, w1) \<Rightarrow>
          (case mf_MkdirTemp env dir ''multifilestatus*'' w1 of
             (Inl e, w2) \<Rightarrow> (Inl e, w2)
           | (Inr sd, w2) \<Rightarrow>
               (case newGenerationCounterFile env (Join [sd, ''generation'']) w2 of
                  ((Some e, _), w3) \<Rightarrow> (Inl e, w3)
                | ((None, g), w3) \<Rightarrow>
                    (Inr \<lparr>mf_dir = d, statusDir = sd, generation = g, generationDelay = 250000000, counter = rnd,
                          mf_pending = []\<rparr>, w3))))"

definition hex_int :: "int \<Rightarrow> string" where
  "hex_int i = (if i < 0 then CHR ''-'' # to_hex (nat (- i)) else to_hex (nat i))"

definition newFile :: "'w mf_env \<Rightarrow> int \<Rightarrow> multifileTest \<Rightarrow> 'w \<Rightarrow> ((mf_entry \<times> err) \<times> multifileTest) \<times> 'w" where
  "newFile env targetGeneration t w =
     (let t1 = t\<lparr>counter := wrap64 (counter t + 1)\<rparr>;
          name = hex_int (counter t1);
          f = \<lparr>file_name = name, inputPath = Join [mf_dir t, name], checkmarkPath = Join [statusDir t, ''checkmark_'' @ name]\<rparr>
      in case writeInt env (inputPath f) targetGeneration w of (e, w1) \<Rightarrow> (((f, e), t1), w1))"

definition addTestFile :: "'w mf_env \<Rightarrow> int \<Rightarrow> multifileTest \<Rightarrow> 'w \<Rightarrow> (err \<times> multifileTest) \<times> 'w" where
  "addTestFile env targetGeneration t w =
     (case newFile env targetGeneration t w of
        (((f, Some e), t1), w1) \<Rightarrow> ((Some e, t1), w1)
      | (((f, None), t1), w1) \<Rightarrow> ((None, t1\<lparr>mf_pending := f # mf_pending t1\<rparr>), w1))"

definition multifile_Setup :: "'w mf_env \<Rightarrow> multifileTest \<Rightarrow> 'w \<Rightarrow> (err \<times> multifileTest) \<times> 'w" where
  "multifile_Setup env t w = addTestFile env 3 t w"

text \<open>The names that remain, and the files that stay in the map.\<close>

fun deleteFinished_loop :: "'w mf_env \<Rightarrow> mf_entry list \<Rightarrow> string list \<Rightarrow> 'w \<Rightarrow> ((goerr + string list) \<times> mf_entry list) \<times> 'w" where
  "deleteFinished_loop env [] remaining w = ((Inr remaining, []), w)"
| "deleteFinished_loop env (p # ps) remaining w =
     (case finished env p w of
        ((_, Some e), w1) \<Rightarrow> ((Inl e, p # ps), w1)
      | ((True, None), w1) \<Rightarrow> deleteFinished_loop env ps remaining w1
      | ((False, None), w1) \<Rightarrow>
          (case deleteFinished_loop env ps (remaining @ [file_name p]) w1 of ((r, left), w2) \<Rightarrow> ((r, p # left), w2)))"

definition deleteFinished :: "'w mf_env \<Rightarrow> multifileTest \<Rightarrow> 'w \<Rightarrow> ((goerr + string list) \<times> multifileTest) \<times> 'w" where
  "deleteFinished env t w =
     (case deleteFinished_loop env (mf_pending t) [] w of ((r, left), w1) \<Rightarrow> ((r, t\<lparr>mf_pending := left\<rparr>), w1))"

fun addTestFiles :: "'w mf_env \<Rightarrow> int list \<Rightarrow> multifileTest \<Rightarrow> 'w \<Rightarrow> (err \<times> multifileTest) \<times> 'w" where
  "addTestFiles env [] t w = ((None, t), w)"
| "addTestFiles env (i # is) t w =
     (case addTestFile env i t w of
        ((Some e, t1), w1) \<Rightarrow> ((Some e, t1), w1)
      | ((None, t1), w1) \<Rightarrow> addTestFiles env is t1 w1)"

text \<open>The loop that waits may run forever.\<close>

partial_function (option) multifile_wait :: "'w mf_env \<Rightarrow> multifileTest \<Rightarrow> 'w \<Rightarrow> ((err \<times> multifileTest) \<times> 'w) option" where
  "multifile_wait env t w =
     (case deleteFinished env t w of
        ((Inl e, t1), w1) \<Rightarrow> Some ((Some e, t1), w1)
      | ((Inr remaining, t1), w1) \<Rightarrow>
          if remaining = [] then Some ((None, t1), w1)
          else
            case mf_tick env (generationDelay t1) w1 of
              (Some e, w2) \<Rightarrow> Some ((Some e, t1), w2)
            | (None, w2) \<Rightarrow>
                (case increment env (generation t1) w2 of
                   ((Some e, g), w3) \<Rightarrow> Some ((Some e, t1\<lparr>generation := g\<rparr>), w3)
                 | ((None, g), w3) \<Rightarrow> multifile_wait env (t1\<lparr>generation := g\<rparr>) w3))"

definition multifile_Run :: "'w mf_env \<Rightarrow> multifileTest \<Rightarrow> 'w \<Rightarrow> ((err \<times> multifileTest) \<times> 'w) option" where
  "multifile_Run env t w =
     (case addTestFiles env [0, 1, 2, 3, 4, 5, 6, 7, 8, 9] t w of
        ((Some e, t1), w1) \<Rightarrow> Some ((Some e, t1), w1)
      | ((None, t1), w1) \<Rightarrow> multifile_wait env t1 w1)"

section \<open>The test ends\<close>

text \<open>
  What the test relies on: files can be written and looked up, and during the delay a handler makes the
  checkmark of every input file whose number is at most that of the generation. \<open>val\<close> is the
  number in a file, \<open>marked\<close> are the checkmarks.
\<close>

locale working_handler =
  fixes env :: "'w mf_env" and val :: "'w \<Rightarrow> path \<Rightarrow> int option" and marked :: "'w \<Rightarrow> path \<Rightarrow> bool"
    and dir sdir :: path
  assumes write_law: "0 \<le> v \<Longrightarrow> v \<le> 10 \<Longrightarrow> \<exists>w'. mf_WriteFile env p (Itoa v @ [CHR 0x0A]) m w = (None, w') \<and>
      val w' p = Some v \<and> (\<forall>q. q \<noteq> p \<longrightarrow> val w' q = val w q) \<and> (\<forall>q. marked w q \<longrightarrow> marked w' q)"
    and lstat: "mf_Lstat env p w = (if marked w p then None else Some (ErrNo ENOENT), w)"
    and tick: "\<exists>w'. mf_tick env d w = (None, w') \<and> (\<forall>q. val w' q = val w q) \<and> (\<forall>q. marked w q \<longrightarrow> marked w' q) \<and>
      (\<forall>n v g. val w (Join [dir, n]) = Some v \<longrightarrow> val w (Join [sdir, ''generation'']) = Some g \<longrightarrow> v \<le> g \<longrightarrow>
         marked w' (Join [sdir, ''checkmark_'' @ n]))"
    and dirs: "IsAbs dir" "IsAbs sdir" "comps dir \<noteq> comps sdir"

text \<open>A pending file that will be finished by generation nine at the latest.\<close>

definition mf_file :: "path \<Rightarrow> path \<Rightarrow> ('w \<Rightarrow> path \<Rightarrow> int option) \<Rightarrow> 'w \<Rightarrow> mf_entry \<Rightarrow> bool" where
  "mf_file dir sdir val w f \<longleftrightarrow>
     inputPath f = Join [dir, file_name f] \<and> checkmarkPath f = Join [sdir, ''checkmark_'' @ file_name f] \<and>
     normal (file_name f) \<and> file_name f \<noteq> ''..'' \<and> (\<exists>v \<le> 9. val w (inputPath f) = Some v)"

definition mf_inv :: "path \<Rightarrow> path \<Rightarrow> ('w \<Rightarrow> path \<Rightarrow> int option) \<Rightarrow> multifileTest \<Rightarrow> 'w \<Rightarrow> bool" where
  "mf_inv dir sdir val t w \<longleftrightarrow>
     mf_dir t = dir \<and> statusDir t = sdir \<and> gen_path (generation t) = Join [sdir, ''generation''] \<and>
     val w (Join [sdir, ''generation'']) = Some (gen_count (generation t)) \<and>
     0 \<le> gen_count (generation t) \<and> gen_count (generation t) \<le> 10 \<and>
     (\<forall>f \<in> set (mf_pending t). mf_file dir sdir val w f)"

lemma hex_int_normal: "normal (hex_int i) \<and> hex_int i \<noteq> ''..''"
proof -
  have h: "to_hex n \<noteq> []" "slash \<notin> set (to_hex n)" "CHR ''.'' \<notin> set (to_hex n)" for n
    using to_hex_low [of slash n] to_hex_low [of "CHR ''.''" n] by (simp_all, subst to_hex.simps, simp)
  then have "to_hex n \<noteq> ''.''" "to_hex n \<noteq> ''..''" for n by (metis list.set_intros(1))+
  then show ?thesis using h by (auto simp: hex_int_def normal_def)
qed

lemma addTestFile_generation: "generation (snd (fst (addTestFile env i t w))) = generation t"
  by (auto simp: addTestFile_def newFile_def Let_def split: prod.splits option.splits)

lemma addTestFiles_generation: "generation (snd (fst (addTestFiles env is t w))) = generation t"
proof (induction "is" arbitrary: t w)
  case (Cons i "is")
  then show ?case using addTestFile_generation [of env i t w]
    by (auto split: prod.splits option.splits)
qed simp

context working_handler
begin

lemma generation_apart:
  "normal n \<Longrightarrow> n \<noteq> ''..'' \<Longrightarrow> Join [dir, n] \<noteq> Join [sdir, ''generation'']"
proof
  assume n: "normal n" "n \<noteq> ''..''" and e: "Join [dir, n] = Join [sdir, ''generation'']"
  have "normal ''generation''" by (simp add: normal_def)
  then have "comps dir @ [n] = comps sdir @ [''generation'']"
    using comps_entry [OF dirs(1) n] comps_entry [OF dirs(2), of "''generation''"] e by simp
  then show False using dirs(3) by simp
qed

lemma writeInt_ok:
  "0 \<le> v \<Longrightarrow> v \<le> 10 \<Longrightarrow> \<exists>w'. writeInt env p v w = (None, w') \<and> val w' p = Some v \<and> (\<forall>q. q \<noteq> p \<longrightarrow> val w' q = val w q) \<and>
     (\<forall>q. marked w q \<longrightarrow> marked w' q)"
  unfolding writeInt_def by (rule write_law)

lemma addTestFile_inv:
  assumes "mf_inv dir sdir val t w" "0 \<le> i" "i \<le> 9"
  shows "\<exists>t' w'. addTestFile env i t w = ((None, t'), w') \<and> mf_inv dir sdir val t' w'"
proof -
  let ?n = "hex_int (wrap64 (counter t + 1))"
  let ?p = "Join [dir, ?n]"
  obtain w' where w: "writeInt env ?p i w = (None, w')" "val w' ?p = Some i" "\<forall>q. q \<noteq> ?p \<longrightarrow> val w' q = val w q"
    using writeInt_ok [of i ?p w] assms(2,3) by auto
  note n = hex_int_normal [of "wrap64 (counter t + 1)"]
  have g: "val w' (Join [sdir, ''generation'']) = val w (Join [sdir, ''generation''])"
    using w(3) generation_apart [of ?n] n by metis
  have old: "mf_file dir sdir val w' f" if "mf_file dir sdir val w f" for f
    using that w(2,3) assms(3) by (cases "inputPath f = ?p") (auto simp: mf_file_def)
  show ?thesis
    using assms w(1,2) g old n by (auto simp: addTestFile_def newFile_def mf_inv_def mf_file_def Let_def)
qed

lemma addTestFiles_inv:
  "mf_inv dir sdir val t w \<Longrightarrow> \<forall>i \<in> set is. 0 \<le> i \<and> i \<le> 9 \<Longrightarrow>
     \<exists>t' w'. addTestFiles env is t w = ((None, t'), w') \<and> mf_inv dir sdir val t' w'"
proof (induction "is" arbitrary: t w)
  case (Cons i "is")
  obtain t1 w1 where "addTestFile env i t w = ((None, t1), w1)" "mf_inv dir sdir val t1 w1"
    using addTestFile_inv [OF Cons.prems(1), of i] Cons.prems(2) by auto
  then show ?case using Cons.IH [of t1 w1] Cons.prems(2) by simp
qed simp

lemma deleteFinished_loop_spec:
  "deleteFinished_loop env ps rem w =
     ((Inr (rem @ map file_name (filter (\<lambda>p. \<not> marked w (checkmarkPath p)) ps)),
       filter (\<lambda>p. \<not> marked w (checkmarkPath p)) ps), w)"
  by (induction ps arbitrary: rem) (simp_all add: finished_def lstat os_IsNotExist_def)

lemma deleteFinished_spec:
  "deleteFinished env t w =
     ((Inr (map file_name (filter (\<lambda>p. \<not> marked w (checkmarkPath p)) (mf_pending t))),
       t\<lparr>mf_pending := filter (\<lambda>p. \<not> marked w (checkmarkPath p)) (mf_pending t)\<rparr>), w)"
  by (simp add: deleteFinished_def deleteFinished_loop_spec)

text \<open>One round of the loop that does not end it.\<close>

lemma multifile_round:
  assumes "mf_inv dir sdir val t w" "gen_count (generation t) \<le> 9" "\<exists>p \<in> set (mf_pending t). \<not> marked w (checkmarkPath p)"
  obtains t' w' where "multifile_wait env t w = multifile_wait env t' w'" "mf_inv dir sdir val t' w'"
    "gen_count (generation t') = gen_count (generation t) + 1"
    "gen_count (generation t) = 9 \<longrightarrow> (\<forall>p \<in> set (mf_pending t'). marked w' (checkmarkPath p))"
proof -
  let ?left = "filter (\<lambda>p. \<not> marked w (checkmarkPath p)) (mf_pending t)"
  let ?g = "gen_count (generation t)"
  let ?g1 = "(generation t)\<lparr>gen_count := ?g + 1\<rparr>"
  have wr: "wrap64 (?g + 1) = ?g + 1" using assms(1,2) by (intro wrap64_id) (auto simp: mf_inv_def)
  obtain w1 where w1: "mf_tick env (generationDelay t) w = (None, w1)" "\<forall>q. val w1 q = val w q"
    "\<forall>n v g. val w (Join [dir, n]) = Some v \<longrightarrow> val w (Join [sdir, ''generation'']) = Some g \<longrightarrow> v \<le> g \<longrightarrow>
         marked w1 (Join [sdir, ''checkmark_'' @ n])"
    using tick [of "generationDelay t" w] by blast
  obtain w2 where w2: "writeInt env (Join [sdir, ''generation'']) (?g + 1) w1 = (None, w2)"
    "val w2 (Join [sdir, ''generation'']) = Some (?g + 1)"
    "\<forall>q. q \<noteq> Join [sdir, ''generation''] \<longrightarrow> val w2 q = val w1 q" "\<forall>q. marked w1 q \<longrightarrow> marked w2 q"
    using writeInt_ok [of "?g + 1" "Join [sdir, ''generation'']" w1] assms(1,2) by (auto simp: mf_inv_def)
  let ?t = "t\<lparr>mf_pending := ?left, generation := ?g1\<rparr>"
  have "map file_name ?left \<noteq> []" using assms(3) by (auto simp: filter_empty_conv)
  moreover have "increment env (generation t) w1 = ((None, ?g1), w2)"
    using assms(1) w2(1) wr by (simp add: increment_def writeCount_def mf_inv_def Let_def)
  ultimately have run: "multifile_wait env t w = multifile_wait env ?t w2"
    using w1(1) by (subst multifile_wait.simps) (simp add: deleteFinished_spec)
  have kept: "mf_file dir sdir val w2 f" if "mf_file dir sdir val w f" for f
    using that w1(2) w2(3) generation_apart [of "file_name f"] by (auto simp: mf_file_def)
  then have inv: "mf_inv dir sdir val ?t w2" using assms(1,2) w2(2) by (auto simp: mf_inv_def)
  have "marked w2 (checkmarkPath f)" if f: "f \<in> set (mf_pending t)" "?g = 9" for f
  proof -
    obtain v where v: "v \<le> 9" "val w (Join [dir, file_name f]) = Some v" "checkmarkPath f = Join [sdir, ''checkmark_'' @ file_name f]"
      using assms(1) f(1) by (auto simp: mf_inv_def mf_file_def)
    have "val w (Join [sdir, ''generation'']) = Some 9" using assms(1) f(2) by (simp add: mf_inv_def)
    then show ?thesis using w1(3) w2(4) v by metis
  qed
  then show ?thesis using that [OF run inv] by simp
qed

lemma multifile_wait_ends:
  assumes "mf_inv dir sdir val t w"
    "gen_count (generation t) = 10 \<longrightarrow> (\<forall>p \<in> set (mf_pending t). marked w (checkmarkPath p))"
  shows "\<exists>t' w'. multifile_wait env t w = Some ((None, t'), w') \<and> mf_pending t' = [] \<and> gen_count (generation t') \<le> 10"
  using assms
proof (induction "nat (10 - gen_count (generation t))" arbitrary: t w rule: less_induct)
  case less
  show ?case
  proof (cases "\<forall>p \<in> set (mf_pending t). marked w (checkmarkPath p)")
    case True
    then have "filter (\<lambda>p. \<not> marked w (checkmarkPath p)) (mf_pending t) = []" by (simp add: filter_empty_conv)
    then have "multifile_wait env t w = Some ((None, t\<lparr>mf_pending := []\<rparr>), w)"
      by (subst multifile_wait.simps) (simp add: deleteFinished_spec)
    then show ?thesis using less.prems(1) by (simp add: mf_inv_def)
  next
    case False
    then have c: "gen_count (generation t) \<le> 9" using less.prems by (auto simp: mf_inv_def)
    obtain t' w' where r: "multifile_wait env t w = multifile_wait env t' w'" "mf_inv dir sdir val t' w'"
      "gen_count (generation t') = gen_count (generation t) + 1"
      "gen_count (generation t) = 9 \<longrightarrow> (\<forall>p \<in> set (mf_pending t'). marked w' (checkmarkPath p))"
      using multifile_round [OF less.prems(1) c] False by blast
    then show ?thesis using less.hyps [of t' w'] c by simp
  qed
qed

end

section \<open>Properties\<close>


text \<open>A system that writes numbers and whose handler works.\<close>

definition to_number :: "string \<Rightarrow> int option" where
  "to_number s = ParseInt (butlast s)"

definition sample_mf :: "path \<Rightarrow> path \<Rightarrow> ((path \<rightharpoonup> string) \<times> (path \<Rightarrow> bool)) mf_env" where
  "sample_mf dir sdir =
     \<lparr>mf_WriteFile = \<lambda>p s m w. (None, (fst w)(p \<mapsto> s), snd w),
      mf_Lstat = \<lambda>p w. (if snd w p then None else Some (ErrNo ENOENT), w),
      mf_MkdirTemp = \<lambda>p n w. (Inr (Join [p, n]), w),
      mf_tick = \<lambda>d w. (None, fst w, \<lambda>q. snd w q \<or> (\<exists>n v g. q = Join [sdir, ''checkmark_'' @ n] \<and>
        Option.bind (fst w (Join [dir, n])) to_number = Some v \<and>
        Option.bind (fst w (Join [sdir, ''generation''])) to_number = Some g \<and> v \<le> g))\<rparr>"

interpretation sample_mf: working_handler "sample_mf ''/a'' ''/b''" "\<lambda>w p. Option.bind (fst w p) to_number" snd "''/a''" "''/b''"
proof
  show "IsAbs ''/a''" "IsAbs ''/b''" by (simp_all add: IsAbs_def)
  show "comps ''/a'' \<noteq> comps ''/b''" by code_simp
  show "\<exists>w'. mf_WriteFile (sample_mf ''/a'' ''/b'') p (Itoa v @ [CHR 0x0A]) m w = (None, w') \<and>
      Option.bind (fst w' p) to_number = Some v \<and>
      (\<forall>q. q \<noteq> p \<longrightarrow> Option.bind (fst w' q) to_number = Option.bind (fst w q) to_number) \<and> (\<forall>q. snd w q \<longrightarrow> snd w' q)"
    if "0 \<le> v" "v \<le> 10" for p v m w
    using that ParseInt_Itoa [of v] by (simp add: sample_mf_def to_number_def)
qed (auto simp: sample_mf_def)


end
