(* ===== verification/SelfTest.thy ===== *)
theory SelfTest
  imports WatchCommand MultiFile
begin

text \<open>
  \<open>selftest\<close>: the subcommand \<open>selftest\<close>, its runner and the test of the command environment. The
  process of the Watchman server and running the watch command beside the tests are arguments.
\<close>

section \<open>tempdir.go\<close>

text \<open>The deferred function appends the error of removing the directory to a variable that is not the
  result, so this error is dropped.\<close>

definition withTempDir ::
  "('w \<Rightarrow> (goerr + path) \<times> 'w) \<Rightarrow> (path \<Rightarrow> 'w \<Rightarrow> err \<times> 'w) \<Rightarrow> bool \<Rightarrow> (path \<Rightarrow> 'w \<Rightarrow> err \<times> 'w) \<Rightarrow> 'w \<Rightarrow> err \<times> 'w" where
  "withTempDir mkdirTemp rmAll keep body w =
     (case mkdirTemp w of
        (Inl e, w1) \<Rightarrow> (Some e, w1)
      | (Inr dir, w1) \<Rightarrow>
          (case body dir w1 of
             (err, w2) \<Rightarrow> if \<not> keep then (case rmAll dir w2 of (_, w3) \<Rightarrow> (err, w3)) else (err, w2)))"

section \<open>runner.go\<close>

record 'w self_test =
  st_Name :: string
  st_HandlerConfig :: json
  st_Setup :: "'w \<Rightarrow> err \<times> 'w"
  st_Run :: "'w \<Rightarrow> err \<times> 'w"

record 'w runner_env =
  re_CreateTemp :: "path \<Rightarrow> string \<Rightarrow> 'w \<Rightarrow> (goerr + path) \<times> 'w"
  re_Marshal :: "json \<Rightarrow> goerr + string"
  re_Write :: "path \<Rightarrow> string \<Rightarrow> 'w \<Rightarrow> err \<times> 'w"
  re_Close :: "path \<Rightarrow> 'w \<Rightarrow> err \<times> 'w"
  re_Unsetenv :: "string \<Rightarrow> 'w \<Rightarrow> err \<times> 'w"
  re_watch :: "path \<Rightarrow> watch_command \<Rightarrow> 'w \<Rightarrow> err \<times> 'w"

definition writeConfig :: "'w runner_env \<Rightarrow> path \<Rightarrow> json \<Rightarrow> 'w \<Rightarrow> (goerr + path) \<times> 'w" where
  "writeConfig env dir dat w =
     (case re_CreateTemp env dir ''config*'' w of
        (Inl e, w1) \<Rightarrow> (Inl e, w1)
      | (Inr fh, w1) \<Rightarrow>
          (case re_Marshal env dat of
             Inl e \<Rightarrow> (Inl e, w1)
           | Inr buf \<Rightarrow>
               (case re_Write env fh buf w1 of
                  (Some e, w2) \<Rightarrow> (Inl e, w2)
                | (None, w2) \<Rightarrow>
                    (case re_Close env fh w2 of
                       (Some e, w3) \<Rightarrow> (Inl e, w3)
                     | (None, w3) \<Rightarrow> (Inr fh, w3)))))"

record 'w runner =
  baseDir :: path
  inputDir :: path
  rn_tests :: "'w self_test list"

text \<open>\<open>newTests\<close> are the constructors of the tests, in the order of their calls.\<close>

fun new_tests :: "(path \<Rightarrow> 'w \<Rightarrow> (goerr + 'w self_test) \<times> 'w) list \<Rightarrow> path \<Rightarrow> 'w \<Rightarrow> (goerr + 'w self_test list) \<times> 'w" where
  "new_tests [] dir w = (Inr [], w)"
| "new_tests (n # ns) dir w =
     (case n dir w of
        (Inl e, w1) \<Rightarrow> (Inl e, w1)
      | (Inr t, w1) \<Rightarrow> (case new_tests ns dir w1 of (r, w2) \<Rightarrow> (map_sum id (\<lambda>ts. t # ts) r, w2)))"

definition newRunner ::
  "'w os \<Rightarrow> (path \<Rightarrow> 'w \<Rightarrow> (goerr + 'w self_test) \<times> 'w) list \<Rightarrow> path \<Rightarrow> 'w \<Rightarrow> (goerr + 'w runner) \<times> 'w" where
  "newRunner os newTests dir w =
     (case EnsureRelDir os dir ''input'' ModePerm w of
        (Inl e, w1) \<Rightarrow> (Inl e, w1)
      | (Inr d, w1) \<Rightarrow>
          (case new_tests newTests dir w1 of
             (Inl e, w2) \<Rightarrow> (Inl e, w2)
           | (Inr ts, w2) \<Rightarrow> (Inr \<lparr>baseDir = dir, inputDir = d, rn_tests = ts\<rparr>, w2)))"

definition generateConfig :: "'w runner \<Rightarrow> json" where
  "generateConfig r =
     JObj [(''handlers'', if rn_tests r = [] then JNull else JArr (map st_HandlerConfig (rn_tests r)))]"

definition test_error :: "'w self_test \<Rightarrow> err \<Rightarrow> err" where
  "test_error t e = map_option (ErrWrap (st_Name t)) e"

fun setup_tests :: "append_func \<Rightarrow> 'w self_test list \<Rightarrow> err \<Rightarrow> 'w \<Rightarrow> err \<times> 'w" where
  "setup_tests app [] allErrors w = (allErrors, w)"
| "setup_tests app (t # ts) allErrors w =
     (case st_Setup t w of (e, w1) \<Rightarrow> setup_tests app ts (if e \<noteq> None then app allErrors (test_error t e) else allErrors) w1)"

definition setupAll :: "append_func \<Rightarrow> 'w runner \<Rightarrow> 'w \<Rightarrow> err \<times> 'w" where
  "setupAll app r w = setup_tests app (rn_tests r) None w"

text \<open>The flags are parsed without an error; the result is the path of the configuration and the command.\<close>

definition newWatchCommand :: "path \<Rightarrow> path \<Rightarrow> path \<times> watch_command" where
  "newWatchCommand tempDir configFile = (configFile, (watch_SetFlags tempDir)\<lparr>metricsAddress := ''localhost:0''\<rparr>)"

text \<open>The goroutines of \<open>runAll\<close>, in the order \<open>ts\<close> in which they finish.\<close>

fun run_tests :: "append_func \<Rightarrow> 'w self_test list \<Rightarrow> err \<Rightarrow> 'w \<Rightarrow> err \<times> 'w" where
  "run_tests app [] allErrors w = (allErrors, w)"
| "run_tests app (t # ts) allErrors w =
     (case st_Run t w of (e, w1) \<Rightarrow> run_tests app ts (if e \<noteq> None then app allErrors (test_error t e) else allErrors) w1)"

definition runAll :: "append_func \<Rightarrow> ('w self_test list \<Rightarrow> 'w self_test list) \<Rightarrow> 'w runner \<Rightarrow> 'w \<Rightarrow> err \<times> 'w" where
  "runAll app order r w = run_tests app (order (rn_tests r)) None w"

definition ErrCanceled :: goerr where
  "ErrCanceled = ErrNew ''context canceled''"

text \<open>The error of the group of the two goroutines: the first one that is not nil.\<close>

definition group_error :: "bool \<Rightarrow> err \<Rightarrow> err \<Rightarrow> err" where
  "group_error watchFirst watchErr testErr =
     (let we = (case watchErr of None \<Rightarrow> None | Some e \<Rightarrow> if errors_Is e ErrCanceled then None else Some e)
      in if watchFirst then (case we of None \<Rightarrow> testErr | Some e \<Rightarrow> Some e)
         else (case testErr of None \<Rightarrow> we | Some e \<Rightarrow> Some e))"

text \<open>\<open>beside\<close> runs the watch command and the tests at the same time and says which ended first.\<close>

definition runner_run ::
  "append_func \<Rightarrow> 'w runner_env \<Rightarrow> (('w \<Rightarrow> err \<times> 'w) \<Rightarrow> ('w \<Rightarrow> err \<times> 'w) \<Rightarrow> 'w \<Rightarrow> (bool \<times> err \<times> err) \<times> 'w) \<Rightarrow>
   ('w self_test list \<Rightarrow> 'w self_test list) \<Rightarrow> path \<Rightarrow> 'w runner \<Rightarrow> 'w \<Rightarrow> err \<times> 'w" where
  "runner_run app env beside order tempDir r w =
     (case writeConfig env (baseDir r) (generateConfig r) w of
        (Inl e, w1) \<Rightarrow> (Some e, w1)
      | (Inr configFile, w1) \<Rightarrow>
          (case re_Unsetenv env PathEnvVar w1 of
             (Some e, w2) \<Rightarrow> (Some e, w2)
           | (None, w2) \<Rightarrow>
               (case newWatchCommand tempDir configFile of
                  (conf, watchCmd) \<Rightarrow>
                    (case setupAll app r w2 of
                       (Some e, w3) \<Rightarrow> (Some e, w3)
                     | (None, w3) \<Rightarrow>
                         (case beside (re_watch env conf watchCmd) (runAll app order r) w3 of
                            ((watchFirst, watchErr, testErr), w4) \<Rightarrow> (group_error watchFirst watchErr testErr, w4))))))"

section \<open>server.go\<close>

definition errDeadlineMissing :: goerr where
  "errDeadlineMissing = ErrNew ''context must have a deadline''"

text \<open>The command line of the server; \<open>seconds\<close> is the time until the deadline, if there is one.\<close>

definition timeout_text :: "rat \<Rightarrow> string" where
  "timeout_text x = Itoa \<lceil>x\<rceil> @ ''s''"

definition server_args :: "rat option \<Rightarrow> Flags \<Rightarrow> path \<Rightarrow> goerr + string list" where
  "server_args deadline fv dir =
     (case deadline of
        None \<Rightarrow> Inl errDeadlineMissing
      | Some seconds \<Rightarrow>
          Inr ([''/usr/bin/timeout'', ''--verbose'',
                ''--kill-after='' @ timeout_text (fround 53 (seconds * fround 53 (12/10))),
                timeout_text (fround 53 (seconds * fround 53 (11/10)))] @ Flags_Args fv @
               [''--foreground'', ''--logfile=/dev/stderr'', ''--pidfile'', Join [dir, ''pid''],
                ''--statefile'', Join [dir, ''state''], ''--sockname'', Join [dir, ''sock'']]))"

definition server_client :: "Flags \<Rightarrow> path \<Rightarrow> CommandClient" where
  "server_client fv dir =
     (let client = NewClient fv in client\<lparr>client_Args := client_Args client @ [''--sockname'', Join [dir, ''sock'']]\<rparr>)"

text \<open>
  The process of the server: \<open>sv_exited\<close> says that it was waited for, \<open>sv_done\<close> that the context of the
  client is done, which is the case as soon as the process has ended. \<open>sv_shutdown\<close> asks it to end and
  waits for at most ten seconds, its errors are only logged; \<open>sv_join\<close> waits for the context.
\<close>

record 's server_ops =
  sv_Start :: "string list \<Rightarrow> 's \<Rightarrow> err \<times> 's"
  sv_WaitForReady :: "CommandClient \<Rightarrow> 's \<Rightarrow> err \<times> 's"
  sv_done :: "'s \<Rightarrow> bool"
  sv_shutdown :: "CommandClient \<Rightarrow> 's \<Rightarrow> 's"
  sv_exited :: "'s \<Rightarrow> bool"
  sv_Kill :: "'s \<Rightarrow> err \<times> 's"
  sv_join :: "'s \<Rightarrow> 's"
  sv_CloseLog :: "'s \<Rightarrow> err \<times> 's"

definition server_use :: "'s server_ops \<Rightarrow> CommandClient \<Rightarrow> (CommandClient \<Rightarrow> 's \<Rightarrow> err \<times> 's) \<Rightarrow> 's \<Rightarrow> err \<times> 's" where
  "server_use ops client ready s =
     (case sv_WaitForReady ops client s of
        (Some e, s1) \<Rightarrow> (Some e, s1)
      | (None, s1) \<Rightarrow>
          (case ready client s1 of
             (err, s2) \<Rightarrow> (err, if sv_done ops s2 then s2 else sv_shutdown ops client s2)))"

definition server_end :: "append_func \<Rightarrow> 's server_ops \<Rightarrow> err \<Rightarrow> 's \<Rightarrow> err \<times> 's" where
  "server_end app ops err s =
     (if \<not> sv_exited ops s then (case sv_Kill ops s of (e, s1) \<Rightarrow> (app err e, sv_join ops s1)) else (err, s))"

definition withServer ::
  "append_func \<Rightarrow> 's server_ops \<Rightarrow> rat option \<Rightarrow> Flags \<Rightarrow> path \<Rightarrow> (CommandClient \<Rightarrow> 's \<Rightarrow> err \<times> 's) \<Rightarrow> 's \<Rightarrow> err \<times> 's" where
  "withServer app ops deadline fv dir ready s =
     (case (case server_args deadline fv dir of
              Inl e \<Rightarrow> (Some e, s)
            | Inr args \<Rightarrow>
                (case sv_Start ops args s of
                   (Some e, s1) \<Rightarrow> (Some e, s1)
                 | (None, s1) \<Rightarrow>
                     (case server_use ops (server_client fv dir) ready s1 of (err, s2) \<Rightarrow> server_end app ops err s2))) of
        (err, s3) \<Rightarrow> (case sv_CloseLog ops s3 of (e, s4) \<Rightarrow> (app err e, s4)))"

section \<open>command.go\<close>

record selftest_command =
  sc_wmFlags :: Flags
  sc_timeout :: duration
  keepWorkDir :: bool

text \<open>\<open>seconds\<close> is the time that is left when the server is started.\<close>

definition selftest_execute ::
  "append_func \<Rightarrow> 'w os \<Rightarrow> 'w runner_env \<Rightarrow> 'w server_ops \<Rightarrow>
   (('w \<Rightarrow> err \<times> 'w) \<Rightarrow> ('w \<Rightarrow> err \<times> 'w) \<Rightarrow> 'w \<Rightarrow> (bool \<times> err \<times> err) \<times> 'w) \<Rightarrow> ('w self_test list \<Rightarrow> 'w self_test list) \<Rightarrow>
   (path \<Rightarrow> 'w \<Rightarrow> (goerr + 'w self_test) \<times> 'w) list \<Rightarrow> ('w \<Rightarrow> (goerr + path) \<times> 'w) \<Rightarrow> (path \<Rightarrow> 'w \<Rightarrow> err \<times> 'w) \<Rightarrow>
   (duration \<Rightarrow> rat) \<Rightarrow> path \<Rightarrow> selftest_command \<Rightarrow> 'w \<Rightarrow> err \<times> 'w" where
  "selftest_execute app os env ops beside order newTests mkdirTemp rmAll seconds tempDir c w =
     withTempDir mkdirTemp rmAll (keepWorkDir c) (\<lambda>tmpdir w1.
       case newRunner os newTests tmpdir w1 of
         (Inl e, w2) \<Rightarrow> (Some e, w2)
       | (Inr r, w2) \<Rightarrow>
           withServer app ops (Some (seconds (sc_timeout c))) (sc_wmFlags c) tmpdir
             (\<lambda>client. runner_run app env beside order tempDir r) w2) w"

definition selftest_Execute :: "('w \<Rightarrow> err \<times> 'w) \<Rightarrow> string list \<Rightarrow> 'w \<Rightarrow> (ExitStatus \<times> err) \<times> 'w" where
  "selftest_Execute execute args w =
     (if length args > 0 then ((ExitUsageError, None), w)
      else case execute w of (err, w1) \<Rightarrow> (executeStatus err, w1))"

section \<open>commandenv/test.go\<close>

definition commandEnvLineCount :: nat where
  "commandEnvLineCount = 1024 * 1024"

text \<open>The lines that \<open>Setup\<close> writes; \<open>write\<close> is the buffered file, and every line goes to the digest too.\<close>

fun setup_lines :: "(string \<Rightarrow> 'w \<Rightarrow> err \<times> 'w) \<Rightarrow> nat \<Rightarrow> nat \<Rightarrow> string \<Rightarrow> 'w \<Rightarrow> (err \<times> string) \<times> 'w" where
  "setup_lines wr i 0 digested w = ((None, digested), w)"
| "setup_lines wr i (Suc n) digested w =
     (let line = Itoa (int i) @ newline
      in case wr line w of
           (Some e, w1) \<Rightarrow> ((Some e, digested), w1)
         | (None, w1) \<Rightarrow> setup_lines wr (Suc i) n (digested @ line) w1)"

record commandEnvTest =
  ce_dir :: path
  targetDir :: path
  wantDigest :: "string option"

record 'w ce_env =
  ce_MkdirTemp :: "path \<Rightarrow> string \<Rightarrow> 'w \<Rightarrow> (goerr + path) \<times> 'w"
  ce_Create :: "path \<Rightarrow> 'w \<Rightarrow> err \<times> 'w"
  ce_Write :: "string \<Rightarrow> 'w \<Rightarrow> err \<times> 'w"
  ce_Flush :: "'w \<Rightarrow> err \<times> 'w"
  ce_Open :: "path \<Rightarrow> 'w \<Rightarrow> err \<times> 'w"
  ce_ReadAll :: "path \<Rightarrow> 'w \<Rightarrow> (goerr + string) \<times> 'w"
  ce_Close :: "path \<Rightarrow> 'w \<Rightarrow> err \<times> 'w"
  ce_digest :: "string \<Rightarrow> string"

definition commandenv_New :: "'w ce_env \<Rightarrow> path \<Rightarrow> 'w \<Rightarrow> (goerr + commandEnvTest) \<times> 'w" where
  "commandenv_New env dir w =
     (case ce_MkdirTemp env dir ''commandenv*'' w of
        (Inl e, w1) \<Rightarrow> (Inl e, w1)
      | (Inr d, w1) \<Rightarrow>
          (case ce_MkdirTemp env dir ''commandtarget*'' w1 of
             (Inl e, w2) \<Rightarrow> (Inl e, w2)
           | (Inr td, w2) \<Rightarrow> (Inr \<lparr>ce_dir = d, targetDir = td, wantDigest = None\<rparr>, w2)))"

definition commandenv_Setup :: "append_func \<Rightarrow> 'w ce_env \<Rightarrow> nat \<Rightarrow> commandEnvTest \<Rightarrow> 'w \<Rightarrow> (err \<times> commandEnvTest) \<times> 'w" where
  "commandenv_Setup app env lineCount t w =
     (let path = Join [ce_dir t, ''trigger'']
      in case ce_Create env path w of
           (Some e, w1) \<Rightarrow> ((Some e, t), w1)
         | (None, w1) \<Rightarrow>
             (case (case setup_lines (ce_Write env) 0 lineCount [] w1 of
                      ((Some e, _), w2) \<Rightarrow> ((Some e, t), w2)
                    | ((None, digested), w2) \<Rightarrow>
                        (case ce_Flush env w2 of
                           (Some e, w3) \<Rightarrow> ((Some e, t), w3)
                         | (None, w3) \<Rightarrow> ((None, t\<lparr>wantDigest := Some (ce_digest env digested)\<rparr>), w3))) of
                ((err, t1), w4) \<Rightarrow> (case ce_Close env path w4 of (e, w5) \<Rightarrow> ((app err e, t1), w5))))"

text \<open>The function that \<open>Run\<close> retries until the time is over.\<close>

definition commandenv_check :: "append_func \<Rightarrow> 'w ce_env \<Rightarrow> commandEnvTest \<Rightarrow> 'w \<Rightarrow> err \<times> 'w" where
  "commandenv_check app env t w =
     (let path = Join [targetDir t, ''done.txt'']
      in case ce_Open env path w of
           (Some e, w1) \<Rightarrow> (Some e, w1)
         | (None, w1) \<Rightarrow>
             (case (case ce_ReadAll env path w1 of
                      (Inl e, w2) \<Rightarrow> (Some e, w2)
                    | (Inr dat, w2) \<Rightarrow>
                        (if wantDigest t = Some (ce_digest env dat) then None
                         else Some (ErrNew ''digest of copied file differs''), w2)) of
                (err, w3) \<Rightarrow> (case ce_Close env path w3 of (e, w4) \<Rightarrow> (app err e, w4))))"

definition commandenv_Run ::
  "append_func \<Rightarrow> 'w ce_env \<Rightarrow> (ExponentialBackOff \<Rightarrow> ('w \<Rightarrow> err \<times> 'w) \<Rightarrow> 'w \<Rightarrow> err \<times> 'w) \<Rightarrow> commandEnvTest \<Rightarrow> 'w \<Rightarrow> err \<times> 'w" where
  "commandenv_Run app env retryFn t w =
     retryFn \<lparr>RandomizationFactor = 1/10, MaxInterval = 1000000000, MaxElapsedTime = 10000000000\<rparr> (commandenv_check app env t) w"

section \<open>Configurations of the handlers\<close>

text \<open>\<open>script\<close> is the text of the shell script; \<open>dur\<close> is \<open>Duration.String\<close>.\<close>

definition commandenv_HandlerConfig :: "string \<Rightarrow> commandEnvTest \<Rightarrow> json" where
  "commandenv_HandlerConfig script t =
     JObj [(''name'', JStr ''command environment''), (''path'', JStr (ce_dir t)), (''retry_count'', JNum ''0''),
       (''command'', JArr (map JStr [''/usr/bin/env'', ''TARGET_DIR='' @ targetDir t, ''/bin/sh'', ''-x'', ''-e'', ''-c'', script]))]"

definition multifile_HandlerConfig :: "(duration \<Rightarrow> string) \<Rightarrow> string \<Rightarrow> multifileTest \<Rightarrow> json" where
  "multifile_HandlerConfig dur script t =
     JObj [(''name'', JStr ''multifile''), (''path'', JStr (mf_dir t)), (''retry_count'', JNum ''100''),
       (''retry_delay_initial'', JStr (dur (generationDelay t))), (''retry_delay_max'', JStr (dur (generationDelay t))),
       (''command'', JArr (map JStr [''/usr/bin/env'', ''GENERATION_FILE='' @ gen_path (generation t),
          ''STATUS_DIR='' @ statusDir t, ''/bin/sh'', ''-x'', ''-e'', ''-c'', script]))]"

section \<open>What the self-test leaves behind\<close>

lemma setup_lines_text:
  assumes "\<And>l w. fst (wr l w) = None"
  shows "\<exists>w'. setup_lines wr i n d w = ((None, d @ concat (map (\<lambda>k. Itoa (int k) @ newline) [i..<i + n])), w')"
proof (induction n arbitrary: i d w)
  case (Suc n)
  obtain w1 where w1: "wr (Itoa (int i) @ newline) w = (None, w1)" using assms by (metis prod.exhaust_sel)
  have "[i..<i + Suc n] = i # [Suc i..<Suc i + n]" by (simp add: upt_rec)
  then show ?case using Suc.IH [of "Suc i" "d @ Itoa (int i) @ newline" w1] w1 by simp
qed simp

text \<open>The directory made for the self-test is removed unless it is to be kept.\<close>

lemma withTempDir_removes:
  assumes "mkdirTemp w = (Inr dir, w1)" "\<not> keep" "\<And>w. there (snd (rmAll dir w)) = {}"
  shows "there (snd (withTempDir mkdirTemp rmAll keep body w)) = {}"
  using assms by (auto simp: withTempDir_def split: prod.splits) (metis snd_conv empty_iff)

text \<open>What \<open>os/exec\<close> and \<open>kill(2)\<close> promise of the server's process. \<open>live\<close> means that the process is running
  and was not killed.\<close>

locale server_process =
  fixes ops :: "'s server_ops" and live :: "'s \<Rightarrow> bool"
  assumes start_failed: "sv_Start ops args s = (Some e, s1) \<Longrightarrow> live s1 = live s"
    and exited: "sv_exited ops s \<Longrightarrow> \<not> live s"
    and killed: "sv_Kill ops s = (None, s1) \<Longrightarrow> \<not> live (sv_join ops s1)"
    and close_log: "live (snd (sv_CloseLog ops s)) = live s"
begin

lemma server_end_dead:
  assumes "multierr_law app" "server_end app ops err s = (e, s1)"
  shows "\<not> live s1 \<or> e \<noteq> None"
proof (cases "sv_exited ops s")
  case True
  then show ?thesis using assms(2) exited [of s] by (simp add: server_end_def)
next
  case False
  obtain k s2 where k: "sv_Kill ops s = (k, s2)" by fastforce
  then have "e = app err k" "s1 = sv_join ops s2" using assms(2) False by (auto simp: server_end_def)
  then show ?thesis using killed k multierr_law_None_iff [OF assms(1), of err k] by (cases k) auto
qed

lemma withServer_dead:
  assumes "multierr_law app" "\<not> live s" "withServer app ops deadline fv dir ready s = (err, s')"
  shows "\<not> live s' \<or> err \<noteq> None"
proof -
  have close: "\<not> live s' \<or> err \<noteq> None" if "\<not> live s3 \<or> err3 \<noteq> None"
    "(case sv_CloseLog ops s3 of (e, s4) \<Rightarrow> (app err3 e, s4)) = (err, s')" for err3 s3
  proof -
    obtain e s4 where c: "sv_CloseLog ops s3 = (e, s4)" by fastforce
    then have "err = app err3 e" "s' = s4" "live s4 = live s3" using that(2) close_log [of s3] by simp_all
    then show ?thesis using that(1) multierr_law_None_iff [OF assms(1), of err3 e] by simp
  qed
  show ?thesis
  proof (cases "server_args deadline fv dir")
    case (Inl e)
    then show ?thesis using close [of s "Some e"] assms(2,3) by (simp add: withServer_def)
  next
    case (Inr args)
    obtain e s1 where 1: "sv_Start ops args s = (e, s1)" by fastforce
    obtain err2 s2 where 2: "server_use ops (server_client fv dir) ready s1 = (err2, s2)" by fastforce
    obtain err3 s3 where 3: "server_end app ops err2 s2 = (err3, s3)" by fastforce
    show ?thesis
    proof (cases e)
      case None
      then show ?thesis using close [OF server_end_dead [OF assms(1) 3]] assms(3) Inr 1 2 3 by (simp add: withServer_def)
    next
      case (Some x)
      then show ?thesis using close [of s1 "Some x"] assms(3) Inr 1 by (simp add: withServer_def)
    qed
  qed
qed

end

section \<open>Properties\<close>


text \<open>A server that ignores the request to end; the state says whether it runs.\<close>

definition stubborn_server :: "bool server_ops" where
  "stubborn_server =
     \<lparr>sv_Start = \<lambda>args s. (None, True), sv_WaitForReady = \<lambda>c s. (None, s), sv_done = \<lambda>s. \<not> s,
      sv_shutdown = \<lambda>c s. s, sv_exited = \<lambda>s. \<not> s, sv_Kill = \<lambda>s. (None, False), sv_join = \<lambda>s. s,
      sv_CloseLog = \<lambda>s. (None, s)\<rparr>"

interpretation stubborn: server_process stubborn_server "\<lambda>s. s"
  by unfold_locales (auto simp: stubborn_server_def)


end
