(* ===== verification/MetricsRegistry.thy ===== *)
theory MetricsRegistry
  imports WatchHandler
begin

text \<open>
  The exchange of \<open>watch/handlermetrics.go\<close> and \<open>watch/router.go\<close> with the Prometheus client library:
  the descriptions a handler's collector announces, the metrics it hands out, and how \<open>newRouter\<close>
  registers the collectors. The registry is a dependency; what it documents is the locale
  \<open>metrics_registry\<close>.
\<close>

section \<open>Descriptions and metrics\<close>

text \<open>\<open>prometheus.Desc\<close>: the name, the help text, the names of the variable labels and the constant
  labels.\<close>

record Desc =
  fqName :: string
  helpText :: string
  variableLabels :: "string list"
  constLabels :: "(string \<times> string) list"

definition NewDesc :: "string \<Rightarrow> string \<Rightarrow> string list \<Rightarrow> Desc" where
  "NewDesc name text labels = \<lparr>fqName = name, helpText = text, variableLabels = labels, constLabels = []\<rparr>"

text \<open>A metric that a collector hands out: its description, the values of the variable labels, and
  the value.\<close>

datatype metric_value = Gauge rat | Counter nat | Histogram "rat list" "rat list"

record Metric =
  m_desc :: Desc
  m_labels :: "string list"
  m_value :: metric_value

definition infoDesc :: Desc where
  "infoDesc = NewDesc ''handler_info'' ''Information about the handler.'' [''path'']"

definition fileChangeDesc :: Desc where
  "fileChangeDesc = NewDesc ''file_changes_total'' ''Number of reported file changes.'' []"

definition pendingTasksDesc :: Desc where
  "pendingTasksDesc = NewDesc ''pending_total'' ''Number of currently waiting tasks.'' []"

definition retryDesc :: Desc where
  "retryDesc = NewDesc ''retries_total'' ''Number of retries.'' []"

definition finishedDesc :: Desc where
  "finishedDesc = NewDesc ''finished_total'' ''Total number of handled changes (including failures).'' []"

definition failureDesc :: Desc where
  "failureDesc = NewDesc ''failures_total'' ''Number of failures.'' []"

definition exitCodeDesc :: Desc where
  "exitCodeDesc = NewDesc ''command_exit_code_total'' ''Number of times each command exit code occurred.'' [''code'']"

definition wallTimeDesc :: Desc where
  "wallTimeDesc = NewDesc ''command_wall_time'' ''Histogram with the time taken by commands from start to end.'' []"

definition userTimeDesc :: Desc where
  "userTimeDesc = NewDesc ''command_user_time'' ''Histogram with the user space time taken by commands.'' []"

definition systemTimeDesc :: Desc where
  "systemTimeDesc = NewDesc ''command_system_time'' ''Histogram with the system time taken by commands.'' []"

section \<open>handlermetrics.go: Describe, Collect\<close>

text \<open>The constant metric with the path: \<open>MustNewConstMetric\<close> panics if the value of the label is not
  encoded in UTF-8.\<close>

definition new_infoMetric :: "path \<Rightarrow> Metric may_panic" where
  "new_infoMetric p =
     (if valid_utf8 (Clean p) then Inr \<lparr>m_desc = infoDesc, m_labels = [Clean p], m_value = Gauge 1\<rparr>
      else Inl (Panic ''label value is not valid UTF-8''))"

text \<open>\<open>NewHistogram\<close> panics unless the boundaries of its buckets rise strictly.\<close>

definition NewHistogram_check :: "rat list \<Rightarrow> unit may_panic" where
  "NewHistogram_check buckets =
     (if sorted_wrt (<) buckets then Inr () else Inl (Panic ''histogram buckets must be in increasing order''))"

text \<open>The construction of a collector with its panics.\<close>

definition must_newCollector ::
  "(rat \<Rightarrow> rat \<Rightarrow> int \<Rightarrow> rat list) \<Rightarrow> Handler \<Rightarrow> handlerMetricsCollector may_panic" where
  "must_newCollector expRange c =
     (case new_infoMetric (hPath c) of
        Inl p \<Rightarrow> Inl p
      | Inr _ \<Rightarrow>
          map_sum id (\<lambda>_. newHandlerMetricsCollector expRange c)
            (NewHistogram_check (makeHandlerTimeBuckets expRange c)))"

text \<open>The collectors in \<open>nested\<close>, by their descriptions.\<close>

definition nested_descs :: "Desc list" where
  "nested_descs =
     [fileChangeDesc, exitCodeDesc, wallTimeDesc, userTimeDesc, systemTimeDesc, retryDesc, finishedDesc, failureDesc]"

definition Describe :: "Desc list" where
  "Describe = [infoDesc, pendingTasksDesc] @ nested_descs"

text \<open>What the nested collectors hand out; the counters of the exit codes come in the order \<open>codes\<close>, which
  the library leaves open.\<close>

definition Collect_nested :: "string list \<Rightarrow> handlerMetricsCollector \<Rightarrow> Metric list" where
  "Collect_nested codes c =
     [\<lparr>m_desc = fileChangeDesc, m_labels = [], m_value = Counter (fileChangeCount c)\<rparr>] @
     map (\<lambda>code. \<lparr>m_desc = exitCodeDesc, m_labels = [code], m_value = Counter (the (commandExitCodeCount c code))\<rparr>) codes @
     [\<lparr>m_desc = wallTimeDesc, m_labels = [], m_value = Histogram (timeBuckets c) (commandWallTime c)\<rparr>,
      \<lparr>m_desc = userTimeDesc, m_labels = [], m_value = Histogram (timeBuckets c) (commandUserTime c)\<rparr>,
      \<lparr>m_desc = systemTimeDesc, m_labels = [], m_value = Histogram (timeBuckets c) (commandSystemTime c)\<rparr>,
      \<lparr>m_desc = retryDesc, m_labels = [], m_value = Counter (retryCount c)\<rparr>,
      \<lparr>m_desc = finishedDesc, m_labels = [], m_value = Counter (finishedCount c)\<rparr>,
      \<lparr>m_desc = failureDesc, m_labels = [], m_value = Counter (failureCount c)\<rparr>]"

text \<open>\<open>Collect\<close> reads the collector under its own lock and then the pending tasks under that of the handler.\<close>

definition Collect :: "string list \<Rightarrow> handler \<Rightarrow> Metric list" where
  "Collect codes h =
     \<lparr>m_desc = infoDesc, m_labels = [infoPath (h_mc h)], m_value = Gauge 1\<rparr> #
     Collect_nested codes (h_mc h) @
     [\<lparr>m_desc = pendingTasksDesc, m_labels = [], m_value = Gauge (of_nat (card (dom (pending h))))\<rparr>]"

section \<open>router.go: newRouter\<close>

text \<open>\<open>WrapRegistererWith\<close> adds constant labels to all descriptions, \<open>WrapRegistererWithPrefix\<close> a prefix to
  their names.\<close>

definition wrap_labels :: "(string \<times> string) list \<Rightarrow> Desc \<Rightarrow> Desc" where
  "wrap_labels ls d = d\<lparr>constLabels := ls @ constLabels d\<rparr>"

definition wrap_prefix :: "string \<Rightarrow> Desc \<Rightarrow> Desc" where
  "wrap_prefix p d = d\<lparr>fqName := p @ fqName d\<rparr>"

definition metrics_prefix :: string where
  "metrics_prefix = ''baamhackl_''"

definition handler_descs :: "string \<Rightarrow> Desc list" where
  "handler_descs name = map (wrap_prefix metrics_prefix \<circ> wrap_labels [(''handler'', name)]) Describe"

text \<open>\<open>MustRegister\<close> panics on an error; \<open>register\<close> is the method of the registry.\<close>

definition MustRegister :: "(Desc list \<Rightarrow> 'g \<Rightarrow> err \<times> 'g) \<Rightarrow> Desc list \<Rightarrow> 'g \<Rightarrow> 'g may_panic" where
  "MustRegister register ds g =
     (case register ds g of
        (Some _, _) \<Rightarrow> Inl (Panic ''registering a collector failed'')
      | (None, g1) \<Rightarrow> Inr g1)"

fun register_handlers ::
  "(Desc list \<Rightarrow> 'g \<Rightarrow> err \<times> 'g) \<Rightarrow> (rat \<Rightarrow> rat \<Rightarrow> int \<Rightarrow> rat list) \<Rightarrow> Handler list \<Rightarrow> (string \<rightharpoonup> handler) \<Rightarrow> 'g \<Rightarrow>
   ((string \<rightharpoonup> handler) \<times> 'g) may_panic" where
  "register_handlers register expRange [] m g = Inr (m, g)"
| "register_handlers register expRange (c # cs) m g =
     (case must_newCollector expRange c of
        Inl p \<Rightarrow> Inl p
      | Inr _ \<Rightarrow>
          (case MustRegister register (handler_descs (hName c)) g of
             Inl p \<Rightarrow> Inl p
           | Inr g1 \<Rightarrow> register_handlers register expRange cs (m(hName c \<mapsto> newHandler expRange c)) g1))"

text \<open>The whole of \<open>newRouter\<close>, with the new registry \<open>g\<close>.\<close>

definition newRouter_registry ::
  "(Desc list \<Rightarrow> 'g \<Rightarrow> err \<times> 'g) \<Rightarrow> (rat \<Rightarrow> rat \<Rightarrow> int \<Rightarrow> rat list) \<Rightarrow> job scheduler \<Rightarrow> (nat \<Rightarrow> 'w htask) \<Rightarrow>
   Handler list \<Rightarrow> 'g \<Rightarrow> ('w router \<times> 'g) may_panic" where
  "newRouter_registry register expRange sched objs handlers g =
     map_sum id (\<lambda>(m, g1).
         (\<lparr>handlerByName = m, r_tasks = \<lparr>objects = objs, nextObject = 0, t_sched = sched\<rparr>, pruneInterval = hour\<rparr>, g1))
       (register_handlers register expRange handlers Map.empty g)"

section \<open>command.go: serveMetrics\<close>

text \<open>\<open>MustRegister\<close> with several collectors. The registry of the metrics server gets the collectors of
  the library, \<open>lib\<close>, and the router's registry, which describes what all its collectors describe.\<close>

fun MustRegister_all :: "(Desc list \<Rightarrow> 'g \<Rightarrow> err \<times> 'g) \<Rightarrow> Desc list list \<Rightarrow> 'g \<Rightarrow> 'g may_panic" where
  "MustRegister_all register [] g = Inr g"
| "MustRegister_all register (ds # dss) g =
     (case MustRegister register ds g of Inl p \<Rightarrow> Inl p | Inr g1 \<Rightarrow> MustRegister_all register dss g1)"

definition serveMetrics_registry :: "(Desc list \<Rightarrow> 'g \<Rightarrow> err \<times> 'g) \<Rightarrow> Desc list list \<Rightarrow> Desc list \<Rightarrow> 'g \<Rightarrow> 'g may_panic" where
  "serveMetrics_registry register lib routerMetrics g = MustRegister_all register (lib @ [routerMetrics]) g"

section \<open>Well-formed metrics\<close>

text \<open>What the library demands of a metric: a value for each variable label, in UTF-8, and buckets in
  strictly increasing order.\<close>

definition metric_ok :: "Metric \<Rightarrow> bool" where
  "metric_ok m \<longleftrightarrow> length (m_labels m) = length (variableLabels (m_desc m)) \<and> (\<forall>l \<in> set (m_labels m). valid_utf8 l) \<and>
     (case m_value m of Histogram bs _ \<Rightarrow> sorted_wrt (<) bs | _ \<Rightarrow> True)"

text \<open>The calls that update a collector.\<close>

datatype report = FileChangeReport | ProcessReport int duration duration duration | RetryReport | FinalReport bool

fun apply_report :: "report \<Rightarrow> handlerMetricsCollector \<Rightarrow> handlerMetricsCollector" where
  "apply_report FileChangeReport c = ReportFileChange c"
| "apply_report (ProcessReport code wall user sys) c = ReportProcessState code wall user sys c"
| "apply_report RetryReport c = ReportTaskRetry c"
| "apply_report (FinalReport failed) c = ReportFinalTaskStatus failed c"

definition exit_codes :: "handlerMetricsCollector \<Rightarrow> nat" where
  "exit_codes c = (\<Sum>code \<in> dom (commandExitCodeCount c). the (commandExitCodeCount c code))"

definition collector_ok :: "handlerMetricsCollector \<Rightarrow> bool" where
  "collector_ok c \<longleftrightarrow> valid_utf8 (infoPath c) \<and> sorted_wrt (<) (timeBuckets c) \<and>
     finite (dom (commandExitCodeCount c)) \<and> ''0'' \<in> dom (commandExitCodeCount c) \<and>
     (\<forall>code \<in> dom (commandExitCodeCount c). valid_utf8 code) \<and> failureCount c \<le> finishedCount c \<and>
     length (commandWallTime c) = exit_codes c \<and> length (commandUserTime c) = exit_codes c \<and>
     length (commandSystemTime c) = exit_codes c"

lemma valid_utf8_ascii: "\<forall>c \<in> set s. byte_in c 0 127 \<Longrightarrow> valid_utf8 s"
proof (induction s)
  case (Cons c cs)
  then have "rune_len (c # cs) = Suc 0" by (simp add: rune_len_def)
  then show ?case using Cons by (subst valid_utf8.simps) simp
qed (simp add: valid_utf8.simps)

lemma digits_ascii: "0 \<le> n \<Longrightarrow> \<forall>c \<in> set (digits n). byte_in c 0 127"
proof (induction n rule: digits.induct)
  case (1 n)
  have d: "byte_in (char_of (48 + d)) 0 127" if "0 \<le> d" "d < 10" for d :: int
    using of_char_digit [OF that] that by (simp add: byte_in_def)
  show ?case
  proof (cases "n < 10")
    case True
    then show ?thesis using d [of n] 1(2) by (subst digits.simps) simp
  next
    case False
    have "byte_in (char_of (48 + n mod 10)) 0 127" by (rule d) simp_all
    moreover have "\<forall>c \<in> set (digits (n div 10)). byte_in c 0 127" using 1(1) [OF False] 1(2) by simp
    ultimately show ?thesis using False by (subst digits.simps) auto
  qed
qed

lemma Itoa_utf8: "valid_utf8 (Itoa n)"
  using digits_ascii [of n] digits_ascii [of "- n"]
  by (intro valid_utf8_ascii) (auto simp: Itoa_def byte_in_def)

lemma exit_codes_report:
  assumes "finite (dom (commandExitCodeCount c))"
  shows "exit_codes (ReportProcessState code wall user sys c) = Suc (exit_codes c)"
proof -
  let ?m = "commandExitCodeCount c" and ?k = "Itoa code"
  let ?n = "case ?m ?k of None \<Rightarrow> 0 | Some n \<Rightarrow> n"
  have "exit_codes (ReportProcessState code wall user sys c) =
      (\<Sum>x \<in> insert ?k (dom ?m). the ((?m(?k \<mapsto> ?n + 1)) x))"
    by (simp add: exit_codes_def ReportProcessState_def Let_def)
  also have "\<dots> = ?n + 1 + (\<Sum>x \<in> dom ?m - {?k}. the (?m x))"
    using assms by (subst sum.insert_remove) (auto intro!: sum.cong)
  also have "\<dots> = Suc (exit_codes c)"
  proof (cases "?m ?k")
    case None
    then have "dom ?m - {?k} = dom ?m" by auto
    then show ?thesis using None by (simp add: exit_codes_def)
  next
    case (Some n)
    then have "?k \<in> dom ?m" by blast
    then show ?thesis
      using Some sum.remove [OF assms, of ?k "\<lambda>x. the (?m x)"] by (simp add: exit_codes_def)
  qed
  finally show ?thesis .
qed

lemma new_collector_ok:
  assumes "must_newCollector expRange hc = Inr c"
  shows "collector_ok c"
proof -
  have c: "c = newHandlerMetricsCollector expRange hc" "valid_utf8 (Clean (hPath hc))"
    "sorted_wrt (<) (makeHandlerTimeBuckets expRange hc)"
    using assms by (auto simp: must_newCollector_def new_infoMetric_def NewHistogram_check_def split: if_splits)
  have "valid_utf8 ''0''" by code_simp
  then show ?thesis
    using c by (simp add: collector_ok_def newHandlerMetricsCollector_def exit_codes_def)
qed

lemma report_ok: "collector_ok c \<Longrightarrow> collector_ok (apply_report r c)"
proof (cases r)
  case (ProcessReport code wall user sys)
  assume ok: "collector_ok c"
  then have "exit_codes (ReportProcessState code wall user sys c) = Suc (exit_codes c)"
    by (intro exit_codes_report) (simp add: collector_ok_def)
  then show ?thesis
    using ok ProcessReport Itoa_utf8 by (auto simp: collector_ok_def ReportProcessState_def Let_def)
qed (auto simp: collector_ok_def exit_codes_def ReportFileChange_def ReportTaskRetry_def ReportFinalTaskStatus_def Let_def)

lemma reports_ok: "collector_ok c \<Longrightarrow> collector_ok (fold apply_report rs c)"
  by (induction rs arbitrary: c) (auto simp: report_ok)

lemmas desc_defs = infoDesc_def pendingTasksDesc_def fileChangeDesc_def exitCodeDesc_def wallTimeDesc_def userTimeDesc_def
  systemTimeDesc_def retryDesc_def finishedDesc_def failureDesc_def NewDesc_def

lemma Describe_distinct: "distinct (map fqName Describe)"
  by (simp add: Describe_def nested_descs_def desc_defs)

text \<open>
  C39. The metrics of a handler are well-formed and agree with their descriptions, whatever was
  reported: each has the labels of its description, in UTF-8, and histograms have strictly
  increasing buckets; the descriptions of the metrics are exactly those announced; no two metrics
  have the same description and labels. The counts are consistent too: there are not more failures than finished
  tasks, and each histogram has as many observations as exit codes were counted.
\<close>

theorem metrics_well_typed:
  assumes "must_newCollector expRange hc = Inr c" "h_mc h = fold apply_report rs c"
    and "distinct codes" "set codes = dom (commandExitCodeCount (h_mc h))"
  shows "(\<forall>m \<in> set (Collect codes h). metric_ok m) \<and> m_desc ` set (Collect codes h) = set Describe \<and>
    distinct (map (\<lambda>m. (m_desc m, m_labels m)) (Collect codes h)) \<and>
    failureCount (h_mc h) \<le> finishedCount (h_mc h) \<and>
    (\<forall>obs \<in> {commandWallTime (h_mc h), commandUserTime (h_mc h), commandSystemTime (h_mc h)}.
       length obs = (\<Sum>code\<leftarrow>codes. the (commandExitCodeCount (h_mc h) code)))"
proof -
  have ok: "collector_ok (h_mc h)" using reports_ok [OF new_collector_ok [OF assms(1)]] assms(2) by simp
  then have ne: "codes \<noteq> []" using assms(4) by (auto simp: collector_ok_def)
  have "\<forall>m \<in> set (Collect codes h). metric_ok m"
    using ok assms(4) unfolding collector_ok_def
    by (auto simp: Collect_def Collect_nested_def metric_ok_def desc_defs)
  moreover have "m_desc ` set (Collect codes h) = set Describe"
    using ne by (auto simp: Collect_def Collect_nested_def Describe_def nested_descs_def image_iff)
  moreover have "distinct (map (\<lambda>m. (m_desc m, m_labels m)) (Collect codes h))"
    using assms(3) Describe_distinct
    by (auto simp: Collect_def Collect_nested_def desc_defs distinct_map inj_on_def)
  moreover have "exit_codes (h_mc h) = (\<Sum>code\<leftarrow>codes. the (commandExitCodeCount (h_mc h) code))"
    using assms(3,4) by (simp add: exit_codes_def sum_list_distinct_conv_sum_set)
  ultimately show ?thesis using ok by (auto simp: collector_ok_def)
qed

definition sample_range :: "rat \<Rightarrow> rat \<Rightarrow> int \<Rightarrow> rat list" where
  "sample_range lo hi n = [lo, hi]"

lemma sample_collector: "must_newCollector sample_range sample_handler = Inr (newHandlerMetricsCollector sample_range sample_handler)"
proof -
  have "valid_utf8 (Clean (hPath sample_handler))" "sorted_wrt (<) (makeHandlerTimeBuckets sample_range sample_handler)"
    by code_simp+
  then show ?thesis by (simp add: must_newCollector_def new_infoMetric_def NewHistogram_check_def)
qed

definition sample_reports :: "report list" where
  "sample_reports = [FileChangeReport, ProcessReport 1 second second 0, RetryReport, ProcessReport 0 second second 0, FinalReport False]"

definition reported_handler :: handler where
  "reported_handler = (newHandler sample_range sample_handler)
     \<lparr>h_mc := fold apply_report sample_reports (newHandlerMetricsCollector sample_range sample_handler)\<rparr>"

theorem metrics_well_typed_witness:
  "m_desc ` set (Collect [''1'', ''0''] reported_handler) = set Describe \<and>
   length (commandWallTime (h_mc reported_handler)) = 2"
proof -
  let ?c = "fold apply_report sample_reports (newHandlerMetricsCollector sample_range sample_handler)"
  have i: "Itoa 1 = ''1''" "Itoa 0 = ''0''" by code_simp+
  have e: "commandExitCodeCount ?c = [''0'' \<mapsto> 1, ''1'' \<mapsto> 1]"
    by (auto simp: sample_reports_def newHandlerMetricsCollector_def ReportFileChange_def ReportTaskRetry_def
        ReportFinalTaskStatus_def ReportProcessState_def i)
  have h: "h_mc reported_handler = ?c" by (simp add: reported_handler_def)
  have "set [''1'', ''0''] = dom (commandExitCodeCount (h_mc reported_handler))" unfolding h e by auto
  from metrics_well_typed [OF sample_collector h _ this] show ?thesis
    unfolding h e by simp
qed

section \<open>The registry\<close>

text \<open>
  The criteria in the documentation of \<open>prometheus.Desc\<close>: names consist of certain characters;
  descriptions with the same name have the same help text and label names, but differ in the values
  of their constant labels, which are in UTF-8.
\<close>

definition name_char :: "char \<Rightarrow> bool" where
  "name_char c \<longleftrightarrow> (let n = of_char c :: nat in 65 \<le> n \<and> n \<le> 90 \<or> 97 \<le> n \<and> n \<le> 122 \<or> n = 95)"

definition name_ok :: "string \<Rightarrow> bool" where
  "name_ok n \<longleftrightarrow> n \<noteq> [] \<and> list_all name_char n"

definition desc_ok :: "Desc \<Rightarrow> bool" where
  "desc_ok d \<longleftrightarrow> name_ok (fqName d) \<and> list_all name_ok (variableLabels d @ map fst (constLabels d)) \<and>
     distinct (variableLabels d @ map fst (constLabels d)) \<and> list_all (valid_utf8 \<circ> snd) (constLabels d)"

definition same_desc :: "Desc \<Rightarrow> Desc \<Rightarrow> bool" where
  "same_desc d e \<longleftrightarrow> fqName d = fqName e \<and> set (constLabels d) = set (constLabels e)"

definition compatible :: "Desc \<Rightarrow> Desc \<Rightarrow> bool" where
  "compatible d e \<longleftrightarrow> fqName d \<noteq> fqName e \<or>
     helpText d = helpText e \<and> set (variableLabels d) = set (variableLabels e) \<and>
     fst ` set (constLabels d) = fst ` set (constLabels e) \<and> set (constLabels d) \<noteq> set (constLabels e)"

text \<open>What is documented of \<open>Register\<close>: it fails only if the criteria are not met, and it does fail for
  a description that is registered already.\<close>

locale metrics_registry =
  fixes register :: "Desc list \<Rightarrow> 'g \<Rightarrow> err \<times> 'g" and registered :: "'g \<Rightarrow> Desc set"
  assumes register_adds: "register ds g = (None, g') \<Longrightarrow> registered g' = registered g \<union> set ds"
    and register_ok: "list_all desc_ok ds \<Longrightarrow> pairwise compatible (set ds) \<Longrightarrow>
      (\<And>d e. d \<in> set ds \<Longrightarrow> e \<in> registered g \<Longrightarrow> compatible d e) \<Longrightarrow> fst (register ds g) = None"
    and register_again: "d \<in> set ds \<Longrightarrow> e \<in> registered g \<Longrightarrow> same_desc d e \<Longrightarrow> fst (register ds g) \<noteq> None"

text \<open>A registry that checks the criteria one by one.\<close>

definition list_register :: "Desc list \<Rightarrow> Desc list \<Rightarrow> err \<times> Desc list" where
  "list_register ds g =
     (if list_all desc_ok ds \<and> (\<forall>d \<in> set ds. \<forall>e \<in> set ds. d \<noteq> e \<longrightarrow> compatible d e) \<and>
         (\<forall>d \<in> set ds. \<forall>e \<in> set g. compatible d e)
      then (None, ds @ g) else (Some (ErrNew ''a previously registered descriptor is the same or inconsistent''), g))"

interpretation listed: metrics_registry list_register set
proof
  show "set g' = set g \<union> set ds" if "list_register ds g = (None, g')" for ds g g'
    using that by (auto simp: list_register_def split: if_splits)
  show "fst (list_register ds g) = None"
    if "list_all desc_ok ds" "pairwise compatible (set ds)" "\<And>d e. d \<in> set ds \<Longrightarrow> e \<in> set g \<Longrightarrow> compatible d e" for ds g
    using that by (auto simp: list_register_def pairwise_def)
  show "fst (list_register ds g) \<noteq> None" if "d \<in> set ds" "e \<in> set g" "same_desc d e" for d e ds g
    using that by (auto simp: list_register_def compatible_def same_desc_def)
qed

section \<open>Registering the handlers\<close>

lemma collector_created:
  assumes "valid_utf8 (Clean (hPath c))"
  shows "must_newCollector expRange c = Inr (newHandlerMetricsCollector expRange c)"
proof -
  have "sorted_wrt (<) (makeHandlerTimeBuckets expRange c)"
    by (simp add: makeHandlerTimeBuckets_def Let_def makeSecondsBuckets_rising rising_sorted)
  then show ?thesis using assms by (simp add: must_newCollector_def new_infoMetric_def NewHistogram_check_def)
qed

lemma handler_desc:
  "d \<in> set (handler_descs n) \<longleftrightarrow>
   (\<exists>e \<in> set Describe. d = e\<lparr>constLabels := [(''handler'', n)], fqName := metrics_prefix @ fqName e\<rparr>)"
proof -
  have "constLabels e = []" if "e \<in> set Describe" for e
    using that by (auto simp: Describe_def nested_descs_def desc_defs)
  then show ?thesis by (auto simp: handler_descs_def wrap_prefix_def wrap_labels_def image_iff)
qed

lemma handler_desc_fields:
  assumes "d \<in> set (handler_descs n)"
  shows "constLabels d = [(''handler'', n)]" "\<exists>e \<in> set Describe. fqName d = metrics_prefix @ fqName e"
  using assms by (auto simp: handler_desc)

lemma handler_descs_ok:
  assumes "valid_utf8 n"
  shows "list_all desc_ok (handler_descs n)"
proof -
  have "list_all (\<lambda>d. name_ok (metrics_prefix @ fqName d) \<and> list_all name_ok (variableLabels d @ [''handler'']) \<and>
      distinct (variableLabels d @ [''handler''])) Describe" by code_simp
  then show ?thesis using assms by (auto simp: list_all_iff handler_desc desc_ok_def simp del: append.simps)
qed

text \<open>Two descriptions of handlers are compatible unless they are the same one.\<close>

lemma Describe_inj: "d \<in> set Describe \<Longrightarrow> e \<in> set Describe \<Longrightarrow> fqName d = fqName e \<Longrightarrow> d = e"
  using Describe_distinct by (simp add: distinct_map inj_on_def)

lemma handler_descs_compatible:
  assumes "d \<in> set (handler_descs n)" "e \<in> set (handler_descs k)" "n \<noteq> k \<or> d \<noteq> e"
  shows "compatible d e"
proof -
  obtain d0 e0 where d: "d0 \<in> set Describe" "d = d0\<lparr>constLabels := [(''handler'', n)], fqName := metrics_prefix @ fqName d0\<rparr>"
    and e: "e0 \<in> set Describe" "e = e0\<lparr>constLabels := [(''handler'', k)], fqName := metrics_prefix @ fqName e0\<rparr>"
    using assms(1,2) unfolding handler_desc by blast
  show ?thesis
  proof (cases "fqName d0 = fqName e0")
    case True
    then have "d0 = e0" by (rule Describe_inj [OF d(1) e(1)])
    then show ?thesis using assms(3) d(2) e(2) by (auto simp: compatible_def)
  qed (simp add: compatible_def d(2) e(2))
qed

context metrics_registry
begin

lemma register_handler:
  assumes "valid_utf8 n" "registered g \<subseteq> (\<Union>k \<in> N. set (handler_descs k))" "n \<notin> N"
  shows "\<exists>g'. MustRegister register (handler_descs n) g = Inr g' \<and> registered g' = registered g \<union> set (handler_descs n)"
proof -
  have "fst (register (handler_descs n) g) = None"
  proof (rule register_ok [OF handler_descs_ok [OF assms(1)]])
    show "pairwise compatible (set (handler_descs n))"
      using handler_descs_compatible unfolding pairwise_def by blast
    show "compatible d e" if "d \<in> set (handler_descs n)" "e \<in> registered g" for d e
      using that assms(2,3) handler_descs_compatible by blast
  qed
  then show ?thesis using register_adds [of "handler_descs n" g]
    by (cases "register (handler_descs n) g") (auto simp: MustRegister_def)
qed

lemma register_distinct:
  assumes "\<And>c. c \<in> set cs \<Longrightarrow> valid_utf8 (hName c) \<and> valid_utf8 (Clean (hPath c))" "distinct (map hName cs)"
    "registered g \<subseteq> (\<Union>k \<in> N. set (handler_descs k))" "N \<inter> hName ` set cs = {}"
  shows "\<exists>g'. register_handlers register expRange cs m g = Inr (add_handlers expRange cs m, g') \<and>
    registered g' = registered g \<union> (\<Union>c \<in> set cs. set (handler_descs (hName c)))"
  using assms
proof (induction cs arbitrary: m g N)
  case (Cons c cs)
  obtain g1 where g1: "MustRegister register (handler_descs (hName c)) g = Inr g1"
      "registered g1 = registered g \<union> set (handler_descs (hName c))"
    using register_handler [of "hName c" g N] Cons.prems by auto
  have "\<exists>g'. register_handlers register expRange cs (m(hName c \<mapsto> newHandler expRange c)) g1 =
      Inr (add_handlers expRange cs (m(hName c \<mapsto> newHandler expRange c)), g') \<and>
      registered g' = registered g1 \<union> (\<Union>c \<in> set cs. set (handler_descs (hName c)))"
    by (rule Cons.IH [where N = "insert (hName c) N"]) (use Cons.prems g1(2) in auto)
  then show ?case using g1 Cons.prems(1) by (auto simp: collector_created)
qed simp

lemma register_all_ok:
  assumes "list_all desc_ok (concat dss)" "pairwise compatible (registered g \<union> set (concat dss))"
    "distinct (concat dss)" "registered g \<inter> set (concat dss) = {}"
  shows "\<exists>g'. MustRegister_all register dss g = Inr g' \<and> registered g' = registered g \<union> set (concat dss)"
  using assms
proof (induction dss arbitrary: g)
  case (Cons ds dss)
  have "compatible d e" if "d \<in> set ds" "e \<in> registered g" for d e
    using Cons.prems(2,4) that unfolding pairwise_def by (metis IntI UnCI concat.simps(2) empty_iff set_append)
  moreover have "pairwise compatible (set ds)" by (rule pairwise_subset [OF Cons.prems(2)]) auto
  moreover have "list_all desc_ok ds" using Cons.prems(1) by simp
  ultimately have "fst (register ds g) = None" by (intro register_ok)
  then obtain g1 where g1: "register ds g = (None, g1)" by (metis prod.collapse)
  then have r1: "registered g1 = registered g \<union> set ds" by (rule register_adds)
  have "\<exists>g'. MustRegister_all register dss g1 = Inr g' \<and> registered g' = registered g1 \<union> set (concat dss)"
    by (rule Cons.IH) (use Cons.prems r1 in \<open>auto simp: Un_assoc\<close>)
  then show ?case using g1 r1 by (auto simp: MustRegister_def)
qed simp

lemma register_twice:
  assumes "\<not> distinct (map hName cs) \<or> (\<exists>c \<in> set cs. set (handler_descs (hName c)) \<subseteq> registered g)"
  shows "\<exists>p. register_handlers register expRange cs m g = Inl p"
  using assms
proof (induction cs arbitrary: m g)
  case (Cons c cs)
  show ?case
  proof (cases "fst (register (handler_descs (hName c)) g) = None \<and> valid_utf8 (Clean (hPath c))")
    case False
    then show ?thesis
      by (auto simp: MustRegister_def must_newCollector_def new_infoMetric_def split: option.splits prod.splits sum.splits)
  next
    case True
    then obtain g1 where r: "register (handler_descs (hName c)) g = (None, g1)" by (metis prod.collapse)
    have g1: "registered g1 = registered g \<union> set (handler_descs (hName c))" by (rule register_adds [OF r])
    have "set (handler_descs (hName c)) \<noteq> {}" by (simp add: handler_descs_def Describe_def)
    then obtain d where d: "d \<in> set (handler_descs (hName c))" by (meson ex_in_conv)
    have "\<not> set (handler_descs (hName c)) \<subseteq> registered g"
      using register_again [OF d, of d g] d r by (auto simp: same_desc_def)
    then have "\<not> distinct (map hName cs) \<or> (\<exists>c \<in> set cs. set (handler_descs (hName c)) \<subseteq> registered g1)"
      using Cons.prems g1 by fastforce
    then show ?thesis using Cons.IH [of g1] r True by (auto simp: MustRegister_def collector_created)
  qed
qed simp

end

text \<open>The metrics server registers the metrics of all handlers beside those of the library, unless the library
  uses one of the names of this program.\<close>

lemma distinct_handler_descs: "distinct (map hName hs) \<Longrightarrow> distinct (concat (map (handler_descs \<circ> hName) hs))"
proof (induction hs)
  case (Cons h hs)
  have "inj_on (wrap_prefix metrics_prefix \<circ> wrap_labels [(''handler'', n)]) (set Describe)" for n
    by (rule inj_onI) (auto simp: wrap_prefix_def wrap_labels_def dest!: arg_cong [where f = fqName] intro: Describe_inj)
  then have "distinct (handler_descs n)" for n
    using Describe_distinct by (simp add: handler_descs_def distinct_map)
  moreover
  have disj: "set (handler_descs (hName h)) \<inter> set (handler_descs n) = {}" if "n \<noteq> hName h" for n
  proof (rule equals0I)
    fix d assume "d \<in> set (handler_descs (hName h)) \<inter> set (handler_descs n)"
    then have "[(''handler'', hName h)] = [(''handler'', n)]" using handler_desc_fields(1) by (metis IntD1 IntD2)
    then show False using that by simp
  qed
  have "set (handler_descs (hName h)) \<inter> set (handler_descs (hName k)) = {}" if "k \<in> set hs" for k
    by (rule disj) (use Cons.prems that in \<open>auto simp: image_iff\<close>)
  then have "set (handler_descs (hName h)) \<inter> (\<Union>k \<in> set hs. set (handler_descs (hName k))) = {}" by blast
  ultimately show ?case using Cons by simp
qed simp

lemma metrics_server_registers:
  fixes hs :: "Handler list"
  assumes "metrics_registry register registered" "registered g = {}" "distinct (map hName hs)"
    and "\<And>h. h \<in> set hs \<Longrightarrow> valid_utf8 (hName h)"
    and "list_all desc_ok (concat lib)" "pairwise compatible (set (concat lib))" "distinct (concat lib)"
    and "\<And>d e. d \<in> set (concat lib) \<Longrightarrow> e \<in> set Describe \<Longrightarrow> fqName d \<noteq> metrics_prefix @ fqName e"
  shows "\<exists>g'. serveMetrics_registry register lib (concat (map (handler_descs \<circ> hName) hs)) g = Inr g' \<and>
    registered g' = set (concat lib) \<union> (\<Union>h \<in> set hs. set (handler_descs (hName h)))"
proof -
  let ?r = "concat (map (handler_descs \<circ> hName) hs)"
  have other: "fqName d \<noteq> fqName e" if d: "d \<in> set (concat lib)" and e: "e \<in> set ?r" for d e
  proof -
    obtain h :: Handler where "e \<in> set (handler_descs (hName h))" using e by auto
    then obtain e0 where "e0 \<in> set Describe" "fqName e = metrics_prefix @ fqName e0" using handler_desc_fields(2) by blast
    then show ?thesis using assms(8) [OF d] by simp
  qed
  have "compatible d e" if d: "d \<in> set ?r" and e: "e \<in> set ?r" and ne: "d \<noteq> e" for d e
  proof -
    obtain h k :: Handler where "d \<in> set (handler_descs (hName h))" "e \<in> set (handler_descs (hName k))" using d e by auto
    then show ?thesis using ne by (intro handler_descs_compatible) auto
  qed
  moreover have "compatible d e" "compatible e d" if "d \<in> set (concat lib)" "e \<in> set ?r" for d e
    using other [OF that] by (simp_all add: compatible_def)
  ultimately have "pairwise compatible (registered g \<union> set (concat (lib @ [?r])))"
    using assms(2,6) unfolding pairwise_def by (metis Un_iff concat_append concat.simps append_Nil2 set_append empty_iff)
  moreover have "list_all desc_ok ?r" using assms(4) handler_descs_ok by (induction hs) simp_all
  then have "list_all desc_ok (concat (lib @ [?r]))" using assms(5) by simp
  moreover have "set (concat lib) \<inter> set ?r = {}" using other by blast
  then have "distinct (concat (lib @ [?r]))"
    using assms(7) distinct_handler_descs [OF assms(3)] by (simp del: set_concat)
  moreover have "set ?r = (\<Union>h \<in> set hs. set (handler_descs (hName h)))" by simp
  moreover have "registered g \<inter> set (concat (lib @ [?r])) = {}" using assms(2) by simp
  ultimately obtain g' where "MustRegister_all register (lib @ [?r]) g = Inr g'"
      "registered g' = registered g \<union> set (concat (lib @ [?r]))"
    using metrics_registry.register_all_ok [OF assms(1), of "lib @ [?r]" g] by blast
  then show ?thesis using assms(2) by (simp add: serveMetrics_registry_def)
qed

text \<open>
  C40. \<open>newRouter\<close> registers the collectors of all handlers if their names differ, which the validation
  of the configuration ensures, and panics if two names are equal. The router is the one
  described in \<open>WatchHandler\<close>, and the registry then holds the descriptions of all handlers.
\<close>

theorem router_registers_handlers:
  assumes "metrics_registry register registered" "registered g = {}"
    and "\<And>h. h \<in> set hs \<Longrightarrow> valid_utf8 (hName h) \<and> valid_utf8 (Clean (hPath h))"
  shows "if distinct (map hName hs)
    then \<exists>g'. newRouter_registry register expRange sched objs hs g = Inr (newRouter expRange sched objs hs, g') \<and>
      registered g' = (\<Union>h \<in> set hs. set (handler_descs (hName h)))
    else \<exists>p. newRouter_registry register expRange sched objs hs g = Inl p"
proof (cases "distinct (map hName hs)")
  case True
  have "registered g \<subseteq> (\<Union>k \<in> {}. set (handler_descs k))" "{} \<inter> hName ` set hs = {}" using assms(2) by simp_all
  from metrics_registry.register_distinct [OF assms(1) _ True this] assms(3)
  obtain g' where "register_handlers register expRange hs Map.empty g = Inr (add_handlers expRange hs Map.empty, g')"
      "registered g' = registered g \<union> (\<Union>h \<in> set hs. set (handler_descs (hName h)))" by blast
  then show ?thesis using True assms(2) by (simp add: newRouter_registry_def newRouter_def)
next
  case False
  then show ?thesis
    using metrics_registry.register_twice [OF assms(1), of hs g expRange Map.empty] by (auto simp: newRouter_registry_def)
qed

theorem router_registers_handlers_witness:
  "\<exists>g'. newRouter_registry list_register sample_range (New 1 0 undefined) (\<lambda>_. task_New sample_task_options) [sample_handler] [] =
     Inr (newRouter sample_range (New 1 0 undefined) (\<lambda>_. task_New sample_task_options) [sample_handler], g') \<and>
     set g' = set (handler_descs (hName sample_handler))"
proof -
  have "valid_utf8 (hName sample_handler)" "valid_utf8 (Clean (hPath sample_handler))" by code_simp+
  then show ?thesis
    using router_registers_handlers [of list_register set "[]" "[sample_handler]" sample_range "New 1 0 undefined"
        "\<lambda>_. task_New sample_task_options"] listed.metrics_registry_axioms by simp
qed

end
