(* ===== verification/MainProgram.thy ===== *)
theory MainProgram
  imports Trigger SendFileChanges
begin

text \<open>
  \<open>main.go\<close> with the names, flags and help texts of the subcommands: the parsing of command lines as
  the package \<open>flag\<close> documents it, the choice of a subcommand as \<open>subcommands\<close> documents it, and the way
  from the command line that a trigger gives to Watchman to the handler.
\<close>

section \<open>Flags\<close>

text \<open>A flag that was defined: whether it is boolean, and which values it accepts. Defining a flag
  twice panics.\<close>

record flag_def =
  fl_name :: string
  fl_bool :: bool
  fl_accepts :: "string \<Rightarrow> bool"

definition define_flag :: "flag_def \<Rightarrow> flag_def list \<Rightarrow> flag_def list may_panic" where
  "define_flag f fs =
     (if fl_name f \<in> set (map fl_name fs) then Inl (Panic ''flag redefined'') else Inr (fs @ [f]))"

fun define_flags :: "flag_def list \<Rightarrow> flag_def list \<Rightarrow> flag_def list may_panic" where
  "define_flags [] fs = Inr fs"
| "define_flags (f # gs) fs = (case define_flag f fs of Inl p \<Rightarrow> Inl p | Inr fs1 \<Rightarrow> define_flags gs fs1)"

definition find_flag :: "flag_def list \<Rightarrow> string \<Rightarrow> flag_def option" where
  "find_flag fs n = List.find (\<lambda>f. fl_name f = n) fs"

definition ErrHelp :: goerr where
  "ErrHelp = ErrNew ''flag: help requested''"

definition ErrFlag :: goerr where
  "ErrFlag = ErrNew ''invalid flag''"

text \<open>The part of an argument before the first equals sign, except at its start, and the one after it.\<close>

definition split_value :: "string \<Rightarrow> string \<times> string option" where
  "split_value a =
     (let n = takeWhile (\<lambda>c. c \<noteq> CHR ''='') (tl a)
      in if length n < length (tl a) then (hd a # n, Some (drop (length n + 1) (tl a))) else (a, None))"

definition set_flag :: "flag_def \<Rightarrow> string \<Rightarrow> goerr + (string \<times> string) list \<times> string list \<Rightarrow> goerr + (string \<times> string) list \<times> string list" where
  "set_flag f v r = (if fl_accepts f v then map_sum id (\<lambda>(vs, rest). ((fl_name f, v) # vs, rest)) r else Inl ErrFlag)"

text \<open>\<open>FlagSet.Parse\<close>: the values that are set, in their order, and the remaining arguments.\<close>

fun flag_Parse :: "flag_def list \<Rightarrow> string list \<Rightarrow> goerr + (string \<times> string) list \<times> string list" where
  "flag_Parse fs [] = Inr ([], [])"
| "flag_Parse fs (s # args) =
     (if length s < 2 \<or> hd s \<noteq> CHR ''-'' then Inr ([], s # args)
      else if s = ''--'' then Inr ([], args)
      else
        let a = (if s ! 1 = CHR ''-'' then drop 2 s else drop 1 s)
        in if a = [] \<or> hd a = CHR ''-'' \<or> hd a = CHR ''='' then Inl ErrFlag
           else
             let (n, v) = split_value a
             in case find_flag fs n of
                  None \<Rightarrow> Inl (if n = ''help'' \<or> n = ''h'' then ErrHelp else ErrFlag)
                | Some f \<Rightarrow>
                    (case v of
                       Some x \<Rightarrow> set_flag f x (flag_Parse fs args)
                     | None \<Rightarrow>
                         if fl_bool f then set_flag f ''true'' (flag_Parse fs args)
                         else (case args of [] \<Rightarrow> Inl ErrFlag | x # args1 \<Rightarrow> set_flag f x (flag_Parse fs args1))))"

declare flag_Parse.simps [simp del]

text \<open>The kinds of flags. Parsing numbers, durations and log levels is left to \<open>accepts\<close>.\<close>

definition string_flag :: "string \<Rightarrow> flag_def" where
  "string_flag n = \<lparr>fl_name = n, fl_bool = False, fl_accepts = \<lambda>_. True\<rparr>"

definition value_flag :: "(string \<Rightarrow> string \<Rightarrow> bool) \<Rightarrow> string \<Rightarrow> string \<Rightarrow> flag_def" where
  "value_flag accepts kind n = \<lparr>fl_name = n, fl_bool = False, fl_accepts = accepts kind\<rparr>"

definition bool_flag :: "string \<Rightarrow> flag_def" where
  "bool_flag n = \<lparr>fl_name = n, fl_bool = True,
     fl_accepts = \<lambda>v. v \<in> set [''1'', ''t'', ''T'', ''TRUE'', ''true'', ''True'', ''0'', ''f'', ''F'', ''FALSE'', ''false'', ''False'']\<rparr>"

section \<open>The subcommands\<close>

definition wm_flags :: "flag_def list" where
  "wm_flags = [string_flag ''watchman_program'']"

definition watch_flags :: "(string \<Rightarrow> string \<Rightarrow> bool) \<Rightarrow> flag_def list" where
  "watch_flags accepts =
     wm_flags @
     [string_flag ''state_dir'', value_flag accepts ''uint'' ''slots'', value_flag accepts ''duration'' ''shutdown_timeout'',
      value_flag accepts ''duration'' ''prune_interval'', string_flag ''metrics_address'', string_flag ''config'']"

definition into_flags :: "flag_def list" where
  "into_flags = [string_flag ''rename'']"

definition selftest_flags :: "(string \<Rightarrow> string \<Rightarrow> bool) \<Rightarrow> flag_def list" where
  "selftest_flags accepts = wm_flags @ [value_flag accepts ''duration'' ''timeout'', bool_flag ''keep'']"

definition send_flags :: "flag_def list" where
  "send_flags = [string_flag ''name'', string_flag ''root'']"

definition flag_names :: "flag_def list \<Rightarrow> string list" where
  "flag_names fs = map fl_name fs"

definition watch_subcommand :: subcommand where
  "watch_subcommand =
     \<lparr>cmd_Name = ''watch'', cmd_Synopsis = ''Observe one or multiple directories and act on file changes.'',
      cmd_flags = flag_names (watch_flags (\<lambda>_ _. True))\<rparr>"

definition into_subcommand :: subcommand where
  "into_subcommand =
     \<lparr>cmd_Name = ''move-into'', cmd_Synopsis = ''Move file(s) to a directory without overwriting.'',
      cmd_flags = flag_names into_flags\<rparr>"

definition selftest_subcommand :: subcommand where
  "selftest_subcommand =
     \<lparr>cmd_Name = ''selftest'', cmd_Synopsis = ''Execute tests to verify the system configuration.'',
      cmd_flags = flag_names (selftest_flags (\<lambda>_ _. True))\<rparr>"

definition send_subcommand :: subcommand where
  "send_subcommand =
     \<lparr>cmd_Name = ''send-file-changes'', cmd_Synopsis = ''Send information about changed files to running server.'',
      cmd_flags = flag_names send_flags\<rparr>"

definition watch_Usage :: "(string \<Rightarrow> nat \<Rightarrow> string) \<Rightarrow> path may_panic \<Rightarrow> string may_panic" where
  "watch_Usage wrap exe = Usage wrap exe watch_subcommand [] []"

definition into_Usage :: "(string \<Rightarrow> nat \<Rightarrow> string) \<Rightarrow> path may_panic \<Rightarrow> string may_panic" where
  "into_Usage wrap exe = Usage wrap exe into_subcommand ''<target_dir> <source...>''
     (''Source files are moved into the target directory. File name conflicts with existing files are resolved by '' @
      ''finding another, available name derived from the original name.'')"

definition selftest_Usage :: "(string \<Rightarrow> nat \<Rightarrow> string) \<Rightarrow> path may_panic \<Rightarrow> string may_panic" where
  "selftest_Usage wrap exe = Usage wrap exe selftest_subcommand []
     (newline @ ''Start a temporary Watchman server instance before executing a number of tests.'' @ newline @
      ''Verifies that file change notifications and command execution are working.'' @ newline)"

definition send_Usage :: "(string \<Rightarrow> nat \<Rightarrow> string) \<Rightarrow> path may_panic \<Rightarrow> string may_panic" where
  "send_Usage wrap exe = Usage wrap exe send_subcommand ''<socket>''
     (''JSON-formatted file change descriptions are read from standard input before being sent to a running server '' @
      ''via the given Unix socket.'')"

section \<open>main.go\<close>

text \<open>A registered subcommand: its flags, and what it does with their values and the arguments.\<close>

record 'w registered =
  reg_name :: string
  reg_flags :: "flag_def list"
  reg_Execute :: "(string \<times> string) list \<Rightarrow> string list \<Rightarrow> 'w \<Rightarrow> ExitStatus \<times> 'w"

text \<open>\<open>subcommands.Execute\<close>.\<close>

definition dispatch :: "'w registered list \<Rightarrow> string list \<Rightarrow> 'w \<Rightarrow> ExitStatus \<times> 'w" where
  "dispatch cmds args w =
     (case args of
        [] \<Rightarrow> (ExitUsageError, w)
      | n # rest \<Rightarrow>
          (case List.find (\<lambda>c. reg_name c = n) cmds of
             None \<Rightarrow> (ExitUsageError, w)
           | Some c \<Rightarrow>
               (case flag_Parse (reg_flags c) rest of
                  Inl _ \<Rightarrow> (ExitUsageError, w)
                | Inr (given, args1) \<Rightarrow> reg_Execute c given args1 w)))"

fun exit_code :: "ExitStatus \<Rightarrow> int" where
  "exit_code ExitSuccess = 0"
| "exit_code ExitFailure = 1"
| "exit_code ExitUsageError = 2"

text \<open>What the program needs of the outside: the three commands of the package \<open>subcommands\<close>, the
  subcommands that are started with the values of their flags, the random seed and the logger.\<close>

record 'w main_env =
  me_builtin :: "'w registered list"
  me_watch :: "(string \<times> string) list \<Rightarrow> string list \<Rightarrow> 'w \<Rightarrow> ExitStatus \<times> 'w"
  me_into :: "(string \<times> string) list \<Rightarrow> string list \<Rightarrow> 'w \<Rightarrow> ExitStatus \<times> 'w"
  me_selftest :: "(string \<times> string) list \<Rightarrow> string list \<Rightarrow> 'w \<Rightarrow> ExitStatus \<times> 'w"
  me_send :: "(string \<times> string) list \<Rightarrow> string list \<Rightarrow> 'w \<Rightarrow> ExitStatus \<times> 'w"
  me_accepts :: "string \<Rightarrow> string \<Rightarrow> bool"
  me_seed :: "goerr + int"
  me_buildLogger :: "(string \<times> string) list \<Rightarrow> err"

text \<open>The order in which \<open>main\<close> registers the subcommands; their group is only used for the help text.\<close>

definition main_commands :: "'w main_env \<Rightarrow> 'w registered list" where
  "main_commands env =
     me_builtin env @
     [\<lparr>reg_name = ''watch'', reg_flags = watch_flags (me_accepts env), reg_Execute = me_watch env\<rparr>,
      \<lparr>reg_name = ''move-into'', reg_flags = into_flags, reg_Execute = me_into env\<rparr>,
      \<lparr>reg_name = ''selftest'', reg_flags = selftest_flags (me_accepts env), reg_Execute = me_selftest env\<rparr>,
      \<lparr>reg_name = ''send-file-changes'', reg_flags = send_flags, reg_Execute = me_send env\<rparr>]"

definition seedPseudoRand :: "goerr + int \<Rightarrow> int may_panic" where
  "seedPseudoRand num =
     (case num of Inr n \<Rightarrow> Inr n | Inl _ \<Rightarrow> Inl (Panic ''Seeding random number generator failed''))"

text \<open>The exit code of the program; \<open>flag.Parse\<close> itself ends it when the global flags are wrong.\<close>

definition main :: "'w main_env \<Rightarrow> string list \<Rightarrow> 'w \<Rightarrow> (int \<times> 'w) may_panic" where
  "main env args w =
     (case seedPseudoRand (me_seed env) of
        Inl p \<Rightarrow> Inl p
      | Inr _ \<Rightarrow>
          (case flag_Parse [value_flag (me_accepts env) ''level'' ''log_level''] args of
             Inl e \<Rightarrow> Inr (if e = ErrHelp then 0 else 2, w)
           | Inr (given, rest) \<Rightarrow>
               (case me_buildLogger env given of
                  Some _ \<Rightarrow> Inr (exit_code ExitFailure, w)
                | None \<Rightarrow> (case dispatch (main_commands env) rest w of (status, w1) \<Rightarrow> Inr (exit_code status, w1)))))"

text \<open>\<open>send-file-changes\<close> started with the values of its flags.\<close>

fun apply_send_flag :: "string \<times> string \<Rightarrow> send_command \<Rightarrow> send_command" where
  "apply_send_flag (n, v) c =
     (if n = ''name'' then c\<lparr>handlerName := v\<rparr> else if n = ''root'' then c\<lparr>root_dir := v\<rparr> else c)"

definition send_main ::
  "('k, 'w) rpc_env \<Rightarrow> (string \<Rightarrow> string) \<Rightarrow> goerr + path \<Rightarrow> goerr + json \<Rightarrow> (string \<times> string) list \<Rightarrow> string list \<Rightarrow> 'w \<Rightarrow>
   ExitStatus \<times> 'w" where
  "send_main env getenv getwd inp given args w =
     (case send_Execute env getwd inp None (fold apply_send_flag given (send_SetFlags getenv)) args w of
        ((status, _), w1) \<Rightarrow> (status, w1))"

section \<open>Properties\<close>

text \<open>No subcommand defines a flag twice, and each is found by its name.\<close>

lemma define_flags_distinct: "distinct (map fl_name (fs @ gs)) \<Longrightarrow> define_flags gs fs = Inr (fs @ gs)"
proof (induction gs arbitrary: fs)
  case (Cons g gs)
  then have "distinct (map fl_name ((fs @ [g]) @ gs))" by simp
  from Cons.IH [OF this] show ?case using Cons.prems by (simp add: define_flag_def)
qed simp

lemma flags_never_panic:
  "fs \<in> {watch_flags accepts, into_flags, selftest_flags accepts, send_flags} \<Longrightarrow> define_flags fs [] = Inr fs"
  using define_flags_distinct [of "[]" fs]
  by (auto simp: watch_flags_def into_flags_def selftest_flags_def send_flags_def wm_flags_def string_flag_def
      value_flag_def bool_flag_def)

text \<open>A command line that starts with a name is passed to the subcommand of that name.\<close>

lemma flag_Parse_argument: "args = [] \<or> hd args = [] \<or> hd (hd args) \<noteq> CHR ''-'' \<Longrightarrow> flag_Parse fs args = Inr ([], args)"
  by (cases args) (auto simp: flag_Parse.simps)

lemma main_dispatch:
  assumes "me_seed env = Inr seed" "me_buildLogger env [] = None" "n = [] \<or> hd n \<noteq> CHR ''-''"
  shows "main env (n # args) w = (case dispatch (main_commands env) (n # args) w of (status, w1) \<Rightarrow> Inr (exit_code status, w1))"
  using assms by (simp add: main_def seedPseudoRand_def flag_Parse_argument)

lemma send_dispatch:
  assumes "\<And>c. c \<in> set (me_builtin env) \<Longrightarrow> reg_name c \<in> {''help'', ''flags'', ''commands''}"
    "args = [] \<or> hd args = [] \<or> hd (hd args) \<noteq> CHR ''-''"
  shows "dispatch (main_commands env) (''send-file-changes'' # args) w = me_send env [] args w"
proof -
  have skip: "List.find P (xs @ ys) = List.find P ys" if "\<And>x. x \<in> set xs \<Longrightarrow> \<not> P x"
    for P :: "'a registered \<Rightarrow> bool" and xs ys using that by (induction xs) auto
  have "reg_name c \<noteq> ''send-file-changes''" if "c \<in> set (me_builtin env)" for c using assms(1) [OF that] by auto
  then have "List.find (\<lambda>c. reg_name c = ''send-file-changes'') (main_commands env) =
      Some \<lparr>reg_name = ''send-file-changes'', reg_flags = send_flags, reg_Execute = me_send env\<rparr>"
    by (simp add: main_commands_def skip)
  then show ?thesis by (simp add: dispatch_def flag_Parse_argument [OF assms(2)])
qed


definition sample_rpc :: "(unit, fs router \<times> fs) rpc_env" where
  "sample_rpc = direct_rpc (service_FileChanged join_errors plain_os (\<lambda>_ _ _ _ w. w))"

definition sample_getenv :: "string \<Rightarrow> string" where
  "sample_getenv n = (if n = ''WATCHMAN_TRIGGER'' then ''h'' else if n = ''WATCHMAN_ROOT'' then ''/in'' else [])"

definition sample_input :: "goerr + json" where
  "sample_input = Inr (JArr [JObj [(''name'', JStr ''f'')]])"

definition sample_main :: "(fs router \<times> fs) main_env" where
  "sample_main =
     (let fails = (\<lambda>_ _ w. (ExitFailure, w))
      in \<lparr>me_builtin = [\<lparr>reg_name = ''help'', reg_flags = [], reg_Execute = fails\<rparr>], me_watch = fails, me_into = fails,
          me_selftest = fails, me_send = send_main sample_rpc sample_getenv (Inr ''/'') sample_input,
          me_accepts = \<lambda>_ _. True, me_seed = Inr 1, me_buildLogger = \<lambda>_. None\<rparr>)"


end
