(* ===== verification/Spec2Isabelle.thy ===== *)
theory Spec2Isabelle
  imports SchedulerProps WatchSystem WatchComponents MoveInto CmdEmu SelfTest MetricsRegistry MainProgram
begin

text \<open>
  \<^bold>\<open>Verification of baamhackl\<close>, a program that watches directories with the help of the Watchman
  daemon and runs a command for every file that is created or changed in them. All paths of sources
  below are relative to \<^verbatim>\<open>src/\<close>.

  \<^bold>\<open>The program.\<close> \<^verbatim>\<open>baamhackl watch\<close> (\<^verbatim>\<open>watch/command.go\<close>) loads its configuration, starts a
  scheduler with the handlers of the configured directories, listens on a socket and sets up one
  Watchman trigger per handler. The daemon answers a change with a call of
  \<^verbatim>\<open>baamhackl send-file-changes\<close>, which reads the changes as JSON and sends them to the socket.
  There the router passes a change to its handler, which keeps at most one pending task per file and
  gives new ones to the scheduler. A task makes attempts until one of them settles its file or the
  retry strategy is exhausted: an attempt copies the file to a journal directory, runs the
  configured command on the copy, and afterwards moves the file to an archive directory, unless it
  has changed in the meantime. A periodic task prunes old archives. \<^verbatim>\<open>move-into\<close> and
  \<^verbatim>\<open>selftest\<close> are further subcommands.

  \<^bold>\<open>The theories.\<close> Each theory opens with a text that says what it holds. Definitions carry the
  names of the Go functions, methods, types and fields; where two of them clash, the name of the
  package or type comes first (\<open>journal_New\<close>, \<open>task_Run\<close>).

  Shared:
  \<^item> \<open>Prelude\<close>: time, durations (64 bits, wrap-around written out), panics as the left side of a sum,
    lists and multisets. \<open>GoErrors\<close>: errors as a datatype, \<^verbatim>\<open>errors.As\<close>, \<^verbatim>\<open>multierr\<close>
    (\<open>multierr_law\<close>) and \<^verbatim>\<open>scheduler/taskerror.go\<close>. \<open>GoFloat\<close>: floating point numbers as rationals
    with rounding. \<open>Strconv\<close>: decimal numbers. \<open>FilePath\<close>: \<^verbatim>\<open>path/filepath\<close>, lexically.
  \<^item> \<open>FileSystem\<close>: the system calls as a record \<open>os\<close>, what the code relies on as the locale
    \<open>file_system\<close>, and a file system with inodes, links and handles on which it is interpreted.

  The scheduler:
  \<^item> \<open>HeapArray\<close>, \<open>PrioQueue\<close>: \<^verbatim>\<open>container/heap\<close> and \<^verbatim>\<open>internal/prioqueue\<close>; item objects have
    identities, so that an item can be updated and removed while it is queued. The locale
    \<open>prio_queue\<close> states the contract that the scheduler relies on; \<open>heap_order\<close> is a sublocale of it.
  \<^item> \<open>Scheduler\<close>: \<^verbatim>\<open>internal/scheduler\<close>, one definition per critical section. \<open>SchedulerSystem\<close>: the
    goroutines as the step relation \<open>step\<close> between critical sections, with the point of execution of
    the loop, of the tasks, of callers of \<^verbatim>\<open>Add\<close> and of one caller of \<^verbatim>\<open>Quiesce\<close> or \<^verbatim>\<open>Stop\<close> in the
    state. \<open>SchedulerProps\<close>: that no task is lost or duplicated, the order of launches, the limit on
    concurrent tasks, no lost wakeup, progress, and finality of stopping. \<open>ActiveTasks\<close>: the set of
    tasks the scheduler is responsible for, and what each step does to it.

  Handling a file:
  \<^item> \<open>RelPath\<close>, \<open>WaryIO\<close>: \<^verbatim>\<open>internal/relpath\<close> and \<^verbatim>\<open>internal/waryio\<close>: containment of paths, exact
    copies, renames that replace nothing, directories below a base.
  \<^item> \<open>UniqueName\<close>, \<open>ArchiveNames\<close>: \<^verbatim>\<open>internal/uniquename\<close>: names with a time that can be read back,
    limits on their length, and that generated names stay inside their directory. The runtime
    (clock, random numbers, formats) is a parameter with \<open>runtime_law\<close>.
  \<^item> \<open>Prune\<close>, \<open>Journal\<close>: \<^verbatim>\<open>internal/prune\<close>, \<^verbatim>\<open>internal/journal\<close> over the locales \<open>prune_system\<close> and
    \<open>journal_system\<close>: what pruning may remove, and that archiving loses no file.
  \<^item> \<open>Config\<close>, \<open>RetryStrategy\<close>: \<^verbatim>\<open>internal/config\<close>, \<^verbatim>\<open>internal/handlerretrystrategy\<close>,
    \<^verbatim>\<open>internal/fuzzduration\<close>: loading, defaults and validation; the sequence of delays.
  \<^item> \<open>ExePath\<close>, \<open>HandlerCommand\<close>, \<open>TeeLog\<close>, \<open>HandlerAttempt\<close>, \<open>HandlerTask\<close>: the packages of
    the same names: the command sees an exact copy, the outcome of an attempt and the fate of its
    file, and the bound on the number of attempts.

  The watch command:
  \<^item> \<open>FileChange\<close>, \<open>HandlerMetrics\<close>, \<open>WatchHandler\<close>: \<^verbatim>\<open>internal/watchman/filechange.go\<close>,
    \<^verbatim>\<open>internal/service\<close>, \<^verbatim>\<open>watch/handlermetrics.go\<close>, \<^verbatim>\<open>watch/handler.go\<close>, \<^verbatim>\<open>watch/router.go\<close>.
  \<^item> \<open>WatchSystem\<close>: handlers and scheduler together as the step relation \<open>wstep\<close>. It refines an
    abstract specification whose state is just the set of files being handled, every file has at
    most one task, and a reported change is covered by a task that starts later, except in one
    interleaving, which is exhibited.
  \<^item> \<open>Watchman\<close>, \<open>Trigger\<close>: \<^verbatim>\<open>internal/watchman/client.go\<close>, \<^verbatim>\<open>internal/watchmantrigger\<close>: the requests
    to the daemon, and which files a trigger selects under the documented meaning of queries (locale
    \<open>watchman_query\<close>, interpreted on an evaluator).
  \<^item> \<open>CmdUtil\<close>, \<open>SendFileChanges\<close>: \<^verbatim>\<open>internal/cmdutil\<close>, \<^verbatim>\<open>sendfilechanges\<close>: sending a list of changes
    has the effect of calling the router for each, up to the first error (locale \<open>rpc_connection\<close>).
  \<^item> \<open>CleanupGroup\<close>, \<open>SignalWait\<close>, \<open>UnixServer\<close>, \<open>WatchCommand\<close>: the packages of the same names and
    \<^verbatim>\<open>watch/command.go\<close>: every acquired resource is released, in reverse order, on all paths.
  \<^item> \<open>MetricsRegistry\<close>: the exchange of \<^verbatim>\<open>watch/handlermetrics.go\<close> and \<^verbatim>\<open>newRouter\<close> with the registry of the
    Prometheus library (locale \<open>metrics_registry\<close>): the metrics fit their descriptions, and registering
    them panics exactly if two handlers have the same name.
  \<^item> \<open>WatchComponents\<close>: the command composed with the triggers (locale \<open>watchman_triggers\<close>): none is
    left behind.

  Other subcommands:
  \<^item> \<open>MoveInto\<close>: \<^verbatim>\<open>move/into.go\<close> on trees of directories (locale \<open>tree_fs\<close>).
  \<^item> \<open>CmdEmu\<close>, \<open>MultiFile\<close>, \<open>SelfTest\<close>: \<^verbatim>\<open>internal/cmdemu\<close>, \<^verbatim>\<open>selftest\<close> with the locales
    \<open>working_handler\<close> and \<open>server_process\<close>: the test ends and leaves no server running.
  \<^item> \<open>MainProgram\<close>: \<^verbatim>\<open>main.go\<close> and the flags, names and help texts of all subcommands; a notification of
    Watchman is followed from the command line in the trigger to the pending tasks of the handler.

  \<^bold>\<open>Parameters.\<close> Libraries and the operating system are arguments of the definitions: the system
  calls, processes and contexts, the network, \<^verbatim>\<open>multierr.Append\<close>, grapheme clusters, random numbers,
  the YAML decoder and encoder, the metrics registry, the loggers. What is documented of them is assumed by locales or by named
  predicates, each of which holds of a concrete instance in the development: the file system model
  for \<open>file_system\<close>, \<open>prune_system\<close>, \<open>journal_system\<close> and \<open>tree_fs\<close>, an evaluator of queries, a daemon that
  stores triggers, a connection that calls the model of the service directly, a registry that checks the documented
  criteria, and a server that has to be killed.

  \<^bold>\<open>Concurrency.\<close> A step of \<open>step\<close> or \<open>wstep\<close> is one critical section or one operation on a channel;
  a reachable state is any interleaving of them. Time passes in steps of its own. An errgroup runs
  its functions in the order in which they finish, and that order is a parameter.

  \<^bold>\<open>Termination.\<close> Loops are structural recursions where the code iterates over a slice. The search
  for a free name (\<open>first_available\<close>) and the wait of the self-test (\<open>multifile_wait\<close>) may run forever and
  are partial functions into \<open>option\<close>; that they return is proved under the condition that some name
  is free and that the handler works. Attempts to handle a file are bounded by the retry count.

  \<^bold>\<open>Not modelled.\<close> \<^verbatim>\<open>internal/testutil\<close> (used by unit tests), \<^verbatim>\<open>internal/ref\<close> (takes an address), log
  messages and the configuration of the logger, texts of errors beyond what the code compares, the
  HTTP server of the metrics, the conversion of flag values to numbers and durations, and the shell
  scripts of the self-test.
  Reading memory outside a lock (data races) is outside of the model: the steps are the critical
  sections of the source.
\<close>

end
